(* ===== verification/Prelude.thy ===== *)
theory Prelude
  imports Main "HOL-Library.Word" "HOL-Library.AList"
begin

text \<open>
  Shared vocabulary of the development.

  \<^item> Bytes and byte strings: a Go \<open>[]byte\<close> is a \<open>bytes\<close> list, a Go array \<open>[32]byte\<close> is such a
    list of length 32 (the length is part of the invariants), \<open>b[i:j]\<close> is \<open>slice i j b\<close>.
  \<^item> Big-endian integers (\<open>encoding/binary.BigEndian\<close>): \<open>be_put\<close> and \<open>be_get\<close>.
  \<^item> Go maps: association lists with distinct keys. The order of the list is the order in which a
    \<open>range\<close> loop visits the map; theorems quantify over all lists, hence over all orders.
  \<^item> Go times: nanoseconds since the zero \<open>time.Time\<close>, so that \<open>IsZero\<close> is \<open>t = 0\<close>.
  \<^item> The interfaces that components share: a codec with a round-trip law, a table with a capacity that
    evicts before it inserts, a machine whose steps keep an invariant, and one that drains.
\<close>

section \<open>Collections of facts\<close>

named_theorems size_defs \<open>numeric constants of the wire formats\<close>
named_theorems op_defs \<open>definitions of the operations of the current component\<close>

section \<open>Bytes\<close>

type_synonym byte = "8 word"
type_synonym bytes = "8 word list"

definition slice :: "nat \<Rightarrow> nat \<Rightarrow> 'a list \<Rightarrow> 'a list" where
  "slice i j xs = take (j - i) (drop i xs)"

definition zeros :: "nat \<Rightarrow> bytes" where
  "zeros n = replicate n 0"

definition bytes_of :: "string \<Rightarrow> bytes" where
  "bytes_of s = map of_char s"

lemma length_slice [simp]: "length (slice i j xs) = min (j - i) (length xs - i)"
  by (simp add: slice_def min.commute)

lemma length_zeros [simp]: "length (zeros n) = n"
  by (simp add: zeros_def)

lemma length_bytes_of [simp]: "length (bytes_of s) = length s"
  by (simp add: bytes_of_def)

lemma bytes_of_append [simp]: "bytes_of (s @ t) = bytes_of s @ bytes_of t"
  by (simp add: bytes_of_def)

lemma of_char_byte_eq_iff [simp]: "(of_char c :: byte) = of_char d \<longleftrightarrow> c = d"
proof
  have conv: "(of_char e :: byte) = of_nat (of_char e)" for e
    by (cases e) (simp add: of_char_def horner_sum_simps)
  assume "(of_char c :: byte) = of_char d"
  then have "unat (of_nat (of_char c) :: byte) = unat (of_nat (of_char d) :: byte)"
    by (simp only: conv)
  then have "(of_char c :: nat) mod 256 = of_char d mod 256"
    by (simp add: unat_of_nat)
  moreover have "(of_char c :: nat) < 256" and "(of_char d :: nat) < 256"
    by simp_all
  ultimately have "(of_char c :: nat) = of_char d"
    by simp
  then show "c = d"
    by simp
qed simp

lemma bytes_of_inject [simp]: "bytes_of s = bytes_of t \<longleftrightarrow> s = t"
  by (auto simp: bytes_of_def list_eq_iff_nth_eq)

lemma slice_append_left: "j \<le> length xs \<Longrightarrow> slice i j (xs @ ys) = slice i j xs"
  by (simp add: slice_def)

lemma slice_append_right:
  "length xs \<le> i \<Longrightarrow> slice i j (xs @ ys) = slice (i - length xs) (j - length xs) ys"
  by (simp add: slice_def)

lemma slice_full [simp]: "length xs \<le> j \<Longrightarrow> slice 0 j xs = xs"
  by (simp add: slice_def)

lemma slice_split: "i \<le> j \<Longrightarrow> j \<le> k \<Longrightarrow> slice i j xs @ slice j k xs = slice i k xs"
proof -
  assume "i \<le> j" "j \<le> k"
  then have "k - i = (j - i) + (k - j)" and "drop j xs = drop (j - i) (drop i xs)"
    by simp_all
  then show ?thesis
    by (simp only: slice_def take_add)
qed

lemma slice_drop: "drop i xs = slice i (length xs) xs"
  by (simp add: slice_def)

subsection \<open>Big-endian integers\<close>

fun be_put :: "nat \<Rightarrow> nat \<Rightarrow> bytes" where
  "be_put 0 n = []"
| "be_put (Suc k) n = be_put k (n div 256) @ [of_nat n]"

definition be_get :: "bytes \<Rightarrow> nat" where
  "be_get bs = foldl (\<lambda>a b. a * 256 + unat b) 0 bs"

lemma be_get_Nil [simp]: "be_get [] = 0"
  by (simp add: be_get_def)

lemma be_get_snoc [simp]: "be_get (bs @ [b]) = be_get bs * 256 + unat b"
  by (simp add: be_get_def)

lemma length_be_put [simp]: "length (be_put k n) = k"
  by (induction k arbitrary: n) auto

lemma byte_lt [simp]: "unat (b :: byte) < 256"
  using unsigned_less [of b] by simp

lemma be_get_lt: "be_get bs < 256 ^ length bs"
proof (induction bs rule: rev_induct)
  case Nil
  then show ?case by simp
next
  case (snoc b bs)
  have "be_get bs * 256 + unat b < (be_get bs + 1) * 256"
    using byte_lt [of b] by simp
  also have "\<dots> \<le> 256 ^ length bs * 256"
    using snoc by (intro mult_right_mono) auto
  finally show ?case by simp
qed

lemma be_get_be_put: "be_get (be_put k n) = n mod 256 ^ k"
proof (induction k arbitrary: n)
  case 0
  then show ?case by simp
next
  case (Suc k)
  have "be_get (be_put (Suc k) n) = n div 256 mod 256 ^ k * 256 + n mod 256"
    by (simp add: Suc unat_of_nat)
  also have "\<dots> = n mod 256 ^ Suc k"
    by (simp add: mod_mult2_eq ac_simps)
  finally show ?case .
qed

lemma of_nat_byte_carry: "(of_nat (n * 256 + unat b) :: byte) = b"
proof -
  have "unat (of_nat (n * 256 + unat b) :: byte) = unat b"
    by (simp only: unat_of_nat) simp
  then show ?thesis by (simp only: word_unat_eq_iff)
qed

lemma be_put_be_get: "be_put (length bs) (be_get bs) = bs"
proof (induction bs rule: rev_induct)
  case (snoc b bs)
  have "(be_get bs * 256 + unat b) div 256 = be_get bs" by simp
  with snoc show ?case by (simp only: length_append_singleton be_get_snoc be_put.simps of_nat_byte_carry)
qed simp

lemma be_get_eq_iff: "length xs = length ys \<Longrightarrow> be_get xs = be_get ys \<longleftrightarrow> xs = ys"
  by (metis be_put_be_get)

section \<open>Go maps\<close>

type_synonym ('k, 'v) gomap = "('k \<times> 'v) list"

abbreviation mkeys :: "('k, 'v) gomap \<Rightarrow> 'k set" where
  "mkeys m \<equiv> fst ` set m"

abbreviation mdistinct :: "('k, 'v) gomap \<Rightarrow> bool" where
  "mdistinct m \<equiv> distinct (map fst m)"

lemma map_of_in_mkeys: "map_of m k \<noteq> None \<longleftrightarrow> k \<in> mkeys m"
  by (simp add: map_of_eq_None_iff)

lemma length_update:
  "length (AList.update k v m) = (if k \<in> mkeys m then length m else Suc (length m))"
  by (induction m) auto

lemma length_update_le: "length (AList.update k v m) \<le> Suc (length m)"
  by (simp add: length_update)

lemma length_delete_member:
  assumes "mdistinct m" "k \<in> mkeys m"
  shows "Suc (length (AList.delete k m)) = length m"
  using assms
proof (induction m)
  case Nil
  then show ?case by simp
next
  case (Cons a m)
  show ?case
  proof (cases "k = fst a")
    case True
    with Cons.prems have "k \<notin> mkeys m" by auto
    then have "AList.delete k m = m"
      by (force simp: AList.delete_eq filter_id_conv)
    with True show ?thesis by simp
  next
    case False
    with Cons show ?thesis by auto
  qed
qed

lemma length_delete_le': "length (AList.delete k m) \<le> length m"
  by (induction m) auto

lemma set_update_subset: "set (AList.update k v m) \<subseteq> insert (k, v) (set m)"
  by (induction m) auto

lemma set_update_distinct:
  "mdistinct m \<Longrightarrow> set (AList.update k v m) = insert (k, v) {x \<in> set m. fst x \<noteq> k}"
proof (induction m)
  case Nil
  then show ?case by simp
next
  case (Cons a m)
  then show ?case by (cases a) (auto simp: image_iff)
qed

lemma set_delete_eq: "set (AList.delete k m) = {x \<in> set m. fst x \<noteq> k}"
  by (auto simp: AList.delete_eq)

lemma mdistinct_filter: "mdistinct m \<Longrightarrow> mdistinct (filter P m)"
  by (rule distinct_map_filter)

lemma mdistinct_unique:
  "mdistinct m \<Longrightarrow> (k, v) \<in> set m \<Longrightarrow> (k, w) \<in> set m \<Longrightarrow> v = w"
  by (metis map_of_is_SomeI option.inject)

section \<open>Times and durations\<close>

text \<open>
  A \<open>time.Time\<close> is its distance in nanoseconds from January 1, year 1 UTC, the zero time.
  \<open>Sub\<close> saturates at the range of \<open>time.Duration\<close> (64-bit), and \<open>Unix\<close> counts whole seconds from
  1970, rounding down.
\<close>

type_synonym gotime = int
type_synonym duration = int

definition second :: duration where
  "second = 1000000000"

definition time_sub :: "gotime \<Rightarrow> gotime \<Rightarrow> duration" where
  "time_sub t u = max (- (2 ^ 63)) (min (2 ^ 63 - 1) (t - u))"

definition unix :: "gotime \<Rightarrow> int" where
  "unix t = t div second - 62135596800"

lemma second_pos [simp]: "0 < second"
  by (simp add: second_def)

section \<open>Interfaces\<close>

text \<open>A codec: every well-formed value is recovered from its encoding.\<close>

locale codec =
  fixes wf :: "'a \<Rightarrow> bool"
    and enc :: "'a \<Rightarrow> 'b"
    and dec :: "'b \<Rightarrow> 'a option"
  assumes dec_enc: "wf x \<Longrightarrow> dec (enc x) = Some x"
begin

lemma enc_inject: "wf x \<Longrightarrow> wf y \<Longrightarrow> enc x = enc y \<Longrightarrow> x = y"
  by (metis dec_enc option.inject)

lemma inj_on_enc: "inj_on enc {x. wf x}"
  by (auto intro: inj_onI enc_inject)

lemma dec_surj: "wf x \<Longrightarrow> \<exists>b. dec b = Some x"
  using dec_enc by blast

end

text \<open>
  A codec that is also tight: what decodes is the encoding of what it decodes to, so no two byte
  strings stand for the same value.
\<close>

locale canonical_codec = codec wf enc dec
  for wf :: "'a \<Rightarrow> bool" and enc :: "'a \<Rightarrow> 'b" and dec :: "'b \<Rightarrow> 'a option" +
  assumes enc_dec: "dec b = Some x \<Longrightarrow> wf x \<and> enc x = b"
begin

lemma dec_iff: "dec b = Some x \<longleftrightarrow> wf x \<and> b = enc x"
  using dec_enc enc_dec by auto

lemma dec_inject: "dec b = Some x \<Longrightarrow> dec b' = Some x \<Longrightarrow> b = b'"
  using enc_dec by metis

end

text \<open>
  A table with a capacity. Before a new key is inserted into a full table, one entry is evicted;
  the table then never grows beyond its capacity and keeps its invariant.
\<close>

locale bounded_table =
  fixes invar :: "('k, 'v) gomap \<Rightarrow> bool"
    and evict :: "('k, 'v) gomap \<Rightarrow> ('k, 'v) gomap"
    and good :: "'v \<Rightarrow> bool"
    and cap :: nat
  assumes cap_pos: "0 < cap"
    and evict_length: "invar m \<Longrightarrow> m \<noteq> [] \<Longrightarrow> length (evict m) < length m"
    and evict_invar: "invar m \<Longrightarrow> invar (evict m)"
    and evict_subset: "set (evict m) \<subseteq> set m"
    and update_invar: "invar m \<Longrightarrow> good v \<Longrightarrow> invar (AList.update k v m)"
begin

lemma make_room_length:
  assumes "invar m" "length m \<le> cap" "k \<notin> mkeys m"
  shows "length (if cap \<le> length m then evict m else m) < cap"
proof (cases "cap \<le> length m")
  case True
  then have "m \<noteq> []" using cap_pos by auto
  then have "length (evict m) < length m" using assms(1) evict_length by blast
  with True assms(2) show ?thesis by simp
qed simp

lemma make_room_invar: "invar m \<Longrightarrow> invar (if b then evict m else m)"
  by (simp add: evict_invar)

lemma capped_insert_length:
  assumes "invar m" "length m \<le> cap"
  shows "length (AList.update k v (if k \<notin> mkeys m \<and> cap \<le> length m then evict m else m)) \<le> cap"
proof (cases "k \<in> mkeys m")
  case True
  with assms show ?thesis by (simp add: length_update)
next
  case False
  then have "length (if cap \<le> length m then evict m else m) < cap"
    by (rule make_room_length [OF assms])
  with False show ?thesis
    by (auto intro: order.trans [OF length_update_le])
qed

lemma capped_insert_invar:
  assumes "invar m" "good v"
  shows "invar (AList.update k v (if b then evict m else m))"
  using assms by (simp add: evict_invar update_invar)

end

text \<open>
  Runs of a machine, and the interface of an invariant: what holds at the start and is kept by every
  step holds after every run.
\<close>

inductive runs :: "('s \<Rightarrow> 'e \<Rightarrow> 's \<Rightarrow> bool) \<Rightarrow> 's \<Rightarrow> 'e list \<Rightarrow> 's \<Rightarrow> bool" for step where
  runs_nil: "runs step s [] s"
| runs_cons: "step s e t \<Longrightarrow> runs step t es u \<Longrightarrow> runs step s (e # es) u"

inductive_simps runs_Nil_iff [simp]: "runs step s [] t"
inductive_simps runs_Cons_iff: "runs step s (e # es) t"

lemma runs_append: "runs step s (es @ fs) u \<longleftrightarrow> (\<exists>t. runs step s es t \<and> runs step t fs u)"
  by (induction es arbitrary: s) (auto simp: runs_Cons_iff)

locale invariant_machine =
  fixes start :: "'s \<Rightarrow> bool"
    and step :: "'s \<Rightarrow> 'e \<Rightarrow> 's \<Rightarrow> bool"
    and inv :: "'s \<Rightarrow> bool"
  assumes inv_start: "start s \<Longrightarrow> inv s"
    and inv_step: "inv s \<Longrightarrow> step s e t \<Longrightarrow> inv t"
begin

lemma run_inv: "runs step s es t \<Longrightarrow> inv s \<Longrightarrow> inv t"
  by (induction rule: runs.induct) (auto intro: inv_step)

lemma run_start_inv: "runs step s es t \<Longrightarrow> start s \<Longrightarrow> inv t"
  by (blast intro: run_inv inv_start)

end

text \<open>
  A machine that drains: every step uses up weight and only final states are stuck. Its runs are short
  and every one can be continued to a final state.
\<close>

locale draining_machine = invariant_machine start step inv
  for start :: "'s \<Rightarrow> bool" and step :: "'s \<Rightarrow> 'e \<Rightarrow> 's \<Rightarrow> bool" and inv :: "'s \<Rightarrow> bool" +
  fixes weight :: "'s \<Rightarrow> nat"
    and final :: "'s \<Rightarrow> bool"
  assumes drains: "inv s \<Longrightarrow> step s e t \<Longrightarrow> weight t < weight s"
    and progress: "inv s \<Longrightarrow> \<not> final s \<Longrightarrow> \<exists>e t. step s e t"
begin

lemma run_short: "runs step s es t \<Longrightarrow> inv s \<Longrightarrow> length es + weight t \<le> weight s"
proof (induction rule: runs.induct)
  case (runs_cons s e t es u)
  have "weight t < weight s" using drains runs_cons.prems runs_cons.hyps(1) by blast
  moreover have "length es + weight u \<le> weight t"
    using runs_cons.IH inv_step runs_cons.prems runs_cons.hyps(1) by blast
  ultimately show ?case by simp
qed simp

lemma run_not_stuck: "runs step s es t \<Longrightarrow> inv s \<Longrightarrow> final t \<or> (\<exists>e u. step t e u)"
  using run_inv progress by blast

lemma run_to_final: "inv s \<Longrightarrow> \<exists>es t. runs step s es t \<and> final t"
proof (induction "weight s" arbitrary: s rule: less_induct)
  case less
  show ?case
  proof (cases "final s")
    case True
    then show ?thesis by (intro exI [of _ "[]"] exI [of _ s]) simp
  next
    case False
    then obtain e t where t: "step s e t" using progress less.prems by blast
    then obtain es u where "runs step t es u" "final u"
      using less.hyps [of t] drains inv_step less.prems by blast
    with t show ?thesis by (intro exI [of _ "e # es"] exI [of _ u]) (auto simp: runs_Cons_iff)
  qed
qed

end

end
