(* ===== verification/Wire.thy ===== *)
theory Wire
  imports Prelude
begin

text \<open>
  The wire format of the bootstrap protocol (\<open>src/internal/protocol/wire.go\<close>): frames, peer
  identifiers and blinded tags, the authorized set, signature checks and the canonical transcript.

  The cryptographic functions of Go's standard library are the fields of a record \<open>crypto\<close> that every
  definition takes. What the code relies on is \<open>crypto_ok\<close>: the output lengths the packages document.
\<close>

section \<open>Cryptographic primitives\<close>

record crypto =
  sha384 :: "bytes \<Rightarrow> bytes"
  sha512_256 :: "bytes \<Rightarrow> bytes"
  hmac384 :: "bytes \<Rightarrow> bytes \<Rightarrow> bytes"
  hkdf_extract :: "bytes \<Rightarrow> bytes \<Rightarrow> bytes option"
  hkdf_expand :: "bytes \<Rightarrow> bytes \<Rightarrow> nat \<Rightarrow> bytes option"
  mldsa_key_ok :: "bytes \<Rightarrow> bool"
  mldsa_verify :: "bytes \<Rightarrow> string \<Rightarrow> bytes \<Rightarrow> bytes \<Rightarrow> bool"
  mlkem_key_ok :: "bytes \<Rightarrow> bool"

definition crypto_ok :: "crypto \<Rightarrow> bool" where
  "crypto_ok C \<longleftrightarrow>
     (\<forall>m. length (sha384 C m) = 48) \<and>
     (\<forall>m. length (sha512_256 C m) = 32) \<and>
     (\<forall>k m. length (hmac384 C k m) = 48) \<and>
     (\<forall>k m n out. hkdf_expand C k m n = Some out \<longrightarrow> length out = n)"

lemma crypto_okD:
  assumes "crypto_ok C"
  shows "length (sha384 C m) = 48" "length (sha512_256 C m) = 32" "length (hmac384 C k m) = 48"
    "hkdf_expand C k m n = Some out \<Longrightarrow> length out = n"
  using assms by (auto simp: crypto_ok_def)

section \<open>Constants\<close>

definition EncapsulationKeySize1024 :: nat where [size_defs]: "EncapsulationKeySize1024 = 1568"
definition CiphertextSize1024 :: nat where [size_defs]: "CiphertextSize1024 = 1568"
definition MLDSA87PublicKeySize :: nat where [size_defs]: "MLDSA87PublicKeySize = 2592"
definition MLDSA87SignatureSize :: nat where [size_defs]: "MLDSA87SignatureSize = 4627"

definition Version :: byte where [size_defs]: "Version = 1"
definition MaxPacket :: nat where [size_defs]: "MaxPacket = 32768"
definition ClientHello :: byte where [size_defs]: "ClientHello = 1"
definition ServerHello :: byte where [size_defs]: "ServerHello = 2"
definition ClientFinish :: byte where [size_defs]: "ClientFinish = 3"
definition ServerAccepted :: byte where [size_defs]: "ServerAccepted = 4"
definition hashSize :: nat where [size_defs]: "hashSize = 48"
definition proofSize :: nat where [size_defs]: "proofSize = 48"

definition helloSize :: nat where
  [size_defs]: "helloSize = 32 * 6 + 8 + EncapsulationKeySize1024"

definition serverSize :: nat where
  [size_defs]: "serverSize = 32 * 4 + CiphertextSize1024 + MLDSA87SignatureSize + proofSize"

definition ClientContext :: string where "ClientContext = ''qcat-handshake-client-v1''"
definition ServerContext :: string where "ServerContext = ''qcat-handshake-server-v1''"
definition peerIDDomain :: string where "peerIDDomain = ''qcat-peer-v1''"
definition peerTagDomain :: string where "peerTagDomain = ''qcat-peer-tag-v1''"
definition transcriptDomain :: string where "transcriptDomain = ''qcat-transcript-v1''"

definition transcriptSize :: nat where
  [size_defs]: "transcriptSize = length transcriptDomain + 1 + 32 * 4 + CiphertextSize1024 + helloSize"

section \<open>Identifiers, tags and the authorized set\<close>

definition ID :: "crypto \<Rightarrow> bytes \<Rightarrow> bytes" where
  "ID C pub = sha512_256 C (bytes_of peerIDDomain @ pub)"

definition peerTag :: "crypto \<Rightarrow> bytes \<Rightarrow> bytes \<Rightarrow> bytes" where
  "peerTag C pid nonce = take 32 (hmac384 C nonce (bytes_of peerTagDomain @ pid))"

text \<open>An \<open>iter.Seq2[PeerID, []byte]\<close> is \<open>None\<close> when nil, else the pairs in the order it yields them.\<close>

type_synonym peer_seq = "(bytes \<times> bytes) list option"

fun lookup_list :: "(bytes \<times> bytes) list \<Rightarrow> bytes \<Rightarrow> bytes" where
  "lookup_list [] pid = []"
| "lookup_list ((candidate, pub) # ps) pid = (if candidate = pid then pub else lookup_list ps pid)"

definition Lookup :: "peer_seq \<Rightarrow> bytes \<Rightarrow> bytes" where
  "Lookup peers pid = (case peers of None \<Rightarrow> [] | Some ps \<Rightarrow> lookup_list ps pid)"

record keys =
  WG :: bytes
  Disco :: bytes

section \<open>Frames\<close>

definition join :: "bytes list \<Rightarrow> bytes" where
  "join parts = concat parts"

definition frame :: "byte \<Rightarrow> bytes \<Rightarrow> bytes" where
  "frame kind payload =
     bytes_of ''QCAT'' @ [Version, kind] @ be_put 2 (length payload) @ payload"

definition payload_size :: "byte \<Rightarrow> nat option" where
  "payload_size kind =
     (if kind = ClientHello then Some (helloSize + MLDSA87SignatureSize)
      else if kind = ServerHello then Some serverSize
      else if kind = ClientFinish \<or> kind = ServerAccepted then Some (hashSize + proofSize)
      else None)"

definition ValidFrame :: "bytes \<Rightarrow> bool" where
  "ValidFrame b =
     (if length b < 8 \<or> length b > MaxPacket \<or> take 4 b \<noteq> bytes_of ''QCAT'' \<or> b ! 4 \<noteq> Version \<or>
         be_get (slice 6 8 b) \<noteq> length b - 8
      then False
      else (case payload_size (b ! 5) of None \<Rightarrow> False | Some n \<Rightarrow> length b - 8 = n))"

definition Parse :: "bytes \<Rightarrow> (byte \<times> bytes) option" where
  "Parse b = (if \<not> ValidFrame b then None else Some (b ! 5, drop 8 b))"

definition verify :: "crypto \<Rightarrow> bytes \<Rightarrow> string \<Rightarrow> bytes \<Rightarrow> bytes \<Rightarrow> bool" where
  "verify C pub label msg sig =
     (if length pub \<noteq> MLDSA87PublicKeySize \<or> length sig \<noteq> MLDSA87SignatureSize then False
      else mldsa_key_ok C pub \<and> mldsa_verify C pub label msg sig)"

definition transcript ::
  "crypto \<Rightarrow> bytes \<Rightarrow> bytes \<Rightarrow> keys \<Rightarrow> bytes \<Rightarrow> bytes \<Rightarrow> bytes \<times> bytes" where
  "transcript C hello server ks nonce ct =
     (let b = join [bytes_of transcriptDomain, [Version], server, WG ks, Disco ks, nonce, ct, hello]
      in (b, sha384 C b))"

section \<open>Lemmas\<close>

lemma length_ID [simp]: "crypto_ok C \<Longrightarrow> length (ID C pub) = 32"
  by (simp add: ID_def crypto_okD)

lemma length_peerTag [simp]: "crypto_ok C \<Longrightarrow> length (peerTag C pid nonce) = 32"
  by (simp add: peerTag_def crypto_okD)

lemma length_join: "length (join parts) = sum_list (map length parts)"
  by (simp add: join_def length_concat)

lemma join_simps [simp]: "join [] = []" "join (x # xs) = x @ join xs"
  by (simp_all add: join_def)

lemma length_frame [simp]: "length (frame kind payload) = 8 + length payload"
  by (simp add: frame_def)

lemma frame_parts:
  "take 4 (frame k p) = bytes_of ''QCAT''" "frame k p ! 4 = Version" "frame k p ! 5 = k"
  "slice 6 8 (frame k p) = be_put 2 (length p)" "drop 8 (frame k p) = p"
proof -
  let ?m = "bytes_of ''QCAT''"
  have len: "length ?m = 4" by simp
  show "take 4 (frame k p) = ?m" by (simp add: frame_def)
  show "frame k p ! 4 = Version" "frame k p ! 5 = k"
    by (simp_all add: frame_def nth_append)
  show "slice 6 8 (frame k p) = be_put 2 (length p)"
    by (simp add: frame_def slice_def)
  show "drop 8 (frame k p) = p" by (simp add: frame_def)
qed

lemma payload_size_bound: "payload_size k = Some n \<Longrightarrow> n \<le> 6395 \<and> 0 < n"
  by (auto simp: payload_size_def size_defs split: if_splits)

lemma ValidFrame_frame: "ValidFrame (frame k p) \<longleftrightarrow> payload_size k = Some (length p)"
proof -
  have "payload_size k = Some (length p) \<Longrightarrow> length p < 65536 \<and> length p + 8 \<le> MaxPacket"
    using payload_size_bound by (fastforce simp: size_defs)
  then show ?thesis
    by (auto simp: ValidFrame_def frame_parts be_get_be_put split: option.splits)
qed

lemma ValidFrame_iff_frame:
  "ValidFrame b \<longleftrightarrow> (\<exists>k p. payload_size k = Some (length p) \<and> b = frame k p)"
proof
  assume v: "ValidFrame b"
  then have len: "8 \<le> length b" and magic: "take 4 b = bytes_of ''QCAT''" and ver: "b ! 4 = Version"
    and sz: "be_get (slice 6 8 b) = length b - 8"
    and ps: "payload_size (b ! 5) = Some (length (drop 8 b))"
    by (auto simp: ValidFrame_def split: if_splits option.splits)
  have "slice 6 8 b = be_put 2 (length (drop 8 b))"
    using be_put_be_get [of "slice 6 8 b"] len sz by simp
  moreover have "slice 4 6 b = [b ! 4, b ! 5]"
    using len by (auto simp: slice_def take_Suc_conv_app_nth numeral_2_eq_2)
  moreover have "b = slice 0 4 b @ slice 4 6 b @ slice 6 8 b @ drop 8 b"
  proof -
    have "slice 4 6 b @ slice 6 8 b = slice 4 8 b" and "slice 0 4 b @ slice 4 8 b = slice 0 8 b"
      by (rule slice_split; simp)+
    then show ?thesis
      by (metis append_assoc append_take_drop_id diff_zero drop0 slice_def)
  qed
  ultimately have "b = frame (b ! 5) (drop 8 b)"
    using magic ver by (simp add: frame_def slice_def)
  with ps show "\<exists>k p. payload_size k = Some (length p) \<and> b = frame k p" by blast
qed (auto simp: ValidFrame_frame)

interpretation frame_codec: canonical_codec
  "\<lambda>(k, p). payload_size k = Some (length p)" "\<lambda>(k, p). frame k p" Parse
proof
  fix x :: "byte \<times> bytes"
  assume "case x of (k, p) \<Rightarrow> payload_size k = Some (length p)"
  then show "Parse (case x of (k, p) \<Rightarrow> frame k p) = Some x"
    by (cases x) (simp add: Parse_def ValidFrame_frame frame_parts)
next
  fix b :: bytes and x :: "byte \<times> bytes"
  assume p: "Parse b = Some x"
  then have "ValidFrame b" and x: "x = (b ! 5, drop 8 b)"
    by (auto simp: Parse_def split: if_splits)
  then obtain k q where "payload_size k = Some (length q)" "b = frame k q"
    using ValidFrame_iff_frame by blast
  with x show "(case x of (k, p) \<Rightarrow> payload_size k = Some (length p)) \<and>
      (case x of (k, p) \<Rightarrow> frame k p) = b"
    by (simp add: frame_parts)
qed

lemma lookup_list_in: "lookup_list ps pid \<noteq> [] \<Longrightarrow> (pid, lookup_list ps pid) \<in> set ps"
  by (induction ps pid rule: lookup_list.induct) auto

lemma lookup_list_notin: "pid \<notin> fst ` set ps \<Longrightarrow> lookup_list ps pid = []"
  by (induction ps pid rule: lookup_list.induct) auto

lemma lookup_list_map_of:
  "lookup_list ps pid = (case map_of ps pid of None \<Rightarrow> [] | Some pub \<Rightarrow> pub)"
  by (induction ps pid rule: lookup_list.induct) auto

definition transcript_fields :: "bytes \<Rightarrow> bytes \<Rightarrow> keys \<Rightarrow> bytes \<Rightarrow> bytes \<Rightarrow> bool" where
  "transcript_fields hello server ks nonce ct \<longleftrightarrow>
     length hello = helloSize \<and> length server = 32 \<and> length (WG ks) = 32 \<and>
     length (Disco ks) = 32 \<and> length nonce = 32 \<and> length ct = CiphertextSize1024"

lemma fst_transcript:
  "fst (transcript C hello server ks nonce ct) =
     bytes_of transcriptDomain @ Version # server @ WG ks @ Disco ks @ nonce @ ct @ hello"
  by (simp add: transcript_def Let_def)

lemma snd_transcript:
  "snd (transcript C hello server ks nonce ct) = sha384 C (fst (transcript C hello server ks nonce ct))"
  by (simp add: transcript_def Let_def)

end
