(* ===== verification/Rate_Limit.thy ===== *)
theory Rate_Limit
  imports Prelude Complex_Main
begin

text \<open>
  The token buckets of the handshake server (\<open>bucket\<close>, \<open>allow\<close>, \<open>evictOldest\<close> of
  \<open>src/internal/protocol/handshake.go\<close>).

  Tokens are \<open>float64\<close> values. They are modelled as rationals, with the rounding of every arithmetic
  operation written out as a call of \<open>fl\<close>, a parameter that stands for IEEE 754 rounding. What the
  proofs use of it is \<open>ieee fl\<close>: rounding is monotone and exact on the integers a \<open>float64\<close> can hold.
\<close>

section \<open>Floating point\<close>

type_synonym rounding = "rat \<Rightarrow> rat"

definition ieee :: "rounding \<Rightarrow> bool" where
  "ieee fl \<longleftrightarrow> (\<forall>x y. x \<le> y \<longrightarrow> fl x \<le> fl y) \<and> (\<forall>n::int. \<bar>n\<bar> \<le> 2 ^ 53 \<longrightarrow> fl (of_int n) = of_int n)"

text \<open>\<open>time.Duration.Seconds\<close>: whole seconds plus the rounded fraction.\<close>

definition seconds :: "rounding \<Rightarrow> duration \<Rightarrow> rat" where
  "seconds fl d = fl (fl (of_int (d div second)) + fl (of_int (d mod second) / 1000000000))"

section \<open>Buckets\<close>

record bucket =
  start :: gotime
  tokens :: rat

definition zero_bucket :: bucket where
  "zero_bucket = \<lparr>start = 0, tokens = 0\<rparr>"

definition refill :: "rounding \<Rightarrow> bucket \<Rightarrow> gotime \<Rightarrow> nat \<Rightarrow> bucket" where
  "refill fl b now mx =
     (if start b = 0 then \<lparr>start = now, tokens = of_nat mx\<rparr>
      else if start b < now then
        b\<lparr>tokens := min (of_nat mx)
             (fl (tokens b + fl (seconds fl (time_sub now (start b)) * of_nat mx))),
          start := now\<rparr>
      else b)"

definition allow :: "rounding \<Rightarrow> bucket \<Rightarrow> gotime \<Rightarrow> nat \<Rightarrow> bucket \<times> bool" where
  "allow fl b now mx =
     (let b' = refill fl b now mx in
      if tokens b' < 1 then (b', False)
      else (b'\<lparr>tokens := fl (tokens b' - 1)\<rparr>, True))"

definition scan_oldest :: "('k \<times> gotime) \<Rightarrow> ('k \<times> bucket) \<Rightarrow> ('k \<times> gotime)" where
  "scan_oldest acc entry =
     (if snd acc = 0 \<or> start (snd entry) < snd acc then (fst entry, start (snd entry)) else acc)"

definition evictOldest :: "(bytes, bucket) gomap \<Rightarrow> (bytes, bucket) gomap" where
  "evictOldest table =
     (let (oldestKey, oldest) = foldl scan_oldest (zeros 32, 0) table in
      if oldest \<noteq> 0 then AList.delete oldestKey table else table)"

section \<open>Invariants\<close>

definition bucket_ok :: "nat \<Rightarrow> bucket \<Rightarrow> bool" where
  "bucket_ok mx b \<longleftrightarrow> start b \<noteq> 0 \<and> 0 \<le> tokens b \<and> tokens b \<le> of_nat mx"

definition rate_ok :: "nat \<Rightarrow> (bytes, bucket) gomap \<Rightarrow> bool" where
  "rate_ok mx table \<longleftrightarrow> mdistinct table \<and> (\<forall>e \<in> set table. bucket_ok mx (snd e))"

lemma ieeeD:
  assumes "ieee fl"
  shows "x \<le> y \<Longrightarrow> fl x \<le> fl y" "\<bar>n\<bar> \<le> 2 ^ 53 \<Longrightarrow> fl (of_int n) = of_int n"
    "fl 0 = 0" "fl 1 = 1" "m \<le> 2 ^ 53 \<Longrightarrow> fl (of_nat m) = of_nat m"
proof -
  from assms have int: "\<And>n::int. \<bar>n\<bar> \<le> 2 ^ 53 \<Longrightarrow> fl (of_int n) = of_int n"
    by (simp add: ieee_def)
  show "x \<le> y \<Longrightarrow> fl x \<le> fl y" using assms by (simp add: ieee_def)
  show "\<bar>n\<bar> \<le> 2 ^ 53 \<Longrightarrow> fl (of_int n) = of_int n" by (rule int)
  show "fl 0 = 0" using int [of 0] by simp
  show "fl 1 = 1" using int [of 1] by simp
  show "m \<le> 2 ^ 53 \<Longrightarrow> fl (of_nat m) = of_nat m" using int [of "int m"] by simp
qed

lemma seconds_nonneg: "ieee fl \<Longrightarrow> 0 \<le> d \<Longrightarrow> 0 \<le> seconds fl d"
proof -
  assume fl: "ieee fl" and d: "0 \<le> d"
  have "0 \<le> fl (of_int (d div second))" "0 \<le> fl (of_int (d mod second) / 1000000000)"
    using ieeeD(1) [OF fl, of 0] d by (simp_all add: ieeeD [OF fl] pos_imp_zdiv_nonneg_iff)
  then show ?thesis
    unfolding seconds_def using ieeeD(1) [OF fl, of 0] by (simp add: ieeeD [OF fl])
qed

lemma seconds_ge_one: "ieee fl \<Longrightarrow> second \<le> d \<Longrightarrow> 1 \<le> seconds fl d"
proof -
  assume fl: "ieee fl" and d: "second \<le> d"
  then have "1 \<le> d div second"
    using zdiv_mono1 [OF d second_pos] by (simp add: second_def)
  then have "1 \<le> fl (of_int (d div second))"
    using ieeeD(1) [OF fl, of 1 "of_int (d div second)"] by (simp add: ieeeD [OF fl])
  moreover have "0 \<le> fl (of_int (d mod second) / 1000000000)"
    using ieeeD(1) [OF fl, of 0] by (simp add: ieeeD [OF fl])
  ultimately have "1 \<le> fl (of_int (d div second)) + fl (of_int (d mod second) / 1000000000)"
    by simp
  then show ?thesis
    unfolding seconds_def using ieeeD(1) [OF fl, of 1] by (simp add: ieeeD(4) [OF fl])
qed

lemma refill_start: "start (refill fl b now mx) = (if start b = 0 \<or> start b < now then now else start b)"
  by (simp add: refill_def)

lemma refill_ok:
  assumes "ieee fl" "now \<noteq> 0" "start b \<noteq> 0 \<Longrightarrow> bucket_ok mx b"
  shows "bucket_ok mx (refill fl b now mx)"
proof -
  have "0 \<le> fl (tokens b + fl (seconds fl (time_sub now (start b)) * of_nat mx))"
    if "start b \<noteq> 0" "start b < now"
  proof -
    have "0 \<le> time_sub now (start b)" using that by (simp add: time_sub_def)
    then have "0 \<le> seconds fl (time_sub now (start b)) * of_nat mx"
      using seconds_nonneg [OF assms(1)] by simp
    then have "0 \<le> fl (seconds fl (time_sub now (start b)) * of_nat mx)"
      using ieeeD(1) [OF assms(1), of 0] by (simp add: ieeeD [OF assms(1)])
    then have "0 \<le> tokens b + fl (seconds fl (time_sub now (start b)) * of_nat mx)"
      using assms(3) that by (simp add: bucket_ok_def)
    then show ?thesis using ieeeD(1) [OF assms(1), of 0] by (simp add: ieeeD [OF assms(1)])
  qed
  then show ?thesis
    using assms(2,3) by (auto simp: refill_def bucket_ok_def)
qed

lemma allow_ok:
  assumes fl: "ieee fl" and "now \<noteq> 0" "start b \<noteq> 0 \<Longrightarrow> bucket_ok mx b" "mx \<le> 2 ^ 53"
  shows "bucket_ok mx (fst (allow fl b now mx))"
proof -
  let ?r = "refill fl b now mx"
  have r: "bucket_ok mx ?r" using assms(1-3) by (rule refill_ok)
  have "0 \<le> fl (tokens ?r - 1) \<and> fl (tokens ?r - 1) \<le> of_nat mx" if "1 \<le> tokens ?r"
  proof
    show "0 \<le> fl (tokens ?r - 1)"
      using that ieeeD(1) [OF fl, of 0 "tokens ?r - 1"] by (simp add: ieeeD [OF fl])
    show "fl (tokens ?r - 1) \<le> of_nat mx"
      using r ieeeD(1) [OF fl, of "tokens ?r - 1" "of_nat mx"]
      by (simp add: ieeeD(5) [OF fl assms(4)] bucket_ok_def)
  qed
  with r show ?thesis by (auto simp: allow_def Let_def bucket_ok_def)
qed

lemma allow_start: "start (fst (allow fl b now mx)) = start (refill fl b now mx)"
  by (simp add: allow_def Let_def)

text \<open>A bucket that has been idle for a second refills to the brim.\<close>

lemma refill_idle:
  assumes fl: "ieee fl" and ok: "bucket_ok mx b" and idle: "second \<le> time_sub now (start b)"
    and mx: "mx \<le> 2 ^ 53"
  shows "refill fl b now mx = \<lparr>start = now, tokens = of_nat mx\<rparr>"
proof -
  have lt: "start b < now"
    using idle second_pos by (auto simp: time_sub_def second_def)
  have "1 * of_nat mx \<le> seconds fl (time_sub now (start b)) * of_nat mx"
    using seconds_ge_one [OF fl idle] by (intro mult_right_mono) simp_all
  then have "of_nat mx \<le> fl (seconds fl (time_sub now (start b)) * of_nat mx)"
    using ieeeD(1) [OF fl, of "of_nat mx"] by (simp add: ieeeD(5) [OF fl mx])
  then have "of_nat mx \<le> tokens b + fl (seconds fl (time_sub now (start b)) * of_nat mx)"
    using ok by (simp add: bucket_ok_def)
  then have "of_nat mx \<le> fl (tokens b + fl (seconds fl (time_sub now (start b)) * of_nat mx))"
    using ieeeD(1) [OF fl, of "of_nat mx"] by (simp add: ieeeD(5) [OF fl mx])
  then show ?thesis
    using ok lt by (simp add: refill_def bucket_ok_def min_absorb1)
qed

section \<open>Eviction\<close>

lemma scan_oldest_result:
  assumes "t \<noteq> 0" "\<forall>e \<in> set es. start (snd e) \<noteq> 0"
  shows "\<exists>k' t'. foldl scan_oldest (k, t) es = (k', t') \<and> t' \<noteq> 0 \<and> t' \<le> t \<and>
           (\<forall>e \<in> set es. t' \<le> start (snd e)) \<and>
           ((k', t') = (k, t) \<or> (\<exists>b. (k', b) \<in> set es \<and> start b = t'))"
  using assms
proof (induction es arbitrary: k t)
  case Nil
  then show ?case by simp
next
  case (Cons e es)
  let ?acc = "scan_oldest (k, t) e"
  have acc: "snd ?acc \<noteq> 0" "snd ?acc \<le> t" "snd ?acc \<le> start (snd e)"
    "?acc = (k, t) \<or> ?acc = (fst e, start (snd e))"
    using Cons.prems by (auto simp: scan_oldest_def)
  obtain k0 t0 where kt0: "?acc = (k0, t0)" by (cases ?acc)
  obtain k' t' where IH: "foldl scan_oldest (k0, t0) es = (k', t')" "t' \<noteq> 0" "t' \<le> t0"
    "\<forall>e \<in> set es. t' \<le> start (snd e)"
    "(k', t') = (k0, t0) \<or> (\<exists>b. (k', b) \<in> set es \<and> start b = t')"
    using Cons.IH [of t0 k0] Cons.prems acc kt0 by auto
  have "\<exists>b. (k', b) \<in> set (e # es) \<and> start b = t'" if "(k', t') \<noteq> (k, t)"
    using IH(5) acc(4) kt0 that by (cases e) auto
  with IH acc kt0 show ?case by fastforce
qed

lemma scan_oldest_first: "scan_oldest (k, 0) e = (fst e, start (snd e))"
  by (simp add: scan_oldest_def)

lemma scan_oldest_table:
  assumes "rate_ok mx table" "table \<noteq> []"
  obtains k b where "foldl scan_oldest (k0, 0) table = (k, start b)" "(k, b) \<in> set table"
    "start b \<noteq> 0" "\<forall>e \<in> set table. start b \<le> start (snd e)"
proof -
  obtain e es where t: "table = e # es" using assms(2) by (cases table) auto
  have nz: "start (snd e) \<noteq> 0" "\<forall>e \<in> set es. start (snd e) \<noteq> 0"
    using assms(1) t by (auto simp: rate_ok_def bucket_ok_def)
  obtain k' t' where r: "foldl scan_oldest (fst e, start (snd e)) es = (k', t')" "t' \<noteq> 0"
    "t' \<le> start (snd e)" "\<forall>e \<in> set es. t' \<le> start (snd e)"
    "(k', t') = (fst e, start (snd e)) \<or> (\<exists>b. (k', b) \<in> set es \<and> start b = t')"
    using scan_oldest_result [OF nz] by blast
  then obtain b where "(k', b) \<in> set table" "start b = t'"
    using t by (cases e) auto
  moreover have "foldl scan_oldest (k0, 0) table = (k', t')"
    using r(1) t by (simp add: scan_oldest_first)
  ultimately show thesis using r(2-4) t by (intro that [of k' b]) auto
qed

lemma evictOldest_delete:
  assumes "rate_ok mx table" "table \<noteq> []"
  obtains k b where "(k, b) \<in> set table" "\<forall>e \<in> set table. start b \<le> start (snd e)"
    "evictOldest table = AList.delete k table"
proof -
  obtain k b where "foldl scan_oldest (zeros 32, 0) table = (k, start b)" "(k, b) \<in> set table"
    "start b \<noteq> 0" "\<forall>e \<in> set table. start b \<le> start (snd e)"
    using scan_oldest_table [OF assms] by blast
  then show thesis by (intro that [of k b]) (simp_all add: evictOldest_def)
qed

lemma evictOldest_Nil [simp]: "evictOldest [] = []"
  by (simp add: evictOldest_def)

lemma set_evictOldest: "set (evictOldest table) \<subseteq> set table"
  by (auto simp: evictOldest_def set_delete_eq split: prod.splits)

lemma evictOldest_ok: "rate_ok mx table \<Longrightarrow> rate_ok mx (evictOldest table)"
  by (auto simp: rate_ok_def evictOldest_def set_delete_eq AList.distinct_delete split: prod.splits)

lemma update_ok: "rate_ok mx table \<Longrightarrow> bucket_ok mx b \<Longrightarrow> rate_ok mx (AList.update k b table)"
  using set_update_subset [of k b table] by (auto simp: rate_ok_def AList.distinct_update)

interpretation rate_table: bounded_table "rate_ok 4" evictOldest "bucket_ok 4" 4096
proof
  fix m :: "(bytes, bucket) gomap"
  assume m: "rate_ok 4 m" "m \<noteq> []"
  then obtain k b where "(k, b) \<in> set m" "evictOldest m = AList.delete k m"
    by (rule evictOldest_delete)
  with m show "length (evictOldest m) < length m"
    using length_delete_member [of m k] by (force simp: rate_ok_def)
qed (auto simp: evictOldest_ok set_evictOldest update_ok)

lemma rate_ok_filter: "rate_ok mx table \<Longrightarrow> rate_ok mx (filter P table)"
  by (auto simp: rate_ok_def mdistinct_filter)

section \<open>A concrete rounding\<close>

text \<open>Rounding to multiples of \<open>2^-40\<close> meets the hypotheses; examples of the development use it.\<close>

definition fixed_point :: rounding where
  "fixed_point x = of_int (floor (x * 2 ^ 40 + 1 / 2)) / 2 ^ 40"

lemma ieee_fixed_point: "ieee fixed_point"
  unfolding ieee_def
proof (intro conjI allI impI)
  fix x y :: rat
  assume "x \<le> y"
  then have "floor (x * 2 ^ 40 + 1 / 2) \<le> floor (y * 2 ^ 40 + 1 / 2)"
    by (intro floor_mono) simp
  then show "fixed_point x \<le> fixed_point y"
    by (simp add: fixed_point_def divide_right_mono)
next
  fix n :: int
  have "(of_int n :: rat) * 2 ^ 40 + 1 / 2 = of_int (n * 2 ^ 40) + 1 / 2" by simp
  then have "floor ((of_int n :: rat) * 2 ^ 40 + 1 / 2) = n * 2 ^ 40"
    by (simp only: floor_eq_iff) simp
  then show "fixed_point (of_int n) = of_int n"
    by (simp add: fixed_point_def)
qed

section \<open>Properties\<close>

text \<open>
  Discarding a rate-limit entry that has been idle for a second never changes a decision: the
  bucket would have been full again, so the answer and the bucket left behind are those of an
  absent entry.
\<close>

lemma idle_bucket_is_fresh:
  assumes "ieee fl" "bucket_ok mx b" "mx \<le> 2 ^ 53" "second \<le> time_sub now (start b)"
  shows "allow fl b now mx = allow fl zero_bucket now mx"
proof -
  have "refill fl b now mx = refill fl zero_bucket now mx"
    using refill_idle [OF assms(1,2,4,3)] by (simp add: refill_def zero_bucket_def)
  then show ?thesis by (simp add: allow_def)
qed

lemma idle_bucket_is_fresh_witness:
  "allow fixed_point \<lparr>start = 5, tokens = 1 / 3\<rparr> 3000000005 4 = allow fixed_point zero_bucket 3000000005 4"
  by (rule idle_bucket_is_fresh)
    (simp_all add: ieee_fixed_point bucket_ok_def second_def time_sub_def)

text \<open>The decisions of \<open>n\<close> calls at one instant.\<close>

fun burst :: "rounding \<Rightarrow> bucket \<Rightarrow> gotime \<Rightarrow> nat \<Rightarrow> nat \<Rightarrow> bool list" where
  "burst fl b now mx 0 = []"
| "burst fl b now mx (Suc n) = snd (allow fl b now mx) # burst fl (fst (allow fl b now mx)) now mx n"

lemma allow_same_instant:
  assumes "ieee fl" "now \<noteq> 0" "k \<le> 2 ^ 53"
  shows "allow fl \<lparr>start = now, tokens = of_nat k\<rparr> now mx =
    (if k = 0 then (\<lparr>start = now, tokens = 0\<rparr>, False)
     else (\<lparr>start = now, tokens = of_nat (k - 1)\<rparr>, True))"
proof (cases k)
  case (Suc j)
  have "(of_nat k :: rat) - 1 = of_nat j" by (simp add: Suc)
  moreover have "fl (of_nat j) = of_nat j" using assms Suc by (intro ieeeD(5)) simp_all
  ultimately show ?thesis using assms(2) Suc by (simp add: allow_def refill_def)
qed (simp add: allow_def refill_def assms(2))

lemma burst_same_instant:
  assumes "ieee fl" "now \<noteq> 0" "k \<le> 2 ^ 53"
  shows "burst fl \<lparr>start = now, tokens = of_nat k\<rparr> now mx n =
    replicate (min k n) True @ replicate (n - k) False"
  using assms(3)
proof (induction n arbitrary: k)
  case (Suc n)
  show ?case
  proof (cases k)
    case 0
    with Suc.IH [of 0] Suc.prems show ?thesis
      using allow_same_instant [OF assms(1,2), of 0 mx] by simp
  next
    case (Suc j)
    with Suc.IH [of j] Suc.prems show ?thesis
      using allow_same_instant [OF assms(1,2), of k mx] by simp
  qed
qed simp

text \<open>
  A burst of hellos at one instant: of any number of calls on a fresh bucket, exactly the first
  \<open>mx\<close> are allowed (4 per source and per identity, 64 in all).
\<close>

lemma burst_exact:
  assumes "ieee fl" "now \<noteq> 0" "mx \<le> 2 ^ 53"
  shows "burst fl zero_bucket now mx n = replicate (min mx n) True @ replicate (n - mx) False"
proof (cases n)
  case (Suc m)
  have "allow fl zero_bucket now mx = allow fl \<lparr>start = now, tokens = of_nat mx\<rparr> now mx"
    using assms(2) by (simp add: allow_def refill_def zero_bucket_def)
  then have "burst fl zero_bucket now mx n = burst fl \<lparr>start = now, tokens = of_nat mx\<rparr> now mx n"
    by (simp add: Suc)
  with burst_same_instant [OF assms] show ?thesis by simp
qed simp

lemma burst_exact_witness:
  "burst fixed_point zero_bucket 7 4 6 = [True, True, True, True, False, False]"
proof -
  have "burst fixed_point zero_bucket 7 4 6 = replicate (min 4 6) True @ replicate (6 - 4) False"
    by (rule burst_exact) (simp_all add: ieee_fixed_point)
  also have "\<dots> = [True, True, True, True, False, False]"
    by (simp add: eval_nat_numeral)
  finally show ?thesis .
qed

text \<open>
  Eviction removes exactly one entry, and none of those that stay is older than it.
\<close>

lemma evicts_one_oldest:
  assumes "rate_ok mx table" "table \<noteq> []"
  shows "\<exists>k b. (k, b) \<in> set table \<and> (\<forall>e \<in> set table. start b \<le> start (snd e)) \<and>
    set (evictOldest table) = set table - {(k, b)} \<and> length (evictOldest table) = length table - 1"
proof -
  obtain k b where kb: "(k, b) \<in> set table" "\<forall>e \<in> set table. start b \<le> start (snd e)"
    "evictOldest table = AList.delete k table"
    using assms by (rule evictOldest_delete)
  have d: "mdistinct table" using assms(1) by (simp add: rate_ok_def)
  have "set (evictOldest table) = set table - {(k, b)}"
    using kb(1,3) mdistinct_unique [OF d] by (auto simp: set_delete_eq)
  moreover have "length (evictOldest table) = length table - 1"
    using length_delete_member [OF d, of k] kb(1,3) by force
  ultimately show ?thesis using kb by blast
qed

lemma evicts_one_oldest_witness:
  "\<exists>k b. (k, b) \<in> set [([1], \<lparr>start = 9, tokens = 1\<rparr>), ([2], \<lparr>start = 4, tokens = 0\<rparr>)] \<and>
    set (evictOldest [([1], \<lparr>start = 9, tokens = 1\<rparr>), ([2], \<lparr>start = 4, tokens = 0\<rparr>)]) =
    set [([1], \<lparr>start = 9, tokens = 1\<rparr>), ([2], \<lparr>start = 4, tokens = 0\<rparr>)] - {(k, b)}"
proof -
  have "rate_ok 4 [([1], \<lparr>start = 9, tokens = 1\<rparr>), ([2], \<lparr>start = 4, tokens = 0\<rparr>)]"
    by (simp add: rate_ok_def bucket_ok_def)
  from evicts_one_oldest [OF this] show ?thesis by blast
qed

end
