(* ===== verification/Handshake.thy ===== *)
theory Handshake
  imports Wire Rate_Limit
begin

text \<open>
  The authenticated bootstrap (\<open>src/internal/protocol/handshake.go\<close>): the key schedule, the client's
  three calls and the server's four operations on its state.

  The server is a record with the fields of the Go struct. Two fields make Go's pointers and closures
  explicit: every \<open>*pending\<close> carries the number \<open>p_ref\<close> it was allocated under, and \<open>once_done\<close> lists
  the allocations whose \<open>Installed\<close> callback has run (the \<open>sync.Once\<close> it captures). What a call draws
  from outside (the encapsulation, the server nonce, the identity's signature) is a record \<open>draws\<close>.
  A nil map is the empty list, a nil reply is \<open>[]\<close>.
\<close>

section \<open>Key schedule\<close>

definition derive :: "crypto \<Rightarrow> bytes \<Rightarrow> bytes \<Rightarrow> (bytes \<times> bytes) option" where
  "derive C ss hash =
     (case hkdf_extract C ss (bytes_of ''qcat-handshake-extract-v1'') of None \<Rightarrow> None
      | Some prk \<Rightarrow>
        (case hkdf_expand C prk (bytes_of ''qcat-wireguard-psk-v3'' @ hash) 32 of None \<Rightarrow> None
         | Some p \<Rightarrow>
           (case hkdf_expand C prk (bytes_of ''qcat-handshake-confirm-v3'' @ hash) 32 of None \<Rightarrow> None
            | Some c \<Rightarrow> Some (p, c))))"

definition proof_mac :: "crypto \<Rightarrow> bytes \<Rightarrow> string \<Rightarrow> bytes \<Rightarrow> bytes" where
  "proof_mac C k label hash = hmac384 C k (bytes_of label @ hash)"

section \<open>Client\<close>

datatype herror = ErrRejected | ErrProvider

record identity =
  id_public :: "bytes option"
  id_sign :: "string \<Rightarrow> bytes \<Rightarrow> bytes option"

record kem =
  kem_public :: "bytes option"
  kem_secret :: "bytes \<Rightarrow> bytes option"
  kem_destroyed :: bool

definition Decapsulate :: "kem \<Rightarrow> bytes \<Rightarrow> bytes option" where
  "Decapsulate k ct = (if kem_destroyed k then None else kem_secret k ct)"

definition Destroy :: "kem \<Rightarrow> kem" where
  "Destroy k = k\<lparr>kem_destroyed := True\<rparr>"

record client =
  c_kem :: kem
  c_hello :: bytes
  c_server :: bytes
  c_serverPublic :: bytes
  c_keys :: keys
  c_ack :: bytes

text \<open>
  \<open>NewClient\<close> returns the KEM it created (if any) as it leaves it, beside its result: the caller never
  sees that object on the error paths, and \<open>fail\<close> must have destroyed it.
\<close>

definition NewClient ::
  "crypto \<Rightarrow> identity \<Rightarrow> kem option \<Rightarrow> bytes \<Rightarrow> keys \<Rightarrow> keys \<Rightarrow> gotime \<Rightarrow> bytes option
   \<Rightarrow> kem option \<times> (herror + client \<times> bytes)" where
  "NewClient C ident newKEM serverPublic local remote now random =
     (if length serverPublic \<noteq> MLDSA87PublicKeySize then (None, Inl ErrRejected)
      else case id_public ident of None \<Rightarrow> (None, Inl ErrProvider)
      | Some pub \<Rightarrow> (case newKEM of None \<Rightarrow> (None, Inl ErrProvider)
        | Some k \<Rightarrow>
          (let fail = (\<lambda>e. (Some (Destroy k), Inl e)) in
           case kem_public k of None \<Rightarrow> fail ErrProvider
           | Some kp \<Rightarrow>
             if length kp \<noteq> EncapsulationKeySize1024 then fail ErrRejected
             else case random of None \<Rightarrow> fail ErrProvider
             | Some nonce \<Rightarrow>
               (let sid = ID C serverPublic;
                    stamp = be_put 8 (nat (unix now mod 2 ^ 64));
                    tag = peerTag C (ID C pub) nonce;
                    hello = join [tag, WG local, Disco local, nonce, sid, zeros 32, stamp, kp] in
                case id_sign ident ClientContext (frame ClientHello hello) of
                  None \<Rightarrow> fail ErrProvider
                | Some sig \<Rightarrow>
                  (Some k,
                   Inr (\<lparr>c_kem = k, c_hello = hello, c_server = sid, c_serverPublic = serverPublic,
                         c_keys = remote, c_ack = []\<rparr>,
                        frame ClientHello (join [hello, sig])))))))"

definition Complete :: "crypto \<Rightarrow> client \<Rightarrow> bytes \<Rightarrow> client \<times> (herror + bytes \<times> bytes)" where
  "Complete C c packet =
     (case Parse packet of None \<Rightarrow> (c, Inl ErrRejected)
      | Some (kind, b) \<Rightarrow>
        if kind \<noteq> ServerHello then (c, Inl ErrRejected)
        else if take 32 b \<noteq> c_server c \<or> slice 32 64 b \<noteq> WG (c_keys c) \<or> slice 64 96 b \<noteq> Disco (c_keys c)
        then (c, Inl ErrRejected)
        else
          (let ct = slice 128 (128 + CiphertextSize1024) b;
               (tb, hash) = transcript C (c_hello c) (c_server c) (c_keys c) (slice 96 128 b) ct;
               sigEnd = length b - proofSize in
           if \<not> verify C (c_serverPublic c) ServerContext tb (slice (128 + CiphertextSize1024) sigEnd b)
           then (c, Inl ErrRejected)
           else case Decapsulate (c_kem c) ct of None \<Rightarrow> (c, Inl ErrProvider)
           | Some ss \<Rightarrow> (case derive C ss hash of None \<Rightarrow> (c, Inl ErrProvider)
             | Some (psk, hk) \<Rightarrow>
               if proof_mac C hk ''server-finished'' hash \<noteq> drop sigEnd b then (c, Inl ErrRejected)
               else (c\<lparr>c_kem := Destroy (c_kem c),
                       c_ack := frame ServerAccepted
                                  (join [hash, proof_mac C hk ''server-accepted'' hash])\<rparr>,
                     Inr (psk, frame ClientFinish
                                 (join [hash, proof_mac C hk ''client-finished'' hash]))))))"

definition Accepted :: "client \<Rightarrow> bytes \<Rightarrow> bool" where
  "Accepted c packet \<longleftrightarrow> 0 < length (c_ack c) \<and> c_ack c = packet"

definition client_Close :: "client \<Rightarrow> client" where
  "client_Close c = c\<lparr>c_kem := Destroy (c_kem c)\<rparr>"

section \<open>Server state\<close>

record session =
  Peer :: bytes
  Keys :: keys
  PSK :: bytes
  Installed :: "(bytes \<times> nat) option"

record pending =
  p_ref :: nat
  p_session :: session
  p_hash :: bytes
  p_hk :: bytes
  p_source :: bytes
  p_expires :: gotime
  p_accepted :: bool
  p_installing :: bool
  p_helloHash :: bytes
  p_response :: bytes

record server =
  Public :: bytes
  ServerKeys :: keys
  Authorized :: peer_seq
  pendings :: "(bytes, pending) gomap"
  replay :: "(bytes, gotime) gomap"
  limits :: "(bytes, bucket) gomap"
  peerLimits :: "(bytes, bucket) gomap"
  global_bucket :: bucket
  next_ref :: nat
  once_done :: "nat list"

record draws =
  o_encap :: "bytes \<Rightarrow> bytes \<times> bytes"
  o_nonce :: "bytes option"
  o_sign :: "string \<Rightarrow> bytes \<Rightarrow> bytes option"

definition new_server :: "bytes \<Rightarrow> keys \<Rightarrow> peer_seq \<Rightarrow> server" where
  "new_server pub ks auth =
     \<lparr>Public = pub, ServerKeys = ks, Authorized = auth, pendings = [], replay = [], limits = [],
      peerLimits = [], global_bucket = zero_bucket, next_ref = 0, once_done = []\<rparr>"

section \<open>Server operations\<close>

definition Expire :: "gotime \<Rightarrow> server \<Rightarrow> server" where
  "Expire now s =
     s\<lparr>pendings := filter (\<lambda>(h, p). now < p_expires p) (pendings s),
       replay := filter (\<lambda>(h, t). now < t) (replay s),
       limits := filter (\<lambda>(h, t). \<not> time_sub now (start t) > second) (limits s),
       peerLimits := filter (\<lambda>(h, t). \<not> time_sub now (start t) > second) (peerLimits s)\<rparr>"

definition Close :: "server \<Rightarrow> server" where
  "Close s = s\<lparr>pendings := [], replay := [], limits := [], peerLimits := []\<rparr>"

fun resolve_list :: "crypto \<Rightarrow> (bytes \<times> bytes) list \<Rightarrow> bytes \<Rightarrow> bytes \<Rightarrow> bytes \<times> bytes" where
  "resolve_list C [] tag nonce = (zeros 32, [])"
| "resolve_list C ((pid, pub) # ps) tag nonce =
     (if peerTag C pid nonce = tag then (pid, pub) else resolve_list C ps tag nonce)"

definition resolve :: "crypto \<Rightarrow> peer_seq \<Rightarrow> bytes \<Rightarrow> bytes \<Rightarrow> bytes \<times> bytes" where
  "resolve C auth tag nonce =
     (case auth of None \<Rightarrow> (zeros 32, []) | Some ps \<Rightarrow> resolve_list C ps tag nonce)"

text \<open>The \<open>Installed\<close> callback of a session: the closure is the pair it captures.\<close>

definition installed :: "server \<Rightarrow> bytes \<times> nat \<Rightarrow> bool \<Rightarrow> server" where
  "installed s cl ok =
     (let (h, ref) = cl in
      if ref \<in> set (once_done s) then s
      else
        (let s1 = s\<lparr>once_done := ref # once_done s\<rparr> in
         case map_of (pendings s1) h of None \<Rightarrow> s1
         | Some p \<Rightarrow>
           if p_ref p \<noteq> ref then s1
           else if ok then
             s1\<lparr>pendings := AList.update h
                   (p\<lparr>p_session := (p_session p)\<lparr>PSK := zeros 32\<rparr>, p_accepted := True\<rparr>) (pendings s1)\<rparr>
           else s1\<lparr>pendings := AList.delete h (pendings s1)\<rparr>))"

type_synonym reply = "server \<times> bytes \<times> session option"

definition rival :: "pending \<Rightarrow> bytes \<Rightarrow> bytes \<times> pending \<Rightarrow> bool" where
  "rival p source e \<longleftrightarrow> p_ref (snd e) \<noteq> p_ref p \<and> p_source (snd e) = source"

definition handle_finish :: "crypto \<Rightarrow> bytes \<Rightarrow> bytes \<Rightarrow> server \<Rightarrow> reply" where
  "handle_finish C source b s =
     (let h = take hashSize b in
      case map_of (pendings s) h of None \<Rightarrow> (s, [], None)
      | Some p \<Rightarrow>
        if p_source p \<noteq> source \<or> length (Lookup (Authorized s) (Peer (p_session p))) = 0 \<or>
           proof_mac C (p_hk p) ''client-finished'' h \<noteq> drop hashSize b
        then (s, [], None)
        else
          (let ack = frame ServerAccepted (join [h, proof_mac C (p_hk p) ''server-accepted'' h]) in
           if p_accepted p then (s, ack, None)
           else if p_installing p then (s, [], None)
           else if list_ex (\<lambda>e. rival p source e \<and> p_installing (snd e) \<and> \<not> p_accepted (snd e)) (pendings s)
           then (s, [], None)
           else
             (s\<lparr>pendings := AList.update h (p\<lparr>p_installing := True\<rparr>)
                              (filter (\<lambda>e. \<not> rival p source e) (pendings s))\<rparr>,
              ack,
              Some ((p_session p)\<lparr>Installed := Some (h, p_ref p)\<rparr>))))"

definition hello_header_ok :: "crypto \<Rightarrow> server \<Rightarrow> bytes \<Rightarrow> bytes \<Rightarrow> bool" where
  "hello_header_ok C s source b \<longleftrightarrow>
     source = slice 32 64 b \<and> slice 64 96 b \<noteq> zeros 32 \<and>
     slice 128 160 b = ID C (Public s) \<and> slice 160 192 b = zeros 32"

definition hello_stamp :: "bytes \<Rightarrow> int" where
  "hello_stamp b = sint (of_nat (be_get (slice 192 200 b)) :: 64 word)"

definition hello_fresh :: "gotime \<Rightarrow> bytes \<Rightarrow> bool" where
  "hello_fresh now b \<longleftrightarrow> \<not> (hello_stamp b < unix now - 120 \<or> hello_stamp b > unix now + 120)"

definition charge ::
  "rounding \<Rightarrow> gotime \<Rightarrow> bytes \<Rightarrow> (bytes, bucket) gomap \<Rightarrow> (bytes, bucket) gomap \<times> bool" where
  "charge fl now key table =
     (let room = (if key \<notin> mkeys table \<and> 4096 \<le> length table then evictOldest table else table);
          (b, ok) = allow fl (case map_of room key of None \<Rightarrow> zero_bucket | Some b \<Rightarrow> b) now 4 in
      (AList.update key b room, ok))"

fun cached_response :: "(bytes, pending) gomap \<Rightarrow> bytes \<Rightarrow> bytes \<Rightarrow> bytes" where
  "cached_response [] source digest = []"
| "cached_response ((h, p) # ps) source digest =
     (if p_source p = source \<and> p_helloHash p = digest then p_response p
      else cached_response ps source digest)"

definition server_hello :: "crypto \<Rightarrow> server \<Rightarrow> bytes \<Rightarrow> bytes \<Rightarrow> bytes \<Rightarrow> bytes \<Rightarrow> bytes \<Rightarrow> bytes" where
  "server_hello C s nonce ct sig hk hash =
     frame ServerHello
       (join [ID C (Public s), WG (ServerKeys s), Disco (ServerKeys s), nonce, ct, sig,
              proof_mac C hk ''server-finished'' hash])"

definition new_pending ::
  "crypto \<Rightarrow> nat \<Rightarrow> bytes \<Rightarrow> bytes \<Rightarrow> bytes \<Rightarrow> bytes \<Rightarrow> gotime \<Rightarrow> bytes \<Rightarrow> bytes \<Rightarrow> bytes \<Rightarrow> bytes \<Rightarrow> pending"
where
  "new_pending C ref pid source packet b now hash psk hk response =
     \<lparr>p_ref = ref,
      p_session = \<lparr>Peer = pid, Keys = \<lparr>WG = slice 32 64 b, Disco = slice 64 96 b\<rparr>, PSK = psk,
                   Installed = None\<rparr>,
      p_hash = hash, p_hk = hk, p_source = source, p_expires = now + 30 * second,
      p_accepted = False, p_installing = False,
      p_helloHash = sha384 C packet, p_response = response\<rparr>"

definition hello_respond ::
  "crypto \<Rightarrow> draws \<Rightarrow> bytes \<Rightarrow> bytes \<Rightarrow> bytes \<Rightarrow> bytes \<Rightarrow> gotime \<Rightarrow> bytes \<Rightarrow> server \<Rightarrow> reply" where
  "hello_respond C oc pid source packet b now rkey s =
     (let hello = take helloSize b; (ss, ct) = o_encap oc (drop 200 hello) in
      case o_nonce oc of None \<Rightarrow> (s, [], None)
      | Some nonce \<Rightarrow>
        (let (tb, hash) = transcript C hello (ID C (Public s)) (ServerKeys s) nonce ct in
         case derive C ss hash of None \<Rightarrow> (s, [], None)
         | Some (psk, hk) \<Rightarrow> (case o_sign oc ServerContext tb of None \<Rightarrow> (s, [], None)
           | Some sig \<Rightarrow>
             (let response = server_hello C s nonce ct sig hk hash;
                  entry = new_pending C (next_ref s) pid source packet b now hash psk hk response in
              (s\<lparr>pendings := AList.update hash entry (pendings s),
                 replay := AList.update rkey (now + 300 * second) (replay s),
                 next_ref := Suc (next_ref s)\<rparr>,
               response, None)))))"

definition owned :: "bytes \<Rightarrow> server \<Rightarrow> nat" where
  "owned pid s = length (filter (\<lambda>(h, p). Peer (p_session p) = pid) (pendings s))"

definition hello_admit ::
  "crypto \<Rightarrow> rounding \<Rightarrow> draws \<Rightarrow> bytes \<Rightarrow> bytes \<Rightarrow> bytes \<Rightarrow> bytes \<Rightarrow> bytes \<Rightarrow> gotime \<Rightarrow> bytes \<Rightarrow> server
   \<Rightarrow> reply" where
  "hello_admit C fl oc pid pub source packet b now rkey s =
     (if 64 * 301 \<le> length (replay s) \<or> 256 \<le> length (pendings s) then (s, [], None)
      else
        (let hello = take helloSize b in
         if \<not> verify C pub ClientContext (frame ClientHello hello) (drop helloSize b) then (s, [], None)
         else
           (let (pl, ok) = charge fl now pid (peerLimits s); s1 = s\<lparr>peerLimits := pl\<rparr> in
            if \<not> ok then (s1, [], None)
            else if 8 \<le> owned pid s1 then (s1, [], None)
            else if \<not> mlkem_key_ok C (drop 200 hello) then (s1, [], None)
            else hello_respond C oc pid source packet b now rkey s1)))"

definition handle_hello ::
  "crypto \<Rightarrow> rounding \<Rightarrow> draws \<Rightarrow> bytes \<Rightarrow> bytes \<Rightarrow> bytes \<Rightarrow> gotime \<Rightarrow> server \<Rightarrow> reply" where
  "handle_hello C fl oc source packet b now s =
     (if \<not> hello_header_ok C s source b then (s, [], None)
      else if \<not> hello_fresh now b then (s, [], None)
      else
        (let (lim, ok) = charge fl now source (limits s); s1 = s\<lparr>limits := lim\<rparr> in
         if \<not> ok then (s1, [], None)
         else
           (let (pid, pub) = resolve C (Authorized s1) (take 32 b) (slice 96 128 b) in
            if length pub = 0 \<or> ID C pub \<noteq> pid then (s1, [], None)
            else
              (let (g, ok) = allow fl (global_bucket s1) now 64; s2 = s1\<lparr>global_bucket := g\<rparr> in
               if \<not> ok then (s2, [], None)
               else
                 (let rkey = sha384 C (join [pid, slice 96 128 b]) in
                  if rkey \<in> mkeys (replay s2)
                  then (s2, cached_response (pendings s2) source (sha384 C packet), None)
                  else hello_admit C fl oc pid pub source packet b now rkey s2)))))"

definition Handle ::
  "crypto \<Rightarrow> rounding \<Rightarrow> draws \<Rightarrow> bytes \<Rightarrow> bytes \<Rightarrow> gotime \<Rightarrow> server \<Rightarrow> reply" where
  "Handle C fl oc source packet now s =
     (case Parse packet of None \<Rightarrow> (s, [], None)
      | Some (kind, b) \<Rightarrow>
        (let s1 = Expire now s in
         if kind = ClientFinish then handle_finish C source b s1
         else if kind \<noteq> ClientHello then (s1, [], None)
         else handle_hello C fl oc source packet b now s1))"

end
