(* ===== verification/Handshake_Safety.thy ===== *)
theory Handshake_Safety
  imports Handshake
begin

text \<open>
  Invariants and safety of the handshake server: the bounds on every table, the uniqueness of an
  outstanding installation per source, and what holds after every sequence of operations.
\<close>

section \<open>Operations as events\<close>

datatype server_event =
    EvHandle draws bytes bytes gotime
  | EvExpire gotime
  | EvClose
  | EvInstalled bytes nat bool
  | EvReload peer_seq

text \<open>
  One operation of a running server. Clock readings are not the zero time; the authorized set may
  change between operations, and the transport may call any \<open>Installed\<close> callback at any moment.
\<close>

inductive server_step :: "crypto \<Rightarrow> rounding \<Rightarrow> server \<Rightarrow> server_event \<Rightarrow> server \<Rightarrow> bool"
  for C fl where
  step_handle: "now \<noteq> 0 \<Longrightarrow> Handle C fl oc src pkt now s = (t, out) \<Longrightarrow>
      server_step C fl s (EvHandle oc src pkt now) t"
| step_expire: "server_step C fl s (EvExpire now) (Expire now s)"
| step_close: "server_step C fl s EvClose (Close s)"
| step_installed: "server_step C fl s (EvInstalled h ref ok) (installed s (h, ref) ok)"
| step_reload: "server_step C fl s (EvReload auth) (s\<lparr>Authorized := auth\<rparr>)"

inductive_cases server_stepE: "server_step C fl s e t"

section \<open>The pending table\<close>

definition outstanding :: "pending \<Rightarrow> bool" where
  "outstanding p \<longleftrightarrow> p_installing p \<and> \<not> p_accepted p"

definition entry_ok :: "bytes \<times> pending \<Rightarrow> bool" where
  "entry_ok e \<longleftrightarrow> p_hash (snd e) = fst e \<and> p_source (snd e) = WG (Keys (p_session (snd e))) \<and>
     (p_accepted (snd e) \<longrightarrow> PSK (p_session (snd e)) = zeros 32)"

definition exclusive :: "(bytes, pending) gomap \<Rightarrow> bool" where
  "exclusive pend \<longleftrightarrow> (\<forall>e \<in> set pend. \<forall>f \<in> set pend.
     outstanding (snd e) \<and> outstanding (snd f) \<and> p_source (snd e) = p_source (snd f) \<longrightarrow> fst e = fst f)"

definition refs :: "(bytes, pending) gomap \<Rightarrow> nat list" where
  "refs pend = map (p_ref \<circ> snd) pend"

definition pend_ok :: "nat \<Rightarrow> (bytes, pending) gomap \<Rightarrow> bool" where
  "pend_ok n pend \<longleftrightarrow> mdistinct pend \<and> distinct (refs pend) \<and> (\<forall>r \<in> set (refs pend). r < n) \<and>
     (\<forall>e \<in> set pend. entry_ok e) \<and> exclusive pend"

definition own :: "bytes \<Rightarrow> (bytes, pending) gomap \<Rightarrow> nat" where
  "own pid pend = length (filter (\<lambda>(h, p). Peer (p_session p) = pid) pend)"

lemma owned_own: "owned pid s = own pid (pendings s)"
  by (simp add: owned_def own_def)

lemma distinct_refs_filter: "distinct (refs pend) \<Longrightarrow> distinct (refs (filter P pend))"
  unfolding refs_def by (rule distinct_map_filter)

lemma pend_ok_filter: "pend_ok n pend \<Longrightarrow> pend_ok n (filter P pend)"
  using distinct_refs_filter [of pend P]
  by (simp add: pend_ok_def mdistinct_filter exclusive_def) (auto simp: refs_def)

lemma pend_ok_delete: "pend_ok n pend \<Longrightarrow> pend_ok n (AList.delete h pend)"
  by (simp add: AList.delete_eq pend_ok_filter)

lemma own_filter: "own pid (filter P pend) \<le> own pid pend"
  by (induction pend) (auto simp: own_def)

lemma own_delete: "own pid (AList.delete h pend) \<le> own pid pend"
  by (simp add: AList.delete_eq own_filter)

lemma own_update:
  "own pid (AList.update h p pend) \<le> own pid pend + (if Peer (p_session p) = pid then 1 else 0)"
  by (induction pend) (auto simp: own_def)

lemma own_update_same:
  "map_of pend h = Some p \<Longrightarrow> Peer (p_session q) = Peer (p_session p) \<Longrightarrow>
   own pid (AList.update h q pend) = own pid pend"
  by (induction pend) (auto simp: own_def split: if_splits)

lemma distinct_refs_update:
  assumes "mdistinct pend" "distinct (refs pend)"
    "\<And>e. e \<in> set pend \<Longrightarrow> fst e \<noteq> h \<Longrightarrow> p_ref (snd e) \<noteq> p_ref p"
  shows "distinct (refs (AList.update h p pend))"
  using assms
proof (induction pend)
  case Nil
  then show ?case by (simp add: refs_def)
next
  case (Cons a pend)
  show ?case
  proof (cases "fst a = h")
    case True
    with Cons.prems have "h \<notin> mkeys pend" by auto
    then have "p_ref p \<notin> set (refs pend)"
      using Cons.prems(3) by (force simp: refs_def)
    with True Cons.prems show ?thesis by (cases a) (simp add: refs_def)
  next
    case False
    have "distinct (refs (AList.update h p pend))"
      using Cons.prems by (intro Cons.IH) (auto simp: refs_def)
    moreover have "p_ref (snd a) \<notin> set (refs (AList.update h p pend))"
      using set_update_subset [of h p pend] Cons.prems(2) Cons.prems(3) [of a] False
      by (auto simp: refs_def)
    ultimately show ?thesis using False by (cases a) (auto simp: refs_def)
  qed
qed

lemma set_refs: "set (refs pend) = (\<lambda>e. p_ref (snd e)) ` set pend"
  by (auto simp: refs_def)

text \<open>
  Replacing the entry of a transcript by one under the same allocation, source and peer keeps the
  table well formed when no other entry of the source is outstanding, or when the new one is not.
\<close>

lemma pend_ok_update:
  assumes ok: "pend_ok n pend" and entry: "entry_ok (h, q)" and lt: "p_ref q < m" and le: "n \<le> m"
    and fresh: "\<And>e. e \<in> set pend \<Longrightarrow> fst e \<noteq> h \<Longrightarrow> p_ref (snd e) \<noteq> p_ref q"
    and excl: "outstanding q \<Longrightarrow>
       \<forall>e \<in> set pend. fst e \<noteq> h \<and> p_source (snd e) = p_source q \<longrightarrow> \<not> outstanding (snd e)"
  shows "pend_ok m (AList.update h q pend)"
proof -
  have d: "mdistinct pend" "distinct (refs pend)" using ok by (auto simp: pend_ok_def)
  have set: "set (AList.update h q pend) = insert (h, q) {x \<in> set pend. fst x \<noteq> h}"
    by (rule set_update_distinct [OF d(1)])
  have "exclusive (AList.update h q pend)"
    unfolding exclusive_def set
  proof (intro ballI impI)
    fix e f
    assume e: "e \<in> insert (h, q) {x \<in> set pend. fst x \<noteq> h}"
      and f: "f \<in> insert (h, q) {x \<in> set pend. fst x \<noteq> h}"
      and o: "outstanding (snd e) \<and> outstanding (snd f) \<and> p_source (snd e) = p_source (snd f)"
    have old: "fst e = fst f" if "e \<in> set pend" "f \<in> set pend"
      using ok o that unfolding pend_ok_def exclusive_def by blast
    have new: False if "g \<in> set pend" "fst g \<noteq> h" "outstanding (snd g)" "p_source (snd g) = p_source q"
      "outstanding q" for g
      using excl that by blast
    show "fst e = fst f"
    proof (cases "e = (h, q)")
      case True
      with f o new [of f] show ?thesis by auto
    next
      case False
      with e f o new [of e] old show ?thesis by auto
    qed
  qed
  moreover have "\<forall>r \<in> set (refs (AList.update h q pend)). r < m"
    using ok lt le by (auto simp: set_refs set pend_ok_def)
  moreover have "\<forall>e \<in> set (AList.update h q pend). entry_ok e"
    using ok entry by (auto simp: set pend_ok_def)
  ultimately show ?thesis
    using d fresh by (simp add: pend_ok_def AList.distinct_update distinct_refs_update)
qed

lemma pend_ok_ref_key:
  assumes "pend_ok n pend" "(h, p) \<in> set pend" "e \<in> set pend" "fst e \<noteq> h"
  shows "p_ref (snd e) \<noteq> p_ref p"
proof
  assume "p_ref (snd e) = p_ref p"
  moreover have "inj_on (p_ref \<circ> snd) (set pend)"
    using assms(1) by (simp add: pend_ok_def refs_def distinct_map)
  ultimately have "e = (h, p)"
    using assms(2,3) by (metis comp_apply inj_onD snd_conv)
  with assms(4) show False by simp
qed

section \<open>The server invariant\<close>

definition tables_ok :: "server \<Rightarrow> bool" where
  "tables_ok s \<longleftrightarrow>
     pend_ok (next_ref s) (pendings s) \<and> length (pendings s) \<le> 256 \<and> (\<forall>pid. owned pid s \<le> 8) \<and>
     mdistinct (replay s) \<and> length (replay s) \<le> 64 * 301"

definition rates_ok :: "server \<Rightarrow> bool" where
  "rates_ok s \<longleftrightarrow>
     rate_ok 4 (limits s) \<and> length (limits s) \<le> 4096 \<and>
     rate_ok 4 (peerLimits s) \<and> length (peerLimits s) \<le> 4096 \<and>
     (start (global_bucket s) \<noteq> 0 \<longrightarrow> bucket_ok 64 (global_bucket s))"

definition server_inv :: "server \<Rightarrow> bool" where
  "server_inv s \<longleftrightarrow> tables_ok s \<and> rates_ok s"

lemmas inv_defs = server_inv_def tables_ok_def rates_ok_def

lemma server_inv_new: "server_inv (new_server pub ks auth)"
  by (simp add: inv_defs new_server_def pend_ok_def exclusive_def owned_def zero_bucket_def
      rate_ok_def refs_def)

lemma server_inv_Expire: "server_inv s \<Longrightarrow> server_inv (Expire now s)"
  by (auto simp: inv_defs Expire_def pend_ok_filter mdistinct_filter rate_ok_filter owned_own
      intro: order.trans [OF length_filter_le] order.trans [OF own_filter])

lemma server_inv_Close: "server_inv s \<Longrightarrow> server_inv (Close s)"
  by (auto simp: inv_defs Close_def pend_ok_def exclusive_def owned_def rate_ok_def refs_def)

lemma charge_eq:
  "charge fl now key table =
     (let room = (if key \<notin> mkeys table \<and> 4096 \<le> length table then evictOldest table else table);
          r = allow fl (case map_of room key of None \<Rightarrow> zero_bucket | Some b \<Rightarrow> b) now 4
      in (AList.update key (fst r) room, snd r))"
  by (simp add: charge_def Let_def split: prod.splits)

lemma charge_inv:
  assumes "ieee fl" "now \<noteq> 0" "rate_ok 4 table" "length table \<le> 4096"
  shows "rate_ok 4 (fst (charge fl now key table)) \<and> length (fst (charge fl now key table)) \<le> 4096"
proof -
  let ?c = "key \<notin> mkeys table \<and> 4096 \<le> length table"
  define room where "room = (if ?c then evictOldest table else table)"
  have room: "rate_ok 4 room" using assms(3) by (simp add: room_def evictOldest_ok)
  define b where "b = (case map_of room key of None \<Rightarrow> zero_bucket | Some b \<Rightarrow> b)"
  have "start b \<noteq> 0 \<Longrightarrow> bucket_ok 4 b"
    using room by (auto simp: b_def zero_bucket_def rate_ok_def split: option.splits dest!: map_of_SomeD)
  then have ok: "bucket_ok 4 (fst (allow fl b now 4))"
    using assms(1,2) by (intro allow_ok) simp_all
  have eq: "fst (charge fl now key table) = AList.update key (fst (allow fl b now 4)) room"
    by (simp add: charge_eq Let_def room_def b_def)
  have "length (AList.update key (fst (allow fl b now 4)) room) \<le> 4096"
    unfolding room_def by (rule rate_table.capped_insert_length [OF assms(3,4)])
  moreover have "rate_ok 4 (AList.update key (fst (allow fl b now 4)) room)"
    unfolding room_def by (rule rate_table.capped_insert_invar [OF assms(3) ok])
  ultimately show ?thesis by (simp add: eq)
qed

lemma server_inv_installed:
  assumes inv: "server_inv s"
  shows "server_inv (installed s (h, ref) ok)"
proof (cases "ref \<in> set (once_done s) \<or> map_of (pendings s) h = None")
  case True
  with inv show ?thesis by (auto simp: installed_def Let_def inv_defs owned_def)
next
  case False
  then obtain p where p: "map_of (pendings s) h = Some p" by auto
  then have mem: "(h, p) \<in> set (pendings s)" by (rule map_of_SomeD)
  have pk: "pend_ok (next_ref s) (pendings s)" using inv by (simp add: inv_defs)
  have src: "p_source p = WG (Keys (p_session p))" "p_hash p = h"
    using pk mem by (auto simp: pend_ok_def entry_ok_def)
  let ?q = "p\<lparr>p_session := (p_session p)\<lparr>PSK := zeros 32\<rparr>, p_accepted := True\<rparr>"
  have "pend_ok (next_ref s) (AList.update h ?q (pendings s))"
  proof (rule pend_ok_update [OF pk])
    show "entry_ok (h, ?q)" using src by (simp add: entry_ok_def)
    show "p_ref ?q < next_ref s" using pk mem by (auto simp: pend_ok_def set_refs)
    show "p_ref (snd e) \<noteq> p_ref ?q" if "e \<in> set (pendings s)" "fst e \<noteq> h" for e
      using pend_ok_ref_key [OF pk mem that] by simp
  qed (simp_all add: outstanding_def)
  moreover have "length (AList.update h ?q (pendings s)) = length (pendings s)"
    using mem by (force simp: length_update)
  moreover have "own pid (AList.update h ?q (pendings s)) = own pid (pendings s)" for pid
    by (rule own_update_same [OF p]) simp
  ultimately show ?thesis
    using inv p False
    by (auto simp: installed_def Let_def inv_defs owned_own AList.delete_eq
        intro: pend_ok_filter order.trans [OF own_filter] order.trans [OF length_filter_le])
qed

section \<open>What a ClientHello can do\<close>

text \<open>
  The conditions under which \<open>handle_hello\<close> answers with a new transcript: addressing and freshness of
  the header, a tag that resolves to an authorized key, no replay, room in the tables, a valid
  signature of that key over the unsigned frame, and a well-formed encapsulation key.
\<close>

definition hello_guards ::
  "crypto \<Rightarrow> gotime \<Rightarrow> bytes \<Rightarrow> bytes \<Rightarrow> server \<Rightarrow> bytes \<Rightarrow> bytes \<Rightarrow> bool" where
  "hello_guards C now source b s pid pub \<longleftrightarrow>
     hello_header_ok C s source b \<and> hello_fresh now b \<and>
     resolve C (Authorized s) (take 32 b) (slice 96 128 b) = (pid, pub) \<and>
     pub \<noteq> [] \<and> ID C pub = pid \<and>
     sha384 C (join [pid, slice 96 128 b]) \<notin> mkeys (replay s) \<and>
     length (replay s) < 64 * 301 \<and> length (pendings s) < 256 \<and>
     verify C pub ClientContext (frame ClientHello (take helloSize b)) (drop helloSize b) \<and>
     owned pid s < 8 \<and> mlkem_key_ok C (drop 200 (take helloSize b))"

definition same_core :: "server \<Rightarrow> server \<Rightarrow> bool" where
  "same_core s t \<longleftrightarrow> pendings t = pendings s \<and> replay t = replay s \<and> next_ref t = next_ref s \<and>
     once_done t = once_done s \<and> Public t = Public s \<and> ServerKeys t = ServerKeys s \<and>
     Authorized t = Authorized s"

lemma same_core_refl [simp]: "same_core s s"
  by (simp add: same_core_def)

lemma same_core_trans: "same_core s t \<Longrightarrow> same_core t u \<Longrightarrow> same_core s u"
  by (simp add: same_core_def)

lemma same_core_limits [simp]:
  "same_core s (t\<lparr>limits := l\<rparr>) = same_core s t" "same_core s (t\<lparr>peerLimits := l\<rparr>) = same_core s t"
  "same_core s (t\<lparr>global_bucket := g\<rparr>) = same_core s t"
  by (simp_all add: same_core_def)

lemma same_core_owned: "same_core s t \<Longrightarrow> owned pid t = owned pid s"
  by (simp add: same_core_def owned_def)

text \<open>The two outcomes of \<open>hello_respond\<close>: nothing, or one new entry in both tables.\<close>

definition hello_stored ::
  "crypto \<Rightarrow> bytes \<Rightarrow> pending \<Rightarrow> gotime \<Rightarrow> server \<Rightarrow> server" where
  "hello_stored C rkey q now s =
     s\<lparr>pendings := AList.update (p_hash q) q (pendings s),
       replay := AList.update rkey (now + 300 * second) (replay s), next_ref := Suc (next_ref s)\<rparr>"

lemma new_pending_simps [simp]:
  "p_ref (new_pending C ref pid src pkt b now hash psk hk resp) = ref"
  "p_session (new_pending C ref pid src pkt b now hash psk hk resp) =
     \<lparr>Peer = pid, Keys = \<lparr>WG = slice 32 64 b, Disco = slice 64 96 b\<rparr>, PSK = psk, Installed = None\<rparr>"
  "p_hash (new_pending C ref pid src pkt b now hash psk hk resp) = hash"
  "p_hk (new_pending C ref pid src pkt b now hash psk hk resp) = hk"
  "p_source (new_pending C ref pid src pkt b now hash psk hk resp) = src"
  "p_expires (new_pending C ref pid src pkt b now hash psk hk resp) = now + 30 * second"
  "p_accepted (new_pending C ref pid src pkt b now hash psk hk resp) = False"
  "p_installing (new_pending C ref pid src pkt b now hash psk hk resp) = False"
  "p_helloHash (new_pending C ref pid src pkt b now hash psk hk resp) = sha384 C pkt"
  "p_response (new_pending C ref pid src pkt b now hash psk hk resp) = resp"
  by (simp_all add: new_pending_def)

lemma hello_respond_cases:
  assumes res: "hello_respond C oc pid source packet b now rkey s = (t, out, ses)"
  obtains (dropped) "t = s" "out = []" "ses = None"
  | (stored) ss ct nonce tb hash psk hk sig q where
      "o_encap oc (drop 200 (take helloSize b)) = (ss, ct)" "o_nonce oc = Some nonce"
      "transcript C (take helloSize b) (ID C (Public s)) (ServerKeys s) nonce ct = (tb, hash)"
      "derive C ss hash = Some (psk, hk)" "o_sign oc ServerContext tb = Some sig"
      "out = server_hello C s nonce ct sig hk hash" "ses = None"
      "q = new_pending C (next_ref s) pid source packet b now hash psk hk out"
      "t = hello_stored C rkey q now s"
proof (cases "t = s \<and> out = [] \<and> ses = None")
  case True
  then show thesis by (auto intro: dropped)
next
  case False
  obtain ss ct where enc: "o_encap oc (drop 200 (take helloSize b)) = (ss, ct)" by fastforce
  obtain nonce where nonce: "o_nonce oc = Some nonce"
    using res False by (cases "o_nonce oc") (auto simp: hello_respond_def enc)
  obtain tb hash where tr:
    "transcript C (take helloSize b) (ID C (Public s)) (ServerKeys s) nonce ct = (tb, hash)" by fastforce
  obtain psk hk where der: "derive C ss hash = Some (psk, hk)"
    using res False by (cases "derive C ss hash") (auto simp: hello_respond_def enc nonce tr)
  obtain sig where sig: "o_sign oc ServerContext tb = Some sig"
    using res False
    by (cases "o_sign oc ServerContext tb") (auto simp: hello_respond_def enc nonce tr der)
  from res have "out = server_hello C s nonce ct sig hk hash" "ses = None"
    "t = hello_stored C rkey (new_pending C (next_ref s) pid source packet b now hash psk hk out) now s"
    by (auto simp: hello_respond_def enc nonce tr der sig hello_stored_def Let_def)
  with enc nonce tr der sig show thesis by (auto intro: stored)
qed

lemma hello_admit_cases:
  assumes res: "hello_admit C fl oc pid pub source packet b now rkey s = (t, out, ses)"
  obtains (dropped) "same_core s t" "out = []" "ses = None" "t = s \<or> t = s\<lparr>peerLimits := fst (charge fl now pid (peerLimits s))\<rparr>"
  | (admitted) "length (replay s) < 64 * 301" "length (pendings s) < 256"
      "verify C pub ClientContext (frame ClientHello (take helloSize b)) (drop helloSize b)"
      "owned pid s < 8" "mlkem_key_ok C (drop 200 (take helloSize b))"
      "hello_respond C oc pid source packet b now rkey
         (s\<lparr>peerLimits := fst (charge fl now pid (peerLimits s))\<rparr>) = (t, out, ses)"
proof -
  obtain pl ok where ch: "charge fl now pid (peerLimits s) = (pl, ok)" by fastforce
  have own: "owned pid (s\<lparr>peerLimits := pl\<rparr>) = owned pid s" by (simp add: owned_def)
  show thesis
  proof (cases "length (replay s) < 64 * 301 \<and> length (pendings s) < 256 \<and>
      verify C pub ClientContext (frame ClientHello (take helloSize b)) (drop helloSize b) \<and> ok \<and>
      owned pid s < 8 \<and> mlkem_key_ok C (drop 200 (take helloSize b))")
    case True
    then show thesis
      using res by (intro admitted) (auto simp: hello_admit_def ch own)
  next
    case False
    then show thesis
      using res by (intro dropped) (auto simp: hello_admit_def ch own Let_def not_less split: if_splits)
  qed
qed

text \<open>The server as \<open>handle_hello\<close> passes it on: only the rate limiters have been charged.\<close>

definition charged :: "rounding \<Rightarrow> gotime \<Rightarrow> bytes \<Rightarrow> bytes \<Rightarrow> server \<Rightarrow> server" where
  "charged fl now source pid s =
     s\<lparr>limits := fst (charge fl now source (limits s)),
       global_bucket := fst (allow fl (global_bucket s) now 64),
       peerLimits := fst (charge fl now pid (peerLimits s))\<rparr>"

lemma same_core_charged [simp]: "same_core s (charged fl now source pid s)"
  by (simp add: charged_def same_core_def)

lemma charged_simps [simp]:
  "pendings (charged fl now source pid s) = pendings s" "replay (charged fl now source pid s) = replay s"
  "next_ref (charged fl now source pid s) = next_ref s" "Public (charged fl now source pid s) = Public s"
  "ServerKeys (charged fl now source pid s) = ServerKeys s"
  "once_done (charged fl now source pid s) = once_done s"
  "owned p (charged fl now source pid s) = owned p s"
  by (simp_all add: charged_def owned_def)

lemma handle_hello_cases:
  assumes res: "handle_hello C fl oc source packet b now s = (t, out, ses)"
  obtains (dropped) "same_core s t" "out = []" "ses = None"
  | (cached) "same_core s t" "out = cached_response (pendings s) source (sha384 C packet)" "ses = None"
  | (admitted) pid pub where "hello_guards C now source b s pid pub"
      "hello_respond C oc pid source packet b now (sha384 C (join [pid, slice 96 128 b]))
         (charged fl now source pid s) = (t, out, ses)"
proof -
  obtain lim ok where ch: "charge fl now source (limits s) = (lim, ok)" by fastforce
  obtain pid pub where rs: "resolve C (Authorized s) (take 32 b) (slice 96 128 b) = (pid, pub)" by fastforce
  obtain g gok where al: "allow fl (global_bucket s) now 64 = (g, gok)" by fastforce
  let ?rkey = "sha384 C (join [pid, slice 96 128 b])"
  let ?s2 = "s\<lparr>limits := lim, global_bucket := g\<rparr>"
  let ?pre = "hello_header_ok C s source b \<and> hello_fresh now b \<and> ok \<and> pub \<noteq> [] \<and> ID C pub = pid \<and> gok"
  show thesis
  proof (cases ?pre)
    case False
    then show thesis
      using res by (intro dropped) (auto simp: handle_hello_def ch rs al Let_def split: if_splits)
  next
    case pre: True
    show thesis
    proof (cases "?rkey \<in> mkeys (replay s)")
      case True
      then show thesis
        using res pre by (intro cached) (auto simp: handle_hello_def ch rs al)
    next
      case False
      then have "hello_admit C fl oc pid pub source packet b now ?rkey ?s2 = (t, out, ses)"
        using res pre by (auto simp: handle_hello_def ch rs al)
      then show thesis
      proof (cases rule: hello_admit_cases)
        case dropped
        then show thesis by (intro that(1)) (auto simp: same_core_def)
      next
        case admitted
        moreover have "owned pid ?s2 = owned pid s" by (simp add: owned_def)
        ultimately show thesis
          using pre False rs by (intro that(3) [of pid pub]) (auto simp: hello_guards_def charged_def ch al)
      qed
    qed
  qed
qed

section \<open>Every operation keeps the invariant\<close>

lemma tables_ok_same_core: "same_core s t \<Longrightarrow> tables_ok s \<Longrightarrow> tables_ok t"
  by (simp add: tables_ok_def same_core_def owned_def)

lemma charge_rates:
  assumes "ieee fl" "now \<noteq> 0" "rates_ok s"
  shows "rates_ok (s\<lparr>limits := fst (charge fl now k (limits s))\<rparr>)"
    "rates_ok (s\<lparr>peerLimits := fst (charge fl now k (peerLimits s))\<rparr>)"
    "rates_ok (s\<lparr>global_bucket := fst (allow fl (global_bucket s) now 64)\<rparr>)"
  using charge_inv [OF assms(1,2)] allow_ok [OF assms(1,2)] assms(3)
  by (simp_all add: rates_ok_def)

lemma rates_ok_hello_respond:
  "hello_respond C oc pid source packet b now rkey s = (t, out, ses) \<Longrightarrow> rates_ok s \<Longrightarrow> rates_ok t"
  by (erule hello_respond_cases) (simp_all add: hello_stored_def rates_ok_def)

lemma rates_ok_hello_admit:
  assumes "ieee fl" "now \<noteq> 0" "rates_ok s"
    "hello_admit C fl oc pid pub source packet b now rkey s = (t, out, ses)"
  shows "rates_ok t"
  using assms(4)
proof (cases rule: hello_admit_cases)
  case dropped
  then show ?thesis using assms(1-3) charge_rates(2) by auto
next
  case admitted
  then show ?thesis using rates_ok_hello_respond charge_rates(2) [OF assms(1-3)] by blast
qed

lemma rates_ok_handle_hello:
  assumes fl: "ieee fl" "now \<noteq> 0" and s: "rates_ok s"
    and res: "handle_hello C fl oc source packet b now s = (t, out, ses)"
  shows "rates_ok t"
proof -
  obtain lim ok where ch: "charge fl now source (limits s) = (lim, ok)" by fastforce
  obtain pid pub where rs: "resolve C (Authorized s) (take 32 b) (slice 96 128 b) = (pid, pub)" by fastforce
  obtain g gok where al: "allow fl (global_bucket s) now 64 = (g, gok)" by fastforce
  have s1: "rates_ok (s\<lparr>limits := lim\<rparr>)"
    using charge_rates(1) [OF fl s, of source] by (simp add: ch)
  have s2: "rates_ok (s\<lparr>limits := lim, global_bucket := g\<rparr>)"
    using charge_rates(3) [OF fl s1] by (simp add: al)
  show ?thesis
    using res s s1 s2 rates_ok_hello_admit [OF fl s2]
    by (auto simp: handle_hello_def ch rs al Let_def split: if_splits)
qed

lemma pend_ok_mono: "pend_ok n pend \<Longrightarrow> n \<le> m \<Longrightarrow> pend_ok m pend"
  by (auto simp: pend_ok_def)

lemma tables_ok_hello_stored:
  assumes ok: "tables_ok s" and lt: "length (replay s) < 64 * 301" "length (pendings s) < 256"
    and own: "owned (Peer (p_session q)) s < 8" and ref: "p_ref q = next_ref s"
    and q: "entry_ok (p_hash q, q)" "\<not> p_installing q"
  shows "tables_ok (hello_stored C rkey q now s)"
proof -
  have pk: "pend_ok (next_ref s) (pendings s)" using ok by (simp add: tables_ok_def)
  have "pend_ok (Suc (next_ref s)) (AList.update (p_hash q) q (pendings s))"
  proof (rule pend_ok_update [OF pk q(1)])
    show "p_ref (snd e) \<noteq> p_ref q" if "e \<in> set (pendings s)" for e
      using pk that ref by (auto simp: pend_ok_def set_refs)
  qed (use ref q in \<open>simp_all add: outstanding_def\<close>)
  moreover have "own pid (AList.update (p_hash q) q (pendings s)) \<le> 8" for pid
    using own_update [of pid "p_hash q" q "pendings s"] ok own
    by (auto simp: tables_ok_def owned_own split: if_splits intro: order.trans)
  ultimately show ?thesis
    using ok lt length_update_le [of "p_hash q" q "pendings s"]
      length_update_le [of rkey "now + 300 * second" "replay s"]
    by (auto simp: tables_ok_def hello_stored_def owned_own AList.distinct_update)
qed

lemma tables_ok_handle_hello:
  assumes ok: "tables_ok s" and res: "handle_hello C fl oc source packet b now s = (t, out, ses)"
  shows "tables_ok t"
  using res
proof (cases rule: handle_hello_cases)
  case (admitted pid pub)
  have c: "same_core s (charged fl now source pid s)" by simp
  have ok': "tables_ok (charged fl now source pid s)" using tables_ok_same_core [OF c ok] .
  from admitted(2) show ?thesis
  proof (cases rule: hello_respond_cases)
    case dropped
    with ok' show ?thesis by simp
  next
    case (stored ss ct nonce tb hash psk hk sig q)
    have "source = slice 32 64 b" using admitted(1) by (simp add: hello_guards_def hello_header_ok_def)
    then have "entry_ok (p_hash q, q)" "p_ref q = next_ref (charged fl now source pid s)"
      "Peer (p_session q) = pid" "\<not> p_installing q"
      using stored(8) by (simp_all add: entry_ok_def)
    moreover have "owned pid (charged fl now source pid s) < 8"
      "length (replay (charged fl now source pid s)) < 64 * 301"
      "length (pendings (charged fl now source pid s)) < 256"
      using admitted(1) by (simp_all add: hello_guards_def)
    ultimately show ?thesis
      using tables_ok_hello_stored [OF ok'] stored(9) by simp
  qed
qed (use ok in \<open>auto intro: tables_ok_same_core\<close>)

definition finish_ok :: "crypto \<Rightarrow> bytes \<Rightarrow> bytes \<Rightarrow> server \<Rightarrow> pending \<Rightarrow> bool" where
  "finish_ok C source b s p \<longleftrightarrow>
     map_of (pendings s) (take hashSize b) = Some p \<and> p_source p = source \<and>
     Lookup (Authorized s) (Peer (p_session p)) \<noteq> [] \<and>
     proof_mac C (p_hk p) ''client-finished'' (take hashSize b) = drop hashSize b"

definition finish_ack :: "crypto \<Rightarrow> bytes \<Rightarrow> pending \<Rightarrow> bytes" where
  "finish_ack C h p = frame ServerAccepted (join [h, proof_mac C (p_hk p) ''server-accepted'' h])"

text \<open>The three outcomes of a ClientFinish: silence, a repeated acknowledgement, a session.\<close>

lemma handle_finish_cases:
  assumes res: "handle_finish C source b s = (t, out, ses)"
  obtains (dropped) "t = s" "out = []" "ses = None"
  | (repeated) p where "finish_ok C source b s p" "p_accepted p" "t = s" "ses = None"
      "out = finish_ack C (take hashSize b) p"
  | (selected) p where "finish_ok C source b s p" "\<not> p_accepted p" "\<not> p_installing p"
      "\<forall>e \<in> set (pendings s). rival p source e \<longrightarrow> \<not> outstanding (snd e)"
      "t = s\<lparr>pendings := AList.update (take hashSize b) (p\<lparr>p_installing := True\<rparr>)
                           (filter (\<lambda>e. \<not> rival p source e) (pendings s))\<rparr>"
      "out = finish_ack C (take hashSize b) p"
      "ses = Some ((p_session p)\<lparr>Installed := Some (take hashSize b, p_ref p)\<rparr>)"
proof (cases "\<exists>p. finish_ok C source b s p")
  case False
  then show thesis
    using res by (intro dropped) (auto simp: handle_finish_def finish_ok_def Let_def split: option.splits if_splits)
next
  case True
  then obtain p where p: "finish_ok C source b s p" by blast
  then have eq: "handle_finish C source b s =
      (if p_accepted p then (s, finish_ack C (take hashSize b) p, None)
       else if p_installing p \<or> (\<exists>e \<in> set (pendings s). rival p source e \<and> outstanding (snd e))
       then (s, [], None)
       else (s\<lparr>pendings := AList.update (take hashSize b) (p\<lparr>p_installing := True\<rparr>)
                             (filter (\<lambda>e. \<not> rival p source e) (pendings s))\<rparr>,
             finish_ack C (take hashSize b) p,
             Some ((p_session p)\<lparr>Installed := Some (take hashSize b, p_ref p)\<rparr>)))"
    by (auto simp: handle_finish_def finish_ok_def finish_ack_def outstanding_def list_ex_iff Let_def)
  consider "p_accepted p"
    | "\<not> p_accepted p" "p_installing p \<or> (\<exists>e \<in> set (pendings s). rival p source e \<and> outstanding (snd e))"
    | "\<not> p_accepted p" "\<not> p_installing p"
      "\<forall>e \<in> set (pendings s). rival p source e \<longrightarrow> \<not> outstanding (snd e)"
    by blast
  then show thesis
  proof cases
    case 1
    with res eq p show thesis by (intro repeated) auto
  next
    case 2
    with res eq show thesis by (intro dropped) auto
  next
    case 3
    then have "\<not> (p_installing p \<or> (\<exists>e \<in> set (pendings s). rival p source e \<and> outstanding (snd e)))"
      by blast
    with 3 res eq p show thesis by (intro selected [of p]) (auto simp only: if_False prod.inject)
  qed
qed

lemma map_of_filter_keep:
  "map_of m k = Some v \<Longrightarrow> mdistinct m \<Longrightarrow> P (k, v) \<Longrightarrow> map_of (filter P m) k = Some v"
  by (simp add: map_of_eq_Some_iff mdistinct_filter)

lemma tables_ok_handle_finish:
  assumes ok: "tables_ok s" and res: "handle_finish C source b s = (t, out, ses)"
  shows "tables_ok t"
  using res
proof (cases rule: handle_finish_cases)
  case (selected p)
  let ?h = "take hashSize b" and ?kept = "filter (\<lambda>e. \<not> rival p source e) (pendings s)"
  let ?q = "p\<lparr>p_installing := True\<rparr>"
  have pk: "pend_ok (next_ref s) (pendings s)" using ok by (simp add: tables_ok_def)
  have mp: "map_of (pendings s) ?h = Some p" and src: "p_source p = source"
    using selected(1) by (simp_all add: finish_ok_def)
  then have mem: "(?h, p) \<in> set (pendings s)" by (simp add: map_of_SomeD)
  have kept: "pend_ok (next_ref s) ?kept" by (rule pend_ok_filter [OF pk])
  have mk: "map_of ?kept ?h = Some p"
    using mp pk by (intro map_of_filter_keep) (auto simp: pend_ok_def rival_def)
  then have memk: "(?h, p) \<in> set ?kept" by (rule map_of_SomeD)
  have "pend_ok (next_ref s) (AList.update ?h ?q ?kept)"
  proof (rule pend_ok_update [OF kept])
    show "entry_ok (?h, ?q)" using pk mem selected(2) by (auto simp: pend_ok_def entry_ok_def)
    show "p_ref ?q < next_ref s" using pk mem by (auto simp: pend_ok_def set_refs)
    show "p_ref (snd e) \<noteq> p_ref ?q" if "e \<in> set ?kept" "fst e \<noteq> ?h" for e
      using pend_ok_ref_key [OF kept memk that] by simp
    show "\<forall>e \<in> set ?kept. fst e \<noteq> ?h \<and> p_source (snd e) = p_source ?q \<longrightarrow> \<not> outstanding (snd e)"
      using pend_ok_ref_key [OF kept memk] src by (fastforce simp: rival_def)
  qed simp
  moreover have "length (AList.update ?h ?q ?kept) \<le> length (pendings s)"
    using memk by (force simp: length_update)
  moreover have "own pid (AList.update ?h ?q ?kept) \<le> own pid (pendings s)" for pid
    using own_update_same [OF mk, of ?q pid] own_filter by simp
  ultimately show ?thesis
    using ok selected(5) by (auto simp: tables_ok_def owned_own intro: order.trans)
qed (use ok in simp_all)

lemma server_inv_Handle:
  assumes "ieee fl" "now \<noteq> 0" "server_inv s" "Handle C fl oc source packet now s = (t, out, ses)"
  shows "server_inv t"
proof -
  have e: "server_inv (Expire now s)" using assms(3) by (rule server_inv_Expire)
  have "rates_ok t" if "handle_finish C source b (Expire now s) = (t, out, ses)" for b
    using that e by (cases rule: handle_finish_cases) (auto simp: server_inv_def rates_ok_def)
  then show ?thesis
    using assms e
    by (auto simp: Handle_def server_inv_def Let_def split: option.splits prod.splits if_splits
        intro: tables_ok_handle_finish tables_ok_handle_hello rates_ok_handle_hello)
qed

lemma server_inv_step:
  assumes "ieee fl" "server_inv s" "server_step C fl s e t"
  shows "server_inv t"
  using assms(3)
proof (cases rule: server_step.cases)
  case (step_handle now oc src pkt out)
  then show ?thesis using assms(1,2) server_inv_Handle by (cases out) blast
next
  case (step_reload auth)
  then show ?thesis using assms(2) by (simp add: inv_defs owned_def)
qed (use assms(2) in \<open>simp_all add: server_inv_Expire server_inv_Close server_inv_installed\<close>)

definition fresh_server :: "server \<Rightarrow> bool" where
  "fresh_server s \<longleftrightarrow> (\<exists>pub ks auth. s = new_server pub ks auth)"

interpretation server_machine: invariant_machine fresh_server "server_step C fl"
  "\<lambda>s. ieee fl \<longrightarrow> server_inv s" for C fl
proof
  show "ieee fl \<longrightarrow> server_inv s" if "fresh_server s" for s
    using that server_inv_new by (auto simp: fresh_server_def)
  show "ieee fl \<longrightarrow> server_inv t" if "ieee fl \<longrightarrow> server_inv s" "server_step C fl s e t" for s e t
    using that server_inv_step by blast
qed

lemma reachable_inv:
  "ieee fl \<Longrightarrow> runs (server_step C fl) (new_server pub ks auth) es s \<Longrightarrow> server_inv s"
  using server_machine.run_start_inv [of C fl "new_server pub ks auth" es s]
  by (auto simp: fresh_server_def)

end
