(* ===== verification/Handshake_History.thy ===== *)
theory Handshake_History
  imports Handshake_Safety
begin

text \<open>
  What a run of the handshake server leaves behind: where every pending transcript came from, which
  sessions were handed out, and how long a hello is remembered. The lemmas here relate the state after
  a step to the state before it; the properties built on them are in \<open>Handshake_Props\<close>.
\<close>

section \<open>The server as a function of its events\<close>

fun serve :: "crypto \<Rightarrow> rounding \<Rightarrow> server \<Rightarrow> server_event \<Rightarrow> server" where
  "serve C fl s (EvHandle oc src pkt now) = fst (Handle C fl oc src pkt now s)"
| "serve C fl s (EvExpire now) = Expire now s"
| "serve C fl s EvClose = Close s"
| "serve C fl s (EvInstalled h ref ok) = installed s (h, ref) ok"
| "serve C fl s (EvReload auth) = s\<lparr>Authorized := auth\<rparr>"

fun clocked :: "server_event \<Rightarrow> bool" where
  "clocked (EvHandle oc src pkt now) = (now \<noteq> 0)"
| "clocked e = True"

lemma server_step_iff: "server_step C fl s e t \<longleftrightarrow> clocked e \<and> t = serve C fl s e"
proof
  show "server_step C fl s e t \<Longrightarrow> clocked e \<and> t = serve C fl s e"
    by (induction rule: server_step.induct) auto
  show "clocked e \<and> t = serve C fl s e \<Longrightarrow> server_step C fl s e t"
    by (cases e) (auto intro: server_step.intros simp: prod_eq_iff)
qed

fun handed_by :: "crypto \<Rightarrow> rounding \<Rightarrow> server \<Rightarrow> server_event \<Rightarrow> session list" where
  "handed_by C fl s (EvHandle oc src pkt now) =
     (case snd (snd (Handle C fl oc src pkt now s)) of None \<Rightarrow> [] | Some ses \<Rightarrow> [ses])"
| "handed_by C fl s e = []"

fun handed :: "crypto \<Rightarrow> rounding \<Rightarrow> server \<Rightarrow> server_event list \<Rightarrow> session list" where
  "handed C fl s [] = []"
| "handed C fl s (e # es) = handed_by C fl s e @ handed C fl (serve C fl s e) es"

fun auth_after :: "peer_seq \<Rightarrow> server_event list \<Rightarrow> peer_seq" where
  "auth_after auth [] = auth"
| "auth_after auth (EvReload a # es) = auth_after a es"
| "auth_after auth (e # es) = auth_after auth es"

section \<open>The outcomes of Handle\<close>

lemma Expire_simps [simp]:
  "Public (Expire now s) = Public s" "ServerKeys (Expire now s) = ServerKeys s"
  "Authorized (Expire now s) = Authorized s" "next_ref (Expire now s) = next_ref s"
  "once_done (Expire now s) = once_done s" "global_bucket (Expire now s) = global_bucket s"
  by (simp_all add: Expire_def)

lemma pendings_Expire: "pendings (Expire now s) = filter (\<lambda>(h, p). now < p_expires p) (pendings s)"
  by (simp add: Expire_def)

lemma set_pendings_Expire [simp]:
  "(h, p) \<in> set (pendings (Expire now s)) \<longleftrightarrow> (h, p) \<in> set (pendings s) \<and> now < p_expires p"
  by (simp add: Expire_def)

lemma replay_Expire: "replay (Expire now s) = filter (\<lambda>(h, t). now < t) (replay s)"
  by (simp add: Expire_def)

lemma Handle_cases:
  assumes res: "Handle C fl oc src pkt now s = (t, out, ses)"
  obtains (invalid) "Parse pkt = None" "t = s" "out = []" "ses = None"
  | (ignored) k b where "Parse pkt = Some (k, b)" "k \<noteq> ClientFinish" "k \<noteq> ClientHello"
      "t = Expire now s" "out = []" "ses = None"
  | (finish) b where "Parse pkt = Some (ClientFinish, b)"
      "handle_finish C src b (Expire now s) = (t, out, ses)"
  | (hello) b where "Parse pkt = Some (ClientHello, b)"
      "handle_hello C fl oc src pkt b now (Expire now s) = (t, out, ses)"
proof (cases "Parse pkt")
  case None
  with res show thesis by (intro invalid) (auto simp: Handle_def)
next
  case (Some kb)
  obtain k b where kb: "kb = (k, b)" by fastforce
  consider "k = ClientFinish" | "k \<noteq> ClientFinish" "k = ClientHello" | "k \<noteq> ClientFinish" "k \<noteq> ClientHello"
    by blast
  then show thesis
    using res Some kb by cases (auto simp: Handle_def Let_def intro: finish hello ignored)
qed

text \<open>A new transcript: the guards it passed and the entry it left.\<close>

definition admits ::
  "crypto \<Rightarrow> rounding \<Rightarrow> draws \<Rightarrow> bytes \<Rightarrow> bytes \<Rightarrow> gotime \<Rightarrow> server \<Rightarrow> bytes \<Rightarrow> bytes \<Rightarrow> bytes \<Rightarrow> pending \<Rightarrow> bool"
where
  "admits C fl oc src pkt now s b pid pub q \<longleftrightarrow>
     Parse pkt = Some (ClientHello, b) \<and> hello_guards C now src b (Expire now s) pid pub \<and>
     (\<exists>ss ct nonce hash psk hk resp.
        o_encap oc (drop 200 (take helloSize b)) = (ss, ct) \<and> o_nonce oc = Some nonce \<and>
        hash = snd (transcript C (take helloSize b) (ID C (Public s)) (ServerKeys s) nonce ct) \<and>
        derive C ss hash = Some (psk, hk) \<and>
        q = new_pending C (next_ref s) pid src pkt b now hash psk hk resp)"

lemma handle_hello_admits:
  assumes "Parse pkt = Some (ClientHello, b)"
    "handle_hello C fl oc src pkt b now (Expire now s) = (t, out, ses)"
  obtains (kept) "same_core (Expire now s) t" "ses = None"
  | (stored) pid pub q where "admits C fl oc src pkt now s b pid pub q" "ses = None" "out = p_response q"
      "t = hello_stored C (sha384 C (join [pid, slice 96 128 b])) q now
             (charged fl now src pid (Expire now s))"
  using assms(2)
proof (cases rule: handle_hello_cases)
  case (admitted pid pub)
  from admitted(2) show thesis
  proof (cases rule: hello_respond_cases)
    case dropped
    then show thesis by (intro kept) simp_all
  next
    case (stored ss ct nonce tb hash psk hk sig q)
    then have "admits C fl oc src pkt now s b pid pub q"
      using assms(1) admitted(1) snd_conv unfolding admits_def by fastforce
    with stored show thesis by (intro that(2)) simp_all
  qed
qed (use that in auto)

section \<open>Entries across a step\<close>

text \<open>The same transcript, possibly further along: being installed, or accepted and without its PSK.\<close>

definition continues :: "pending \<Rightarrow> pending \<Rightarrow> bool" where
  "continues p q \<longleftrightarrow> p_ref q = p_ref p \<and> p_hash q = p_hash p \<and> p_hk q = p_hk p \<and>
     p_source q = p_source p \<and> p_expires q = p_expires p \<and> p_helloHash q = p_helloHash p \<and>
     p_response q = p_response p \<and> Peer (p_session q) = Peer (p_session p) \<and>
     Keys (p_session q) = Keys (p_session p) \<and> (p_installing p \<longrightarrow> p_installing q) \<and>
     (p_accepted p \<longrightarrow> p_accepted q) \<and>
     (PSK (p_session q) = PSK (p_session p) \<or> p_accepted q)"

lemma continues_refl [simp]: "continues p p"
  by (simp add: continues_def)

lemma continues_trans: "continues p q \<Longrightarrow> continues q r \<Longrightarrow> continues p r"
  by (auto simp: continues_def)

lemma set_update_cases:
  "(h, q) \<in> set (AList.update k v m) \<Longrightarrow> (h, q) = (k, v) \<or> (h, q) \<in> set m"
  using set_update_subset by fastforce

lemma installed_entries:
  assumes "(h, q) \<in> set (pendings (installed s (k, ref) ok))"
  shows "\<exists>p. (h, p) \<in> set (pendings s) \<and> continues p q"
proof (cases "map_of (pendings s) k")
  case None
  then show ?thesis using assms by (force simp: installed_def Let_def split: if_splits)
next
  case (Some p)
  let ?q = "p\<lparr>p_session := (p_session p)\<lparr>PSK := zeros 32\<rparr>, p_accepted := True\<rparr>"
  have "continues p ?q" by (simp add: continues_def)
  moreover have "(h, q) = (k, ?q) \<or> (h, q) \<in> set (pendings s)"
    using assms Some
    by (auto simp: installed_def Let_def set_delete_eq split: if_splits dest: set_update_cases)
  ultimately show ?thesis using map_of_SomeD [OF Some] continues_refl by blast
qed

lemma handle_finish_entries:
  assumes "handle_finish C src b s = (t, out, ses)" "(h, q) \<in> set (pendings t)"
  shows "\<exists>p. (h, p) \<in> set (pendings s) \<and> continues p q"
  using assms(1)
proof (cases rule: handle_finish_cases)
  case (selected p)
  have "continues p (p\<lparr>p_installing := True\<rparr>)" by (simp add: continues_def)
  moreover have "(take hashSize b, p) \<in> set (pendings s)"
    using selected(1) by (auto simp: finish_ok_def dest: map_of_SomeD)
  ultimately show ?thesis
    using assms(2) selected(5) continues_refl by (auto dest!: set_update_cases)
qed (use assms(2) in \<open>auto intro: continues_refl\<close>)

lemma serve_entries:
  assumes "(h, q) \<in> set (pendings (serve C fl s e))"
  obtains (old) p where "(h, p) \<in> set (pendings s)" "continues p q"
  | (new) oc src pkt now b pid pub where "e = EvHandle oc src pkt now"
      "admits C fl oc src pkt now s b pid pub q"
proof (cases e)
  case (EvHandle oc src pkt now)
  obtain t out ses where res: "Handle C fl oc src pkt now s = (t, out, ses)" by (metis prod_cases3)
  then have q: "(h, q) \<in> set (pendings t)" using assms EvHandle by simp
  from res show thesis
  proof (cases rule: Handle_cases)
    case (finish b)
    then show thesis using handle_finish_entries [OF finish(2) q] old by auto
  next
    case (hello b)
    then show thesis
    proof (cases rule: handle_hello_admits)
      case (stored pid pub q')
      then show thesis
        using q EvHandle old new by (auto simp: hello_stored_def dest!: set_update_cases)
    qed (use q old in \<open>auto simp: same_core_def\<close>)
  qed (use q old in auto)
next
  case (EvInstalled k ref ok)
  then show thesis using assms installed_entries old by (metis serve.simps(4))
qed (use assms old in \<open>auto simp: Close_def\<close>)

lemma next_ref_serve: "next_ref s \<le> next_ref (serve C fl s e)"
proof (cases e)
  case (EvHandle oc src pkt now)
  obtain t out ses where res: "Handle C fl oc src pkt now s = (t, out, ses)" by (metis prod_cases3)
  then have "next_ref s \<le> next_ref t"
  proof (cases rule: Handle_cases)
    case (finish b)
    from finish(2) show ?thesis by (cases rule: handle_finish_cases) auto
  next
    case (hello b)
    then show ?thesis by (cases rule: handle_hello_admits) (auto simp: same_core_def hello_stored_def)
  qed auto
  with EvHandle res show ?thesis by simp
qed (auto simp: Close_def installed_def Let_def split: option.splits)

lemma serve_config:
  "Public (serve C fl s e) = Public s" "ServerKeys (serve C fl s e) = ServerKeys s"
  "Authorized (serve C fl s e) = auth_after (Authorized s) [e]"
proof -
  have "Public t = Public s \<and> ServerKeys t = ServerKeys s \<and> Authorized t = Authorized s"
    if "Handle C fl oc src pkt now s = (t, out, ses)" for oc src pkt now t out ses
    using that
  proof (cases rule: Handle_cases)
    case (finish b)
    from finish(2) show ?thesis by (cases rule: handle_finish_cases) auto
  next
    case (hello b)
    then show ?thesis
      by (cases rule: handle_hello_admits) (auto simp: same_core_def hello_stored_def charged_def)
  qed auto
  from this [OF prod.collapse [symmetric, THEN trans]] this show
    "Public (serve C fl s e) = Public s" "ServerKeys (serve C fl s e) = ServerKeys s"
    "Authorized (serve C fl s e) = auth_after (Authorized s) [e]"
    by (cases e; simp add: Close_def installed_def Let_def split: option.splits; metis prod.collapse)+
qed

section \<open>The origin of a transcript\<close>

text \<open>
  An entry of the table was admitted by a hello of the run: a valid frame from the entry's own source,
  signed by the key of the entry's peer, which was authorized at that moment.
\<close>

definition peers_of :: "peer_seq \<Rightarrow> (bytes \<times> bytes) set" where
  "peers_of auth = (case auth of None \<Rightarrow> {} | Some ps \<Rightarrow> set ps)"

definition signed_hello ::
  "crypto \<Rightarrow> bytes \<Rightarrow> peer_seq \<Rightarrow> bytes \<Rightarrow> bytes \<Rightarrow> gotime \<Rightarrow> bytes \<Rightarrow> keys \<Rightarrow> bool" where
  "signed_hello C spub auth src pkt now pid ks \<longleftrightarrow>
     (\<exists>b pub. Parse pkt = Some (ClientHello, b) \<and> (pid, pub) \<in> peers_of auth \<and> ID C pub = pid \<and>
        verify C pub ClientContext (frame ClientHello (take helloSize b)) (drop helloSize b) \<and>
        ks = \<lparr>WG = slice 32 64 b, Disco = slice 64 96 b\<rparr> \<and> src = WG ks \<and>
        slice 128 160 b = ID C spub \<and> \<bar>hello_stamp b - unix now\<bar> \<le> 120)"

definition origin :: "crypto \<Rightarrow> bytes \<Rightarrow> peer_seq \<Rightarrow> server_event list \<Rightarrow> pending \<Rightarrow> bool" where
  "origin C spub auth es p \<longleftrightarrow>
     (\<exists>es1 oc pkt now es2. es = es1 @ EvHandle oc (p_source p) pkt now # es2 \<and>
        signed_hello C spub (auth_after auth es1) (p_source p) pkt now (Peer (p_session p))
          (Keys (p_session p)) \<and>
        p_expires p = now + 30 * second)"

lemma resolve_peers:
  "resolve C auth tag nonce = (pid, pub) \<Longrightarrow> pub \<noteq> [] \<Longrightarrow>
   (pid, pub) \<in> peers_of auth \<and> peerTag C pid nonce = tag"
proof -
  have "resolve_list C ps tag nonce = (pid, pub) \<Longrightarrow> pub \<noteq> [] \<Longrightarrow>
      (pid, pub) \<in> set ps \<and> peerTag C pid nonce = tag" for ps
    by (induction ps) (auto split: if_splits)
  then show "resolve C auth tag nonce = (pid, pub) \<Longrightarrow> pub \<noteq> [] \<Longrightarrow>
      (pid, pub) \<in> peers_of auth \<and> peerTag C pid nonce = tag"
    by (auto simp: resolve_def peers_of_def split: option.splits)
qed

lemma admits_signed:
  assumes "admits C fl oc src pkt now s b pid pub q"
  shows "signed_hello C (Public s) (Authorized s) src pkt now (Peer (p_session q)) (Keys (p_session q))"
    "p_source q = src" "p_expires q = now + 30 * second" "p_ref q = next_ref s"
    "\<not> p_installing q" "\<not> p_accepted q"
  using assms
  by (auto simp: admits_def signed_hello_def hello_guards_def hello_header_ok_def hello_fresh_def
      dest!: resolve_peers)

lemma auth_after_append: "auth_after auth (es @ fs) = auth_after (auth_after auth es) fs"
proof (induction es arbitrary: auth)
  case (Cons e es)
  then show ?case by (cases e) auto
qed simp

lemma origin_snoc: "origin C spub auth es p \<Longrightarrow> origin C spub auth (es @ [e]) p"
  by (force simp: origin_def)

lemma origin_continues: "origin C spub auth es p \<Longrightarrow> continues p q \<Longrightarrow> origin C spub auth es q"
  by (simp add: origin_def continues_def)

lemma runs_snoc: "runs step s (es @ [e]) u \<longleftrightarrow> (\<exists>t. runs step s es t \<and> step t e u)"
  by (auto simp: runs_append runs_Cons_iff)

lemma run_last:
  assumes "runs (server_step C fl) s (es @ [e]) u"
  obtains t where "runs (server_step C fl) s es t" "u = serve C fl t e"
  using assms by (metis runs_snoc server_step_iff)

lemma run_config:
  "runs (server_step C fl) s es t \<Longrightarrow>
   Public t = Public s \<and> ServerKeys t = ServerKeys s \<and> Authorized t = auth_after (Authorized s) es"
proof (induction rule: runs.induct)
  case (runs_cons s e t es u)
  then show ?case
    using serve_config [of C fl s e] auth_after_append [of "Authorized s" "[e]" es]
    by (simp add: server_step_iff)
qed simp

lemma run_origin:
  assumes "runs (server_step C fl) (new_server spub ks auth) es s" "(h, p) \<in> set (pendings s)"
  shows "origin C spub auth es p"
  using assms
proof (induction es arbitrary: s h p rule: rev_induct)
  case Nil
  then show ?case by (simp add: new_server_def)
next
  case (snoc e es)
  obtain u where u: "runs (server_step C fl) (new_server spub ks auth) es u" "s = serve C fl u e"
    using snoc.prems(1) by (rule run_last)
  have cfg: "Public u = spub" "Authorized u = auth_after auth es"
    using run_config [OF u(1)] by (simp_all add: new_server_def)
  from snoc.prems(2) [unfolded u(2)] show ?case
  proof (cases rule: serve_entries)
    case (old p')
    then show ?thesis using snoc.IH [OF u(1)] origin_snoc origin_continues by blast
  next
    case (new oc src pkt now b pid pub)
    with admits_signed [OF new(2)] cfg show ?thesis by (auto simp: origin_def)
  qed
qed

section \<open>Sessions are handed out once\<close>

text \<open>An allocation is spent once its session has left the server.\<close>

definition spent :: "nat \<Rightarrow> server \<Rightarrow> bool" where
  "spent ref s \<longleftrightarrow> ref < next_ref s \<and> (\<forall>e \<in> set (pendings s). p_ref (snd e) = ref \<longrightarrow> p_installing (snd e))"

definition handle_of :: "session \<Rightarrow> nat" where
  "handle_of ses = snd (the (Installed ses))"

lemma spent_serve:
  assumes "spent ref s"
  shows "spent ref (serve C fl s e)"
proof -
  have "p_installing q" if "(h, q) \<in> set (pendings (serve C fl s e))" "p_ref q = ref" for h q
    using that(1)
  proof (cases rule: serve_entries)
    case (old p)
    then show ?thesis using assms that(2) by (auto simp: spent_def continues_def)
  next
    case (new oc src pkt now b pid pub)
    then show ?thesis using assms that(2) admits_signed(4) [OF new(2)] by (simp add: spent_def)
  qed
  then show ?thesis
    using assms next_ref_serve [of s C fl e] by (auto simp: spent_def intro: less_le_trans)
qed

lemma Handle_session:
  assumes "Handle C fl oc src pkt now s = (t, out, Some ses)"
  obtains b p where "Parse pkt = Some (ClientFinish, b)" "finish_ok C src b (Expire now s) p"
    "\<not> p_accepted p" "\<not> p_installing p" "out = finish_ack C (take hashSize b) p"
    "ses = (p_session p)\<lparr>Installed := Some (take hashSize b, p_ref p)\<rparr>"
    "t = (Expire now s)\<lparr>pendings := AList.update (take hashSize b) (p\<lparr>p_installing := True\<rparr>)
           (filter (\<lambda>e. \<not> rival p src e) (pendings (Expire now s)))\<rparr>"
    "\<forall>e \<in> set (pendings (Expire now s)). rival p src e \<longrightarrow> \<not> outstanding (snd e)"
  using assms
proof (cases rule: Handle_cases)
  case (finish b)
  from finish(2) show thesis by (cases rule: handle_finish_cases) (use finish(1) that in auto)
next
  case (hello b)
  then show thesis by (cases rule: handle_hello_admits) auto
qed auto

lemma finish_ok_member:
  "finish_ok C src b (Expire now s) p \<Longrightarrow>
   (take hashSize b, p) \<in> set (pendings s) \<and> now < p_expires p \<and> p_source p = src"
  by (auto simp: finish_ok_def dest!: map_of_SomeD)

text \<open>A session that is handed out was opened by a hello of the same source and peer.\<close>

lemma session_origin:
  assumes "runs (server_step C fl) (new_server spub ks auth) es s"
    "Handle C fl oc src pkt now s = (t, out, Some ses)"
  obtains p where "origin C spub auth es p" "p_source p = src" "now < p_expires p" "Peer (p_session p) = Peer ses"
    "Keys (p_session p) = Keys ses" "Lookup (auth_after auth es) (Peer ses) \<noteq> []"
proof -
  obtain b p where p: "finish_ok C src b (Expire now s) p"
    "ses = (p_session p)\<lparr>Installed := Some (take hashSize b, p_ref p)\<rparr>"
    using assms(2) by (rule Handle_session)
  note m = finish_ok_member [OF p(1)]
  have "origin C spub auth es p" using run_origin [OF assms(1)] m by blast
  moreover have "Lookup (auth_after auth es) (Peer ses) \<noteq> []"
    using p run_config [OF assms(1)] by (simp add: finish_ok_def new_server_def)
  ultimately show thesis using m p(2) by (intro that [of p]) simp_all
qed

lemma handed_fresh:
  assumes "ses \<in> set (handed_by C fl s e)"
  obtains h p where "(h, p) \<in> set (pendings s)" "p_ref p = handle_of ses" "\<not> p_installing p"
proof (cases e)
  case (EvHandle oc src pkt now)
  obtain t out r where res: "Handle C fl oc src pkt now s = (t, out, r)" by (metis prod_cases3)
  with assms EvHandle have "r = Some ses" by (auto split: option.splits)
  with res have "Handle C fl oc src pkt now s = (t, out, Some ses)" by simp
  then show thesis
    by (rule Handle_session) (use that finish_ok_member in \<open>force simp: handle_of_def\<close>)
qed (use assms in auto)

lemma handed_spent:
  assumes "tables_ok s" "ses \<in> set (handed_by C fl s e)"
  shows "spent (handle_of ses) (serve C fl s e)"
proof (cases e)
  case (EvHandle oc src pkt now)
  obtain t out r where res: "Handle C fl oc src pkt now s = (t, out, r)" by (metis prod_cases3)
  with assms EvHandle have "r = Some ses" by (auto split: option.splits)
  with res have H: "Handle C fl oc src pkt now s = (t, out, Some ses)" by simp
  have pk: "pend_ok (next_ref s) (pendings s)" using assms(1) by (simp add: tables_ok_def)
  from H obtain b p where p: "finish_ok C src b (Expire now s) p"
    "ses = (p_session p)\<lparr>Installed := Some (take hashSize b, p_ref p)\<rparr>"
    and t: "t = (Expire now s)\<lparr>pendings := AList.update (take hashSize b) (p\<lparr>p_installing := True\<rparr>)
           (filter (\<lambda>e. \<not> rival p src e) (pendings (Expire now s)))\<rparr>"
    by (rule Handle_session)
  have mem: "(take hashSize b, p) \<in> set (pendings s)" using finish_ok_member [OF p(1)] by simp
  have "p_ref p < next_ref s" using pk mem by (auto simp: pend_ok_def set_refs)
  moreover have "p_installing q" if "(h, q) \<in> set (pendings t)" "p_ref q = p_ref p" for h q
  proof -
    have "mdistinct (filter (\<lambda>e. \<not> rival p src e) (pendings (Expire now s)))"
      using pk by (simp add: pend_ok_def pendings_Expire mdistinct_filter)
    then have "(h, q) = (take hashSize b, p\<lparr>p_installing := True\<rparr>) \<or>
        ((h, q) \<in> set (pendings s) \<and> h \<noteq> take hashSize b)"
      using that(1) by (auto simp: t set_update_distinct)
    then show ?thesis using pend_ok_ref_key [OF pk mem, of "(h, q)"] that(2) by auto
  qed
  ultimately show ?thesis using EvHandle res t p(2) by (auto simp: spent_def handle_of_def)
qed (use assms in auto)

lemma spent_not_handed:
  assumes "spent ref s" "ieee fl" "server_inv s" "list_all clocked es"
  shows "ref \<notin> handle_of ` set (handed C fl s es)"
  using assms
proof (induction es arbitrary: s)
  case (Cons e es)
  have "handle_of ses \<noteq> ref" if "ses \<in> set (handed_by C fl s e)" for ses
    using that by (rule handed_fresh) (use Cons.prems(1) in \<open>auto simp: spent_def\<close>)
  moreover have "server_inv (serve C fl s e)"
    using server_inv_step Cons.prems by (simp add: server_step_iff)
  ultimately show ?case using Cons.IH [of "serve C fl s e"] Cons.prems spent_serve by auto
qed simp

lemma handed_distinct:
  assumes "ieee fl" "server_inv s" "list_all clocked es"
  shows "distinct (map handle_of (handed C fl s es))"
  using assms
proof (induction es arbitrary: s)
  case (Cons e es)
  have inv: "server_inv (serve C fl s e)"
    using server_inv_step Cons.prems by (simp add: server_step_iff)
  have "length (handed_by C fl s e) \<le> 1" by (cases e) (auto split: option.splits)
  then have "distinct (map handle_of (handed_by C fl s e))"
    by (cases "handed_by C fl s e") auto
  moreover have "handle_of ses \<notin> handle_of ` set (handed C fl (serve C fl s e) es)"
    if "ses \<in> set (handed_by C fl s e)" for ses
    using handed_spent that Cons.prems inv by (intro spent_not_handed) (auto simp: server_inv_def)
  ultimately show ?case using Cons inv by auto
qed simp

section \<open>How long a hello is remembered\<close>

fun event_clock :: "server_event \<Rightarrow> gotime option" where
  "event_clock (EvHandle oc src pkt now) = Some now"
| "event_clock (EvExpire now) = Some now"
| "event_clock e = None"

definition quiet_until :: "gotime \<Rightarrow> server_event list \<Rightarrow> bool" where
  "quiet_until T es \<longleftrightarrow> EvClose \<notin> set es \<and> (\<forall>e \<in> set es. \<forall>now. event_clock e = Some now \<longrightarrow> now \<le> T)"

lemma remembered_hello:
  assumes "handle_hello C fl oc src pkt b now s = (t, out, ses)" "(k, x) \<in> set (replay s)"
    "mdistinct (replay s)"
  shows "(k, x) \<in> set (replay t)"
  using assms(1)
proof (cases rule: handle_hello_cases)
  case (admitted pid pub)
  let ?rk = "sha384 C (join [pid, slice 96 128 b])"
  have "k \<noteq> ?rk" using admitted(1) assms(2) by (force simp: hello_guards_def)
  from admitted(2) show ?thesis
    by (cases rule: hello_respond_cases)
      (use assms(2,3) \<open>k \<noteq> ?rk\<close> in \<open>auto simp: hello_stored_def set_update_distinct\<close>)
qed (use assms in \<open>auto simp: same_core_def\<close>)

lemma remembered_serve:
  assumes "(k, x) \<in> set (replay s)" "mdistinct (replay s)" "e \<noteq> EvClose"
    "\<And>now. event_clock e = Some now \<Longrightarrow> now < x"
  shows "(k, x) \<in> set (replay (serve C fl s e))"
proof (cases e)
  case (EvHandle oc src pkt now)
  obtain t out r where res: "Handle C fl oc src pkt now s = (t, out, r)" by (metis prod_cases3)
  have ex: "(k, x) \<in> set (replay (Expire now s))" "mdistinct (replay (Expire now s))"
    using assms EvHandle by (auto simp: replay_Expire mdistinct_filter)
  from res have "(k, x) \<in> set (replay t)"
  proof (cases rule: Handle_cases)
    case (finish b)
    from finish(2) show ?thesis by (cases rule: handle_finish_cases) (use ex in auto)
  next
    case (hello b)
    then show ?thesis using remembered_hello ex by blast
  qed (use assms ex in auto)
  with EvHandle res show ?thesis by simp
next
  case (EvInstalled h ref ok)
  then show ?thesis using assms(1) by (simp add: installed_def Let_def split: option.splits)
qed (use assms in \<open>auto simp: replay_Expire\<close>)

lemma remembered_run:
  assumes "runs (server_step C fl) s es t" "ieee fl" "server_inv s" "(k, x) \<in> set (replay s)"
    "quiet_until T es" "T < x"
  shows "(k, x) \<in> set (replay t)"
  using assms
proof (induction rule: runs.induct)
  case (runs_cons s e t es u)
  then have t: "t = serve C fl s e" and inv: "server_inv t"
    using server_inv_step by (auto simp: server_step_iff)
  have "(k, x) \<in> set (replay t)"
    unfolding t using runs_cons.prems
    by (intro remembered_serve) (auto simp: inv_defs quiet_until_def)
  with runs_cons inv show ?case by (auto simp: quiet_until_def)
qed simp

end
