(* ===== verification/Handshake_Honest.thy ===== *)
theory Handshake_Honest
  imports Handshake_History
begin

text \<open>
  A handshake between an honest client and an honest server, message by message. The cryptography is
  assumed to be correct (signatures of the key holder verify, decapsulation returns the encapsulated
  secret), the server to have room and the clocks to agree within two minutes; the result is a session
  on both sides with the same pre-shared key.
\<close>

section \<open>Hypotheses\<close>

record peer =
  h_ident :: identity
  h_pub :: bytes
  h_kem :: kem
  h_kp :: bytes
  h_local :: keys
  h_nonce :: bytes
  h_time :: gotime

definition sized_keys :: "keys \<Rightarrow> bool" where
  "sized_keys ks \<longleftrightarrow> length (WG ks) = 32 \<and> length (Disco ks) = 32"

definition signer :: "crypto \<Rightarrow> bytes \<Rightarrow> string \<Rightarrow> (string \<Rightarrow> bytes \<Rightarrow> bytes option) \<Rightarrow> bool" where
  "signer C pub label sign \<longleftrightarrow> length pub = MLDSA87PublicKeySize \<and> mldsa_key_ok C pub \<and>
     (\<forall>m. \<exists>sig. sign label m = Some sig \<and> length sig = MLDSA87SignatureSize \<and> mldsa_verify C pub label m sig)"

definition honest_client :: "crypto \<Rightarrow> peer \<Rightarrow> bool" where
  "honest_client C P \<longleftrightarrow>
     id_public (h_ident P) = Some (h_pub P) \<and> signer C (h_pub P) ClientContext (id_sign (h_ident P)) \<and>
     kem_public (h_kem P) = Some (h_kp P) \<and> \<not> kem_destroyed (h_kem P) \<and>
     length (h_kp P) = EncapsulationKeySize1024 \<and> mlkem_key_ok C (h_kp P) \<and>
     sized_keys (h_local P) \<and> Disco (h_local P) \<noteq> zeros 32 \<and> length (h_nonce P) = 32 \<and>
     - (2 ^ 63) \<le> unix (h_time P) \<and> unix (h_time P) < 2 ^ 63"

definition honest_server :: "crypto \<Rightarrow> server \<Rightarrow> draws \<Rightarrow> peer \<Rightarrow> bool" where
  "honest_server C s oc P \<longleftrightarrow>
     signer C (Public s) ServerContext (o_sign oc) \<and> sized_keys (ServerKeys s) \<and>
     (\<exists>nonce. o_nonce oc = Some nonce \<and> length nonce = 32) \<and>
     (\<exists>ss ct. o_encap oc (h_kp P) = (ss, ct) \<and> length ct = CiphertextSize1024 \<and>
        kem_secret (h_kem P) ct = Some ss \<and> (\<forall>h. derive C ss h \<noteq> None))"

definition room :: "crypto \<Rightarrow> rounding \<Rightarrow> gotime \<Rightarrow> server \<Rightarrow> peer \<Rightarrow> bool" where
  "room C fl now s P \<longleftrightarrow>
     (let e = Expire now s; pid = ID C (h_pub P) in
      resolve C (Authorized s) (peerTag C pid (h_nonce P)) (h_nonce P) = (pid, h_pub P) \<and>
      Lookup (Authorized s) pid \<noteq> [] \<and>
      snd (charge fl now (WG (h_local P)) (limits e)) \<and> snd (allow fl (global_bucket e) now 64) \<and>
      snd (charge fl now pid (peerLimits e)) \<and>
      sha384 C (join [pid, h_nonce P]) \<notin> mkeys (replay e) \<and>
      length (replay e) < 64 * 301 \<and> length (pendings e) < 256 \<and> owned pid e < 8 \<and>
      (\<forall>(h, p) \<in> set (pendings e). p_source p = WG (h_local P) \<longrightarrow> \<not> outstanding p))"

section \<open>The messages\<close>

definition the_hello :: "crypto \<Rightarrow> peer \<Rightarrow> bytes \<Rightarrow> bytes" where
  "the_hello C P spub =
     join [peerTag C (ID C (h_pub P)) (h_nonce P), WG (h_local P), Disco (h_local P), h_nonce P,
           ID C spub, zeros 32, be_put 8 (nat (unix (h_time P) mod 2 ^ 64)), h_kp P]"

definition the_sig :: "crypto \<Rightarrow> peer \<Rightarrow> bytes \<Rightarrow> bytes" where
  "the_sig C P spub = the (id_sign (h_ident P) ClientContext (frame ClientHello (the_hello C P spub)))"

definition the_client :: "crypto \<Rightarrow> peer \<Rightarrow> bytes \<Rightarrow> keys \<Rightarrow> client" where
  "the_client C P spub ks =
     \<lparr>c_kem = h_kem P, c_hello = the_hello C P spub, c_server = ID C spub, c_serverPublic = spub,
      c_keys = ks, c_ack = []\<rparr>"

lemma signerD:
  assumes "signer C pub label sign"
  shows "sign label m = Some (the (sign label m))" "length (the (sign label m)) = MLDSA87SignatureSize"
    "verify C pub label m (the (sign label m))"
proof -
  obtain sig where "sign label m = Some sig" "length sig = MLDSA87SignatureSize"
    "mldsa_verify C pub label m sig"
    using assms unfolding signer_def by blast
  with assms show "sign label m = Some (the (sign label m))"
    "length (the (sign label m)) = MLDSA87SignatureSize" "verify C pub label m (the (sign label m))"
    by (simp_all add: verify_def signer_def)
qed

lemma length_the_hello:
  "crypto_ok C \<Longrightarrow> honest_client C P \<Longrightarrow> length (the_hello C P spub) = helloSize"
  by (simp add: the_hello_def honest_client_def sized_keys_def size_defs)

lemma the_hello_fields:
  assumes "crypto_ok C" "honest_client C P"
  shows "take 32 (the_hello C P spub @ x) = peerTag C (ID C (h_pub P)) (h_nonce P)"
    "slice 32 64 (the_hello C P spub @ x) = WG (h_local P)"
    "slice 64 96 (the_hello C P spub @ x) = Disco (h_local P)"
    "slice 96 128 (the_hello C P spub @ x) = h_nonce P"
    "slice 128 160 (the_hello C P spub @ x) = ID C spub"
    "slice 160 192 (the_hello C P spub @ x) = zeros 32"
    "slice 192 200 (the_hello C P spub @ x) = be_put 8 (nat (unix (h_time P) mod 2 ^ 64))"
    "drop 200 (the_hello C P spub) = h_kp P"
  using assms by (simp_all add: the_hello_def honest_client_def sized_keys_def slice_def)

lemma NewClient_honest:
  assumes "crypto_ok C" "honest_client C P" "length spub = MLDSA87PublicKeySize"
  shows "NewClient C (h_ident P) (Some (h_kem P)) spub (h_local P) ks (h_time P) (Some (h_nonce P)) =
    (Some (h_kem P), Inr (the_client C P spub ks, frame ClientHello (the_hello C P spub @ the_sig C P spub)))"
proof -
  have sg: "signer C (h_pub P) ClientContext (id_sign (h_ident P))" using assms(2) by (simp add: honest_client_def)
  have "id_sign (h_ident P) ClientContext (frame ClientHello (the_hello C P spub)) = Some (the_sig C P spub)"
    unfolding the_sig_def by (rule signerD(1) [OF sg])
  with assms(2,3) show ?thesis
    by (simp add: NewClient_def honest_client_def the_client_def Let_def the_hello_def)
qed

lemma sint_word_of_int_64:
  "- 9223372036854775808 \<le> i \<Longrightarrow> i < 9223372036854775808 \<Longrightarrow> sint (word_of_int i :: 64 word) = i"
  by (simp add: signed_of_int signed_take_bit_int_eq_self)

lemma hello_stamp_honest:
  assumes "crypto_ok C" "honest_client C P"
  shows "hello_stamp (the_hello C P spub @ x) = unix (h_time P)"
proof -
  have "hello_stamp (the_hello C P spub @ x) = sint (of_int (unix (h_time P) mod 2 ^ 64) :: 64 word)"
    using nat_less_iff [of "unix (h_time P) mod 2 ^ 64" "2 ^ 64"]
    by (simp add: hello_stamp_def the_hello_fields [OF assms] be_get_be_put nat_mod_as_int)
  also have "(of_int (unix (h_time P) mod 2 ^ 64) :: 64 word) = of_int (unix (h_time P))"
    by (simp add: word_of_int_eq_iff take_bit_eq_mod)
  also have "sint (of_int (unix (h_time P)) :: 64 word) = unix (h_time P)"
    using assms(2) by (simp add: honest_client_def sint_word_of_int_64)
  finally show ?thesis .
qed


section \<open>The server's answer\<close>

definition the_nonce :: "draws \<Rightarrow> bytes" where "the_nonce oc = the (o_nonce oc)"
definition the_ct :: "draws \<Rightarrow> peer \<Rightarrow> bytes" where "the_ct oc P = snd (o_encap oc (h_kp P))"

definition the_transcript :: "crypto \<Rightarrow> server \<Rightarrow> draws \<Rightarrow> peer \<Rightarrow> bytes \<times> bytes" where
  "the_transcript C s oc P =
     transcript C (the_hello C P (Public s)) (ID C (Public s)) (ServerKeys s) (the_nonce oc) (the_ct oc P)"

definition the_secrets :: "crypto \<Rightarrow> server \<Rightarrow> draws \<Rightarrow> peer \<Rightarrow> bytes \<times> bytes" where
  "the_secrets C s oc P = the (derive C (fst (o_encap oc (h_kp P))) (snd (the_transcript C s oc P)))"

definition the_packet :: "crypto \<Rightarrow> peer \<Rightarrow> bytes \<Rightarrow> bytes" where
  "the_packet C P spub = frame ClientHello (the_hello C P spub @ the_sig C P spub)"

definition the_response :: "crypto \<Rightarrow> server \<Rightarrow> draws \<Rightarrow> peer \<Rightarrow> bytes" where
  "the_response C s oc P =
     server_hello C s (the_nonce oc) (the_ct oc P)
       (the (o_sign oc ServerContext (fst (the_transcript C s oc P))))
       (snd (the_secrets C s oc P)) (snd (the_transcript C s oc P))"

definition the_entry :: "crypto \<Rightarrow> server \<Rightarrow> draws \<Rightarrow> peer \<Rightarrow> gotime \<Rightarrow> pending" where
  "the_entry C s oc P now =
     new_pending C (next_ref s) (ID C (h_pub P)) (WG (h_local P)) (the_packet C P (Public s))
       (the_hello C P (Public s) @ the_sig C P (Public s)) now (snd (the_transcript C s oc P))
       (fst (the_secrets C s oc P)) (snd (the_secrets C s oc P)) (the_response C s oc P)"

definition after_hello :: "crypto \<Rightarrow> rounding \<Rightarrow> server \<Rightarrow> draws \<Rightarrow> peer \<Rightarrow> gotime \<Rightarrow> server" where
  "after_hello C fl s oc P now =
     hello_stored C (sha384 C (join [ID C (h_pub P), h_nonce P])) (the_entry C s oc P now) now
       (charged fl now (WG (h_local P)) (ID C (h_pub P)) (Expire now s))"

lemma honest_serverD:
  assumes "honest_server C s oc P"
  shows "o_nonce oc = Some (the_nonce oc)" "length (the_nonce oc) = 32"
    "o_encap oc (h_kp P) = (fst (o_encap oc (h_kp P)), the_ct oc P)"
    "length (the_ct oc P) = CiphertextSize1024"
    "kem_secret (h_kem P) (the_ct oc P) = Some (fst (o_encap oc (h_kp P)))"
    "derive C (fst (o_encap oc (h_kp P))) (snd (the_transcript C s oc P)) = Some (the_secrets C s oc P)"
    "signer C (Public s) ServerContext (o_sign oc)"
  using assms by (auto simp: honest_server_def the_nonce_def the_ct_def the_secrets_def)

lemma length_the_sig:
  "honest_client C P \<Longrightarrow> length (the_sig C P spub) = MLDSA87SignatureSize"
  using signerD(2) by (auto simp: the_sig_def honest_client_def)

lemma Parse_frame: "payload_size k = Some (length p) \<Longrightarrow> Parse (frame k p) = Some (k, p)"
  using frame_codec.dec_enc [of "(k, p)"] by simp

lemma Parse_the_packet:
  "crypto_ok C \<Longrightarrow> honest_client C P \<Longrightarrow>
   Parse (the_packet C P spub) = Some (ClientHello, the_hello C P spub @ the_sig C P spub)"
  unfolding the_packet_def
  by (rule Parse_frame) (simp add: length_the_hello length_the_sig payload_size_def)

lemma hello_respond_honest:
  assumes C: "crypto_ok C" "honest_client C P" and S: "honest_server C s oc P"
    and u: "Public u = Public s" "ServerKeys u = ServerKeys s" "next_ref u = next_ref s"
  shows "hello_respond C oc (ID C (h_pub P)) (WG (h_local P)) (the_packet C P (Public s))
      (the_hello C P (Public s) @ the_sig C P (Public s)) now rkey u =
    (hello_stored C rkey (the_entry C s oc P now) now u, the_response C s oc P, None)"
proof -
  note D = honest_serverD [OF S]
  have sig: "o_sign oc ServerContext (fst (the_transcript C s oc P)) =
      Some (the (o_sign oc ServerContext (fst (the_transcript C s oc P))))"
    by (rule signerD(1) [OF D(7)])
  obtain tb hash where tr: "the_transcript C s oc P = (tb, hash)" by fastforce
  obtain ss where enc: "o_encap oc (h_kp P) = (ss, the_ct oc P)" using D(3) by metis
  obtain psk hk where sec: "the_secrets C s oc P = (psk, hk)" by fastforce
  have der: "derive C ss hash = Some (psk, hk)" using D(6) enc tr sec by simp
  obtain sg where sg: "o_sign oc ServerContext tb = Some sg" using sig tr by simp
  have tr': "transcript C (the_hello C P (Public s)) (ID C (Public s)) (ServerKeys s) (the_nonce oc)
      (the_ct oc P) = (tb, hash)"
    using tr by (simp add: the_transcript_def)
  show ?thesis
    by (simp add: hello_respond_def length_the_hello [OF C] the_hello_fields(8) [OF C] enc D(1) u tr' tr
        der sg the_response_def the_entry_def sec hello_stored_def server_hello_def Let_def)
qed

lemma Handle_hello_honest:
  assumes C: "crypto_ok C" "honest_client C P" and S: "honest_server C s oc P"
    and R: "room C fl now s P" and near: "\<bar>unix (h_time P) - unix now\<bar> \<le> 120"
  shows "Handle C fl oc (WG (h_local P)) (the_packet C P (Public s)) now s =
    (after_hello C fl s oc P now, the_response C s oc P, None)"
proof -
  let ?b = "the_hello C P (Public s) @ the_sig C P (Public s)" and ?e = "Expire now s"
  let ?pid = "ID C (h_pub P)" and ?src = "WG (h_local P)"
  note F = the_hello_fields(1-7) [OF C, where x = "the_sig C P (Public s)"]
  have hd: "hello_header_ok C ?e ?src ?b" "hello_fresh now ?b"
    using C(2) near by (auto simp: hello_header_ok_def F honest_client_def hello_fresh_def hello_stamp_honest [OF C])
  have sg: "signer C (h_pub P) ClientContext (id_sign (h_ident P))" using C(2) by (simp add: honest_client_def)
  have ver: "verify C (h_pub P) ClientContext (frame ClientHello (the_hello C P (Public s))) (the_sig C P (Public s))"
    unfolding the_sig_def by (rule signerD(3) [OF sg])
  obtain lim where lim: "charge fl now ?src (limits ?e) = (lim, True)"
    using R by (cases "charge fl now ?src (limits ?e)") (simp add: room_def Let_def)
  obtain g where g: "allow fl (global_bucket s) now 64 = (g, True)"
    using R by (cases "allow fl (global_bucket s) now 64") (simp add: room_def Let_def)
  obtain pl where pl: "charge fl now ?pid (peerLimits ?e) = (pl, True)"
    using R by (cases "charge fl now ?pid (peerLimits ?e)") (simp add: room_def Let_def)
  have pubne: "h_pub P \<noteq> []" using sg by (auto simp: signer_def size_defs)
  have kem: "mlkem_key_ok C (drop 200 (the_hello C P (Public s)))"
    using C(2) by (simp add: the_hello_fields(8) [OF C] honest_client_def)
  have "hello_respond C oc ?pid ?src (the_packet C P (Public s)) ?b now (sha384 C (join [?pid, h_nonce P]))
      (charged fl now ?src ?pid ?e) =
    (after_hello C fl s oc P now, the_response C s oc P, None)"
    unfolding after_hello_def by (rule hello_respond_honest [OF C S]) (simp_all add: charged_def)
  moreover have "charged fl now ?src ?pid ?e = ?e\<lparr>limits := lim, global_bucket := g, peerLimits := pl\<rparr>"
    by (simp add: charged_def lim g pl)
  ultimately have "hello_admit C fl oc ?pid (h_pub P) ?src (the_packet C P (Public s)) ?b now
      (sha384 C (join [?pid, h_nonce P])) (?e\<lparr>limits := lim, global_bucket := g\<rparr>) =
    (after_hello C fl s oc P now, the_response C s oc P, None)"
    using R ver kem by (simp add: hello_admit_def room_def Let_def pl length_the_hello [OF C] owned_def)
  moreover have "resolve C (Authorized s) (take 32 ?b) (slice 96 128 ?b) = (?pid, h_pub P)"
    "sha384 C (join [?pid, slice 96 128 ?b]) \<notin> mkeys (replay ?e)"
    using R unfolding F by (simp_all add: room_def Let_def)
  ultimately have "handle_hello C fl oc ?src (the_packet C P (Public s)) ?b now ?e =
    (after_hello C fl s oc P now, the_response C s oc P, None)"
    using hd pubne by (simp add: handle_hello_def lim g F del: take_append)
  then show ?thesis
    by (simp add: Handle_def Parse_the_packet [OF C] ClientFinish_def ClientHello_def)
qed

section \<open>The client's completion and the server's acceptance\<close>

definition the_hash :: "crypto \<Rightarrow> server \<Rightarrow> draws \<Rightarrow> peer \<Rightarrow> bytes" where
  "the_hash C s oc P = snd (the_transcript C s oc P)"

definition the_finish :: "crypto \<Rightarrow> server \<Rightarrow> draws \<Rightarrow> peer \<Rightarrow> bytes" where
  "the_finish C s oc P = frame ClientFinish (the_hash C s oc P @
     proof_mac C (snd (the_secrets C s oc P)) ''client-finished'' (the_hash C s oc P))"

definition the_ack :: "crypto \<Rightarrow> server \<Rightarrow> draws \<Rightarrow> peer \<Rightarrow> bytes" where
  "the_ack C s oc P = frame ServerAccepted (the_hash C s oc P @
     proof_mac C (snd (the_secrets C s oc P)) ''server-accepted'' (the_hash C s oc P))"

lemma length_proof_mac [simp]: "crypto_ok C \<Longrightarrow> length (proof_mac C k l h) = 48"
  by (simp add: proof_mac_def crypto_okD)

lemma length_the_hash [simp]: "crypto_ok C \<Longrightarrow> length (the_hash C s oc P) = 48"
  by (simp add: the_hash_def the_transcript_def snd_transcript crypto_okD)

lemma Complete_error_same: "Complete C c packet = (c', Inl e) \<Longrightarrow> c' = c"
  by (auto simp: Complete_def Let_def split: option.splits prod.splits if_splits)

lemma server_hello_fields:
  assumes "length sid = 32" "length w = 32" "length d = 32" "length nonce = 32"
    "length ct = CiphertextSize1024" "length sig = MLDSA87SignatureSize" "length mac = proofSize"
    "b = sid @ w @ d @ nonce @ ct @ sig @ mac"
  shows "length b = serverSize" "take 32 b = sid" "slice 32 64 b = w" "slice 64 96 b = d"
    "slice 96 128 b = nonce" "slice 128 (128 + CiphertextSize1024) b = ct"
    "slice (128 + CiphertextSize1024) (length b - proofSize) b = sig" "drop (length b - proofSize) b = mac"
  using assms(1-7) unfolding assms(8) by (simp_all add: slice_def size_defs)

lemma Complete_honest:
  assumes C: "crypto_ok C" "honest_client C P" and S: "honest_server C s oc P"
  shows "Complete C (the_client C P (Public s) (ServerKeys s)) (the_response C s oc P) =
    ((the_client C P (Public s) (ServerKeys s))\<lparr>c_kem := Destroy (h_kem P), c_ack := the_ack C s oc P\<rparr>,
     Inr (fst (the_secrets C s oc P), the_finish C s oc P))"
proof -
  note D = honest_serverD [OF S]
  obtain tb hash where tr: "the_transcript C s oc P = (tb, hash)" by fastforce
  obtain psk hk where sec: "the_secrets C s oc P = (psk, hk)" by fastforce
  define sig where "sig = the (o_sign oc ServerContext tb)"
  define mac where "mac = proof_mac C hk ''server-finished'' hash"
  define b where "b = ID C (Public s) @ WG (ServerKeys s) @ Disco (ServerKeys s) @ the_nonce oc @
    the_ct oc P @ sig @ mac"
  have sz: "sized_keys (ServerKeys s)" using S by (simp add: honest_server_def)
  have ver: "verify C (Public s) ServerContext tb sig" and lsig: "length sig = MLDSA87SignatureSize"
    unfolding sig_def by (rule signerD(3) [OF D(7)], rule signerD(2) [OF D(7)])
  have lmac: "length mac = proofSize" using C(1) by (simp add: mac_def proofSize_def)
  have wl: "length (WG (ServerKeys s)) = 32" and dl: "length (Disco (ServerKeys s)) = 32"
    using sz by (simp_all add: sized_keys_def)
  note F = server_hello_fields [OF length_ID [OF C(1)] wl dl D(2) D(4) lsig lmac b_def]
  have "the_response C s oc P = frame ServerHello b"
    by (simp add: the_response_def server_hello_def b_def sec tr sig_def mac_def)
  moreover have "Parse (frame ServerHello b) = Some (ServerHello, b)"
    by (rule Parse_frame) (simp add: F(1) payload_size_def ServerHello_def ClientHello_def)
  ultimately have parse: "Parse (the_response C s oc P) = Some (ServerHello, b)" by simp
  have tr': "transcript C (the_hello C P (Public s)) (ID C (Public s)) (ServerKeys s) (the_nonce oc)
      (the_ct oc P) = (tb, hash)"
    using tr by (simp add: the_transcript_def)
  have dec: "Decapsulate (h_kem P) (the_ct oc P) = Some (fst (o_encap oc (h_kp P)))"
    using D(5) C(2) by (simp add: Decapsulate_def honest_client_def)
  have der: "derive C (fst (o_encap oc (h_kp P))) hash = Some (psk, hk)" using D(6) tr sec by simp
  show ?thesis
    by (simp add: Complete_def parse the_client_def F(2-8) tr' ver dec der Let_def sec the_hash_def tr
        the_ack_def the_finish_def mac_def)
qed

lemma Handle_finish_honest:
  assumes C: "crypto_ok C" "honest_client C P" and S: "honest_server C s oc P"
    and R: "room C fl now s P" and time: "now' < now + 30 * second" "now \<le> now'" and inv: "server_inv s"
  shows "\<exists>u. Handle C fl oc' (WG (h_local P)) (the_finish C s oc P) now' (after_hello C fl s oc P now) =
    (u, the_ack C s oc P,
     Some \<lparr>Peer = ID C (h_pub P), Keys = h_local P, PSK = fst (the_secrets C s oc P),
           Installed = Some (the_hash C s oc P, next_ref s)\<rparr>)"
proof -
  let ?t = "after_hello C fl s oc P now" and ?q = "the_entry C s oc P now" and ?h = "the_hash C s oc P"
  let ?b = "?h @ proof_mac C (snd (the_secrets C s oc P)) ''client-finished'' ?h"
  note F = the_hello_fields(1-7) [OF C, where x = "the_sig C P (Public s)"]
  have parse: "Parse (the_finish C s oc P) = Some (ClientFinish, ?b)"
    unfolding the_finish_def
    by (rule Parse_frame) (simp add: C(1) payload_size_def size_defs)
  have q: "p_hash ?q = ?h" "p_source ?q = WG (h_local P)" "p_expires ?q = now + 30 * second"
    "p_session ?q = \<lparr>Peer = ID C (h_pub P), Keys = h_local P, PSK = fst (the_secrets C s oc P), Installed = None\<rparr>"
    "p_hk ?q = snd (the_secrets C s oc P)" "p_ref ?q = next_ref s" "\<not> p_accepted ?q" "\<not> p_installing ?q"
    by (simp_all add: the_entry_def F the_hash_def)
  have pe: "pendings ?t = AList.update ?h ?q (pendings (Expire now s))"
    by (simp add: after_hello_def hello_stored_def q)
  have d: "mdistinct (pendings (Expire now s))"
    using server_inv_Expire [OF inv] by (simp add: inv_defs pend_ok_def)
  have mem: "map_of (pendings (Expire now' ?t)) ?h = Some ?q"
    unfolding pendings_Expire
    by (rule map_of_filter_keep) (simp_all add: pe AList.update_conv' AList.distinct_update d q time)
  have rivals: "\<not> (rival ?q (WG (h_local P)) e \<and> p_installing (snd e) \<and> \<not> p_accepted (snd e))"
    if "e \<in> set (pendings (Expire now' ?t))" for e
  proof -
    have "e = (?h, ?q) \<or> e \<in> set (pendings (Expire now s))"
      using that set_update_subset [of ?h ?q "pendings (Expire now s)"] by (auto simp: pendings_Expire pe)
    with R q(6) show ?thesis by (auto simp: room_def Let_def rival_def outstanding_def)
  qed
  have auth: "Lookup (Authorized ?t) (ID C (h_pub P)) \<noteq> []"
    using R by (simp add: after_hello_def hello_stored_def charged_def room_def Let_def)
  have ex: "list_ex (\<lambda>e. rival ?q (WG (h_local P)) e \<and> p_installing (snd e) \<and> \<not> p_accepted (snd e))
      (pendings (Expire now' ?t)) = False"
    using rivals by (auto simp: list_ex_iff)
  show ?thesis
    using ex
    by (simp add: Handle_def parse handle_finish_def Let_def C(1) hashSize_def mem q auth the_ack_def)
qed

end
