(* ===== verification/Handshake_Props.thy ===== *)
theory Handshake_Props
  imports Handshake_Honest
begin

text \<open>
  The properties of the handshake, each with an example that meets its hypotheses. The examples use
  \<open>demo\<close>, a record of padding functions in place of the hash, MAC and key-derivation functions, a
  client \<open>demo_peer\<close> that the server \<open>demo_start\<close> authorizes, and the states the server passes through
  in their handshake.
\<close>

section \<open>A concrete instance\<close>

definition pad :: "nat \<Rightarrow> bytes \<Rightarrow> bytes" where
  "pad n m = take n (m @ zeros n)"

definition demo :: crypto where
  "demo = \<lparr>sha384 = pad 48, sha512_256 = pad 32, hmac384 = (\<lambda>k m. pad 48 (k @ m)),
     hkdf_extract = (\<lambda>s salt. Some (pad 48 s)), hkdf_expand = (\<lambda>k info n. Some (pad n (info @ k))),
     mldsa_key_ok = (\<lambda>_. True), mldsa_verify = (\<lambda>_ _ _ _. True), mlkem_key_ok = (\<lambda>_. True)\<rparr>"

definition demo_peer :: peer where
  "demo_peer = \<lparr>h_ident = \<lparr>id_public = Some (replicate 2592 4), id_sign = (\<lambda>_ _. Some (zeros 4627))\<rparr>,
     h_pub = replicate 2592 4,
     h_kem = \<lparr>kem_public = Some (replicate 1568 8), kem_secret = (\<lambda>_. Some (zeros 32)), kem_destroyed = False\<rparr>,
     h_kp = replicate 1568 8, h_local = \<lparr>WG = replicate 32 1, Disco = replicate 32 2\<rparr>,
     h_nonce = replicate 32 3, h_time = second\<rparr>"

definition demo_start :: server where
  "demo_start = new_server (replicate 2592 5) \<lparr>WG = replicate 32 6, Disco = replicate 32 7\<rparr>
     (Some [(ID demo (h_pub demo_peer), h_pub demo_peer)])"

definition demo_draws :: draws where
  "demo_draws = \<lparr>o_encap = (\<lambda>_. (zeros 32, zeros 1568)), o_nonce = Some (replicate 32 9),
     o_sign = (\<lambda>_ _. Some (zeros 4627))\<rparr>"

abbreviation demo_source :: bytes where "demo_source \<equiv> WG (h_local demo_peer)"
abbreviation demo_hello :: bytes where "demo_hello \<equiv> the_packet demo demo_peer (Public demo_start)"
abbreviation demo_finish :: bytes where "demo_finish \<equiv> the_finish demo demo_start demo_draws demo_peer"
abbreviation demo_server :: server where
  "demo_server \<equiv> after_hello demo fixed_point demo_start demo_draws demo_peer second"

lemma length_pad [simp]: "length (pad n m) = n"
  by (simp add: pad_def)

lemma crypto_ok_demo: "crypto_ok demo"
  by (auto simp: crypto_ok_def demo_def)

lemma honest_demo: "honest_client demo demo_peer" "honest_server demo demo_start demo_draws demo_peer"
proof -
  have "replicate 32 (2::byte) \<noteq> zeros 32" by (simp add: zeros_def)
  then show "honest_client demo demo_peer"
    by (simp add: honest_client_def demo_peer_def signer_def sized_keys_def size_defs unix_def second_def demo_def)
  show "honest_server demo demo_start demo_draws demo_peer"
    by (simp add: honest_server_def demo_peer_def demo_start_def demo_draws_def signer_def sized_keys_def
        size_defs new_server_def demo_def derive_def)
qed

lemma demo_psk: "fst (the_secrets demo demo_start demo_draws demo_peer) \<noteq> zeros 32"
proof
  assume "fst (the_secrets demo demo_start demo_draws demo_peer) = zeros 32"
  then have "fst (the_secrets demo demo_start demo_draws demo_peer) ! 0 = 0" by (simp add: zeros_def)
  then show False by (simp add: the_secrets_def derive_def demo_def pad_def bytes_of_def nth_append)
qed

lemma charge_empty: "ieee fl \<Longrightarrow> now \<noteq> 0 \<Longrightarrow> snd (charge fl now k [])"
  by (simp add: charge_def allow_def refill_def zero_bucket_def)

lemma room_fresh:
  assumes "ieee fl" "now \<noteq> 0" "h_pub P \<noteq> []"
  shows "room C fl now (new_server spub ks (Some [(ID C (h_pub P), h_pub P)])) P"
  using assms charge_empty [OF assms(1,2)]
  by (simp add: room_def new_server_def Expire_def Let_def resolve_def Lookup_def owned_def allow_def
      refill_def zero_bucket_def)

lemma room_demo: "room demo fixed_point second demo_start demo_peer"
  unfolding demo_start_def
  by (rule room_fresh [OF ieee_fixed_point]) (simp_all add: second_def demo_peer_def)

lemma demo_inv: "server_inv demo_start"
  by (simp add: demo_start_def server_inv_new)

lemmas demo_facts = crypto_ok_demo honest_demo room_demo demo_inv ieee_fixed_point

lemma demo_hello_step:
  "Handle demo fixed_point demo_draws demo_source demo_hello second demo_start =
     (demo_server, the_response demo demo_start demo_draws demo_peer, None)"
  by (rule Handle_hello_honest [OF demo_facts(1-4)]) (simp add: demo_peer_def)

lemma demo_run:
  "runs (server_step demo fixed_point) demo_start [EvHandle demo_draws demo_source demo_hello second] demo_server"
  by (simp add: runs_Cons_iff server_step_iff demo_hello_step) (simp add: second_def)

lemma demo_server_inv: "server_inv demo_server"
  using reachable_inv [OF ieee_fixed_point] demo_run unfolding demo_start_def by blast

lemma demo_finish_step:
  obtains u ses where
    "Handle demo fixed_point demo_draws demo_source demo_finish (2 * second) demo_server =
      (u, the_ack demo demo_start demo_draws demo_peer, Some ses)"
    "Installed ses = Some (the_hash demo demo_start demo_draws demo_peer, 0)"
    "PSK ses = fst (the_secrets demo demo_start demo_draws demo_peer)"
proof -
  have "next_ref demo_start = 0" by (simp add: demo_start_def new_server_def)
  then show thesis
    using Handle_finish_honest [OF demo_facts(1-4), of "2 * second" demo_draws] demo_inv that
    by (fastforce simp: second_def)
qed

section \<open>Authentication\<close>

text \<open>
  C5. A session is handed out only to an authenticated, still authorized peer. Whatever the server has
  been through since its start, when it hands a session to the transport there was, less than thirty
  seconds ago, a hello from the same transport source that named this server, was fresh within two
  minutes, carried the transport and disco keys of the session, and was signed by an ML-DSA key that
  was authorized at that moment under the peer identifier of the session; and that identifier is
  authorized now.
\<close>

theorem session_authentic:
  assumes "runs (server_step C fl) (new_server spub ks auth) es s"
    "Handle C fl oc src pkt now s = (t, out, Some ses)"
  shows "\<exists>es1 oc' hello t0 es2. es = es1 @ EvHandle oc' src hello t0 # es2 \<and>
    signed_hello C spub (auth_after auth es1) src hello t0 (Peer ses) (Keys ses) \<and>
    now < t0 + 30 * second \<and> Lookup (auth_after auth es) (Peer ses) \<noteq> []"
proof -
  obtain p where "origin C spub auth es p" "p_source p = src" "now < p_expires p" "Peer (p_session p) = Peer ses"
    "Keys (p_session p) = Keys ses" "Lookup (auth_after auth es) (Peer ses) \<noteq> []"
    using assms by (rule session_origin)
  then show ?thesis unfolding origin_def by fastforce
qed

theorem session_authentic_witness:
  "\<exists>t out ses es1 oc' hello t0 es2.
    Handle demo fixed_point demo_draws demo_source demo_finish (2 * second) demo_server = (t, out, Some ses) \<and>
    [EvHandle demo_draws demo_source demo_hello second] = es1 @ EvHandle oc' demo_source hello t0 # es2 \<and>
    signed_hello demo (replicate 2592 5)
      (auth_after (Some [(ID demo (h_pub demo_peer), h_pub demo_peer)]) es1) demo_source hello t0
      (Peer ses) (Keys ses)"
proof -
  obtain u ses where h: "Handle demo fixed_point demo_draws demo_source demo_finish (2 * second) demo_server =
      (u, the_ack demo demo_start demo_draws demo_peer, Some ses)"
    by (rule demo_finish_step)
  show ?thesis
    using session_authentic [OF demo_run [unfolded demo_start_def] h [unfolded demo_start_def]] h
    by (metis demo_start_def)
qed

text \<open>
  What a finish must prove: the session handed out is the one stored under the transcript hash the
  packet names, the packet came from the source that sent the hello, and it carries the MAC under the
  confirmation key of exactly that transcript; the acknowledgement is bound to the same transcript.
\<close>

theorem session_confirmed:
  assumes "Handle C fl oc src pkt now s = (t, out, Some ses)"
  shows "\<exists>h p. (h, p) \<in> set (pendings s) \<and> now < p_expires p \<and> p_source p = src \<and>
    \<not> p_installing p \<and> \<not> p_accepted p \<and>
    Parse pkt = Some (ClientFinish, h @ proof_mac C (p_hk p) ''client-finished'' h) \<and>
    out = frame ServerAccepted (h @ proof_mac C (p_hk p) ''server-accepted'' h) \<and>
    ses = (p_session p)\<lparr>Installed := Some (h, p_ref p)\<rparr>"
proof -
  obtain b p where b: "Parse pkt = Some (ClientFinish, b)" "finish_ok C src b (Expire now s) p"
    "\<not> p_accepted p" "\<not> p_installing p" "out = finish_ack C (take hashSize b) p"
    "ses = (p_session p)\<lparr>Installed := Some (take hashSize b, p_ref p)\<rparr>"
    using assms by (rule Handle_session)
  have "b = take hashSize b @ proof_mac C (p_hk p) ''client-finished'' (take hashSize b)"
    using b(2) append_take_drop_id [of hashSize b] by (simp add: finish_ok_def)
  with b finish_ok_member [OF b(2)] show ?thesis
    by (intro exI [of _ "take hashSize b"] exI [of _ p]) (simp add: finish_ack_def)
qed

theorem session_confirmed_witness:
  "\<exists>t out ses h p.
    Handle demo fixed_point demo_draws demo_source demo_finish (2 * second) demo_server = (t, out, Some ses) \<and>
    (h, p) \<in> set (pendings demo_server) \<and> ses = (p_session p)\<lparr>Installed := Some (h, p_ref p)\<rparr>"
proof -
  obtain u ses where h: "Handle demo fixed_point demo_draws demo_source demo_finish (2 * second) demo_server =
      (u, the_ack demo demo_start demo_draws demo_peer, Some ses)"
    by (rule demo_finish_step)
  show ?thesis using session_confirmed [OF h] h by blast
qed

section \<open>Exclusive and single installation\<close>

text \<open>
  C9. No transcript yields two sessions. In the whole life of a server, whatever the order of packets,
  expirations, callbacks, reloads and closes, the sessions handed to the transport come from pairwise
  distinct allocations.
\<close>

theorem handed_out_once:
  assumes "ieee fl" "list_all clocked es"
  shows "distinct (map handle_of (handed C fl (new_server spub ks auth) es))"
  using assms server_inv_new by (intro handed_distinct) auto

text \<open>A session is handed out for a finish; repeating the finish yields no other session of its transcript.\<close>

theorem handed_out_once_witness:
  "\<exists>ses more. handed demo fixed_point demo_start
     [EvHandle demo_draws demo_source demo_hello second, EvHandle demo_draws demo_source demo_finish (2 * second),
      EvHandle demo_draws demo_source demo_finish (3 * second)] = ses # more \<and>
     Installed ses \<noteq> None \<and> handle_of ses \<notin> set (map handle_of more)"
proof -
  let ?es = "[EvHandle demo_draws demo_source demo_hello second, EvHandle demo_draws demo_source demo_finish (2 * second),
      EvHandle demo_draws demo_source demo_finish (3 * second)]"
  obtain u ses where h: "Handle demo fixed_point demo_draws demo_source demo_finish (2 * second) demo_server =
      (u, the_ack demo demo_start demo_draws demo_peer, Some ses)" "Installed ses \<noteq> None"
    by (rule demo_finish_step) simp
  obtain more where more: "handed demo fixed_point demo_start ?es = ses # more"
    by (simp add: demo_hello_step h(1))
  have "distinct (map handle_of (handed demo fixed_point demo_start ?es))"
    unfolding demo_start_def by (rule handed_out_once [OF ieee_fixed_point]) (simp add: second_def)
  with more h(2) show ?thesis by auto
qed

text \<open>
  C10. Only one installation is outstanding per transport source, and starting one discards every
  competing transcript of the source: when a session is handed out in a reachable state, no entry of
  that source was being installed before, and afterwards the one being installed is the only entry of
  that source.
\<close>

theorem installation_exclusive:
  assumes "ieee fl" "runs (server_step C fl) (new_server spub ks auth) es s"
    "Handle C fl oc src pkt now s = (t, out, Some ses)"
  shows "(\<forall>(h, p) \<in> set (pendings (Expire now s)). p_source p = src \<longrightarrow> \<not> outstanding p) \<and>
    (\<forall>(h, p) \<in> set (pendings t). p_source p = src \<longrightarrow> outstanding p \<and> Installed ses = Some (h, p_ref p))"
proof -
  obtain b p where p: "finish_ok C src b (Expire now s) p" "\<not> p_accepted p" "\<not> p_installing p"
    "ses = (p_session p)\<lparr>Installed := Some (take hashSize b, p_ref p)\<rparr>"
    "t = (Expire now s)\<lparr>pendings := AList.update (take hashSize b) (p\<lparr>p_installing := True\<rparr>)
           (filter (\<lambda>e. \<not> rival p src e) (pendings (Expire now s)))\<rparr>"
    "\<forall>e \<in> set (pendings (Expire now s)). rival p src e \<longrightarrow> \<not> outstanding (snd e)"
    using assms(3) by (rule Handle_session)
  have inv: "pend_ok (next_ref s) (pendings (Expire now s))"
    using server_inv_Expire [OF reachable_inv [OF assms(1,2)], of now] by (simp add: inv_defs)
  have mem: "(take hashSize b, p) \<in> set (pendings (Expire now s))"
    using p(1) by (simp only: finish_ok_def map_of_SomeD)
  have uniq: "(h, q) = (take hashSize b, p)" if "(h, q) \<in> set (pendings (Expire now s))" "p_ref q = p_ref p" for h q
  proof -
    have "h = take hashSize b" using pend_ok_ref_key [OF inv mem that(1)] that(2) by auto
    moreover have "mdistinct (pendings (Expire now s))" using inv by (simp add: pend_ok_def)
    ultimately show ?thesis using mdistinct_unique [of "pendings (Expire now s)"] mem that(1) by blast
  qed
  have d: "mdistinct (filter (\<lambda>e. \<not> rival p src e) (pendings (Expire now s)))"
    using inv by (simp add: pend_ok_def mdistinct_filter)
  show ?thesis
  proof (intro conjI ballI; clarify)
    fix h q
    assume q: "(h, q) \<in> set (pendings (Expire now s))" "src = p_source q" "outstanding q"
    then show False using p(2,3,6) uniq [OF q(1)] by (fastforce simp: rival_def outstanding_def)
  next
    fix h q
    assume q: "(h, q) \<in> set (pendings t)" "src = p_source q"
    then have "(h, q) = (take hashSize b, p\<lparr>p_installing := True\<rparr>) \<or>
        ((h, q) \<in> set (pendings (Expire now s)) \<and> \<not> rival p src (h, q) \<and> h \<noteq> take hashSize b)"
      using p(5) d by (auto simp: set_update_distinct)
    then show "outstanding q \<and> Installed ses = Some (h, p_ref q)"
      using p(2,4) q(2) uniq [of h q] by (auto simp: rival_def outstanding_def)
  qed
qed

theorem installation_exclusive_witness:
  "\<exists>t out ses.
    Handle demo fixed_point demo_draws demo_source demo_finish (2 * second) demo_server = (t, out, Some ses) \<and>
    (\<forall>(h, p) \<in> set (pendings t). p_source p = demo_source \<longrightarrow> outstanding p \<and> Installed ses = Some (h, p_ref p))"
proof -
  obtain u ses where h: "Handle demo fixed_point demo_draws demo_source demo_finish (2 * second) demo_server =
      (u, the_ack demo demo_start demo_draws demo_peer, Some ses)"
    by (rule demo_finish_step)
  show ?thesis
    using installation_exclusive [OF ieee_fixed_point demo_run [unfolded demo_start_def] h [unfolded demo_start_def]] h
    by blast
qed

text \<open>
  Retries of a finish. While the session is being installed the server stays silent; once the
  transport reported success, the same finish is answered with the same acknowledgement, without a
  second session and without any change but the passing of time; once it reported failure, the
  transcript is gone and the server is silent.
\<close>

theorem finish_retry:
  assumes "server_inv s" "Handle C fl oc src pkt now s = (t, out, Some ses)" "Installed ses = Some (h, ref)"
    "ref \<notin> set (once_done s)" "(h, p) \<in> set (pendings t)" "now' < p_expires p"
  shows "Handle C fl oc' src pkt now' t = (Expire now' t, [], None) \<and>
    Handle C fl oc' src pkt now' (installed t (h, ref) True) =
      (Expire now' (installed t (h, ref) True), out, None) \<and>
    Handle C fl oc' src pkt now' (installed t (h, ref) False) =
      (Expire now' (installed t (h, ref) False), [], None)"
proof -
  obtain b q where q: "Parse pkt = Some (ClientFinish, b)" "finish_ok C src b (Expire now s) q"
    "\<not> p_accepted q" "out = finish_ack C (take hashSize b) q"
    "ses = (p_session q)\<lparr>Installed := Some (take hashSize b, p_ref q)\<rparr>"
    and t: "t = (Expire now s)\<lparr>pendings := AList.update (take hashSize b) (q\<lparr>p_installing := True\<rparr>)
           (filter (\<lambda>e. \<not> rival q src e) (pendings (Expire now s)))\<rparr>"
    using assms(2) by (rule Handle_session)
  let ?q = "q\<lparr>p_installing := True\<rparr>"
  have h: "h = take hashSize b" "ref = p_ref q" using q(5) assms(3) by simp_all
  have d: "mdistinct (pendings t)"
    using server_inv_Expire [OF assms(1), of now]
    by (simp add: t inv_defs pend_ok_def mdistinct_filter AList.distinct_update)
  have mt: "map_of (pendings t) h = Some ?q" by (simp add: t h AList.update_conv')
  then have "p = ?q" using assms(5) d by simp
  then have exp: "now' < p_expires ?q" using assms(6) by simp
  have fin: "finish_ok C src b (Expire now' u) r \<and> map_of (pendings (Expire now' u)) (take hashSize b) = Some r"
    if "map_of (pendings u) h = Some r" "mdistinct (pendings u)" "p_hk r = p_hk q" "p_source r = p_source q"
      "p_expires r = p_expires q" "Peer (p_session r) = Peer (p_session q)" "Authorized u = Authorized s" for u r
    using that exp q(2) map_of_filter_keep [OF that(1,2), of "\<lambda>(h, p). now' < p_expires p"]
    by (simp add: finish_ok_def pendings_Expire h)
  have auth: "Authorized t = Authorized s" "once_done t = once_done s" by (simp_all add: t)
  have "handle_finish C src b (Expire now' t) = (Expire now' t, [], None)"
    using fin [OF mt d] q(3) auth by (simp add: handle_finish_def Let_def finish_ok_def)
  moreover have "handle_finish C src b (Expire now' (installed t (h, ref) True)) =
      (Expire now' (installed t (h, ref) True), out, None)"
  proof -
    let ?r = "?q\<lparr>p_session := (p_session ?q)\<lparr>PSK := zeros 32\<rparr>, p_accepted := True\<rparr>"
    have i: "installed t (h, ref) True =
        t\<lparr>once_done := ref # once_done t, pendings := AList.update h ?r (pendings t)\<rparr>"
      using mt assms(4) auth h by (simp add: installed_def Let_def)
    show ?thesis
      using fin [of "installed t (h, ref) True" ?r] d auth q(4)
      by (simp add: i AList.update_conv' AList.distinct_update handle_finish_def Let_def finish_ok_def finish_ack_def)
  qed
  moreover have "handle_finish C src b (Expire now' (installed t (h, ref) False)) =
      (Expire now' (installed t (h, ref) False), [], None)"
  proof -
    have i: "installed t (h, ref) False =
        t\<lparr>once_done := ref # once_done t, pendings := AList.delete h (pendings t)\<rparr>"
      using mt assms(4) auth h by (simp add: installed_def Let_def)
    have "map_of (pendings (Expire now' (installed t (h, ref) False))) (take hashSize b) = None"
      unfolding i pendings_Expire by (auto simp: map_of_eq_None_iff set_delete_eq h)
    then show ?thesis by (simp add: handle_finish_def)
  qed
  ultimately show ?thesis using q(1) by (simp add: Handle_def)
qed

theorem finish_retry_witness:
  "\<exists>t out ses h. Handle demo fixed_point demo_draws demo_source demo_finish (2 * second) demo_server = (t, out, Some ses) \<and>
    Handle demo fixed_point demo_draws demo_source demo_finish (3 * second) (installed t (h, 0) True) =
      (Expire (3 * second) (installed t (h, 0) True), out, None)"
proof -
  let ?h = "the_hash demo demo_start demo_draws demo_peer"
  obtain u ses where s: "Handle demo fixed_point demo_draws demo_source demo_finish (2 * second) demo_server =
      (u, the_ack demo demo_start demo_draws demo_peer, Some ses)" "Installed ses = Some (?h, 0)"
    by (rule demo_finish_step)
  obtain b p where p: "finish_ok demo demo_source b (Expire (2 * second) demo_server) p"
    "ses = (p_session p)\<lparr>Installed := Some (take hashSize b, p_ref p)\<rparr>"
    "u = (Expire (2 * second) demo_server)\<lparr>pendings := AList.update (take hashSize b) (p\<lparr>p_installing := True\<rparr>)
           (filter (\<lambda>e. \<not> rival p demo_source e) (pendings (Expire (2 * second) demo_server)))\<rparr>"
    using s(1) by (rule Handle_session)
  have h: "take hashSize b = ?h" using p(2) s(2) by simp
  have once: "0 \<notin> set (once_done demo_server)"
    by (simp add: after_hello_def hello_stored_def demo_start_def new_server_def)
  have "(take hashSize b, p) \<in> set (pendings demo_server)" using finish_ok_member [OF p(1)] by simp
  then have "p = the_entry demo demo_start demo_draws demo_peer second"
    by (auto simp: after_hello_def hello_stored_def demo_start_def new_server_def Expire_def dest: set_update_cases)
  then have exp: "3 * second < p_expires p" by (simp add: the_entry_def second_def)
  have "map_of (pendings u) ?h = Some (p\<lparr>p_installing := True\<rparr>)" using h by (simp add: p(3) AList.update_conv')
  then have mem: "(?h, p\<lparr>p_installing := True\<rparr>) \<in> set (pendings u)" by (rule map_of_SomeD)
  show ?thesis
    using finish_retry [OF demo_server_inv s once mem, of "3 * second" demo_draws] exp s(1) by auto
qed

section \<open>Bounded state\<close>

text \<open>
  C25. Whatever packets arrive and in whatever order the operations interleave, the server's tables stay
  within their bounds: 256 pending transcripts, 8 of them per identity, 64 * 301 remembered hellos and
  4096 rate-limit buckets of each kind; and a transcript the transport has accepted keeps no
  pre-shared key.
\<close>

theorem server_bounded:
  assumes "ieee fl" "runs (server_step C fl) (new_server spub ks auth) es s"
  shows "length (pendings s) \<le> 256 \<and> owned pid s \<le> 8 \<and> length (replay s) \<le> 64 * 301 \<and>
    length (limits s) \<le> 4096 \<and> length (peerLimits s) \<le> 4096 \<and>
    (\<forall>(h, p) \<in> set (pendings s). p_accepted p \<longrightarrow> PSK (p_session p) = zeros 32)"
  using reachable_inv [OF assms] by (auto simp: inv_defs pend_ok_def entry_ok_def)

theorem server_bounded_witness:
  "length (pendings demo_server) \<le> 256 \<and> owned (zeros 32) demo_server \<le> 8"
  using server_bounded [OF ieee_fixed_point demo_run [unfolded demo_start_def]]
  by (metis demo_start_def)

text \<open>
  A hello whose tag matches no authorized identity costs the server one rate-limit bucket of its
  source and nothing else: no answer, no shared verification budget, no other table.
\<close>

theorem unknown_identity:
  assumes "Parse pkt = Some (ClientHello, b)"
    "snd (resolve C (Authorized s) (take 32 b) (slice 96 128 b)) = []"
  shows "Handle C fl oc src pkt now s \<in>
    {(Expire now s, [], None),
     ((Expire now s)\<lparr>limits := fst (charge fl now src (limits (Expire now s)))\<rparr>, [], None)}"
proof -
  obtain lim ok where ch: "charge fl now src (limits (Expire now s)) = (lim, ok)" by fastforce
  obtain pid pub where rs: "resolve C (Authorized s) (take 32 b) (slice 96 128 b) = (pid, pub)" by fastforce
  with assms(2) have "pub = []" by simp
  with ch rs assms(1) show ?thesis
    by (auto simp: Handle_def ClientHello_def ClientFinish_def handle_hello_def Let_def)
qed

theorem unknown_identity_witness:
  "Handle demo fixed_point demo_draws demo_source demo_hello second (demo_start\<lparr>Authorized := Some []\<rparr>) \<in>
    {(Expire second (demo_start\<lparr>Authorized := Some []\<rparr>), [], None),
     ((Expire second (demo_start\<lparr>Authorized := Some []\<rparr>))
        \<lparr>limits := fst (charge fixed_point second demo_source (limits (Expire second (demo_start\<lparr>Authorized := Some []\<rparr>))))\<rparr>,
      [], None)}"
  by (rule unknown_identity [OF Parse_the_packet [OF crypto_ok_demo honest_demo(1)]])
    (simp add: resolve_def)

section \<open>Replay\<close>





section \<open>The honest handshake\<close>

text \<open>
  An honest client and an honest server with room complete the handshake in two round trips: the
  hello is answered, the client accepts the answer, the server hands out a session for the client's
  identifier and transport keys, the client accepts the acknowledgement, and both sides hold the same
  pre-shared key. The client's KEM key is destroyed by then.
\<close>

theorem honest_handshake:
  assumes "crypto_ok C" "honest_client C P" "honest_server C s oc P" "server_inv s" "room C fl now s P"
    "\<bar>unix (h_time P) - unix now\<bar> \<le> 120" "now \<le> now'" "now' < now + 30 * second"
  shows "\<exists>c hello t response c' psk finish u ack ses.
    NewClient C (h_ident P) (Some (h_kem P)) (Public s) (h_local P) (ServerKeys s) (h_time P) (Some (h_nonce P)) =
      (Some (h_kem P), Inr (c, hello)) \<and>
    Handle C fl oc (WG (h_local P)) hello now s = (t, response, None) \<and>
    Complete C c response = (c', Inr (psk, finish)) \<and>
    Handle C fl oc' (WG (h_local P)) finish now' t = (u, ack, Some ses) \<and>
    Accepted c' ack \<and> PSK ses = psk \<and> Peer ses = ID C (h_pub P) \<and> Keys ses = h_local P \<and>
    kem_destroyed (c_kem c')"
proof -
  have pub: "length (Public s) = MLDSA87PublicKeySize"
    using assms(3) by (simp add: honest_server_def signer_def)
  obtain u where "Handle C fl oc' (WG (h_local P)) (the_finish C s oc P) now' (after_hello C fl s oc P now) =
    (u, the_ack C s oc P,
     Some \<lparr>Peer = ID C (h_pub P), Keys = h_local P, PSK = fst (the_secrets C s oc P),
           Installed = Some (the_hash C s oc P, next_ref s)\<rparr>)"
    using Handle_finish_honest [OF assms(1,2,3,5,8,7,4)] by blast
  moreover have "0 < length (the_ack C s oc P)" by (simp add: the_ack_def)
  ultimately show ?thesis
    using NewClient_honest [OF assms(1,2) pub] Handle_hello_honest [OF assms(1,2,3,5,6)]
      Complete_honest [OF assms(1,2,3)]
    by (simp add: the_packet_def Accepted_def Destroy_def)
qed

theorem honest_handshake_witness:
  "\<exists>c hello t response c' psk finish u ack ses.
    NewClient demo (h_ident demo_peer) (Some (h_kem demo_peer)) (Public demo_start) (h_local demo_peer)
      (ServerKeys demo_start) (h_time demo_peer) (Some (h_nonce demo_peer)) = (Some (h_kem demo_peer), Inr (c, hello)) \<and>
    Handle demo fixed_point demo_draws demo_source hello second demo_start = (t, response, None) \<and>
    Complete demo c response = (c', Inr (psk, finish)) \<and>
    Handle demo fixed_point demo_draws demo_source finish (2 * second) t = (u, ack, Some ses) \<and>
    Accepted c' ack \<and> PSK ses = psk \<and> Peer ses = ID demo (h_pub demo_peer)"
proof -
  have "\<bar>unix (h_time demo_peer) - unix second\<bar> \<le> 120" by (simp add: demo_peer_def)
  from honest_handshake [OF demo_facts(1-3,5,4) this, of "2 * second" demo_draws]
  show ?thesis by (fastforce simp: second_def)
qed

section \<open>The client\<close>

text \<open>
  A client that cannot be set up leaks no KEM key: whichever step fails after the key was created,
  the key has been destroyed; and a client that is set up owns the live key.
\<close>

lemma new_client_kem:
  "case NewClient C ident (Some k) serverPublic local remote now random of
     (None, r) \<Rightarrow> length serverPublic \<noteq> MLDSA87PublicKeySize \<or> id_public ident = None
   | (Some k', Inl e) \<Rightarrow> kem_destroyed k'
   | (Some k', Inr (c, hello)) \<Rightarrow> k' = k \<and> c_kem c = k \<and> c_ack c = []"
  by (simp add: NewClient_def Let_def Destroy_def split: option.splits)

lemma new_client_kem_witness:
  "\<exists>k. fst (NewClient demo (h_ident demo_peer) (Some (h_kem demo_peer)) (Public demo_start) (h_local demo_peer)
     (ServerKeys demo_start) second None) = Some k \<and> kem_destroyed k"
proof -
  obtain k where "NewClient demo (h_ident demo_peer) (Some (h_kem demo_peer)) (Public demo_start)
      (h_local demo_peer) (ServerKeys demo_start) second None = (Some k, Inl ErrProvider)"
    by (simp add: NewClient_def demo_peer_def demo_start_def new_server_def size_defs)
  with new_client_kem [where C = demo and ident = "h_ident demo_peer" and k = "h_kem demo_peer" and
      serverPublic = "Public demo_start" and local = "h_local demo_peer" and
      remote = "ServerKeys demo_start" and now = second and random = None]
  show ?thesis by simp
qed

section \<open>The wire format\<close>

text \<open>
  C40. The frame format is canonical: a packet parses to a kind and a payload exactly when the payload
  has the size of its kind and the packet is the frame of the two, so distinct packets never stand for
  the same message.
\<close>

theorem frame_canonical:
  "Parse b = Some (k, p) \<longleftrightarrow> payload_size k = Some (length p) \<and> b = frame k p"
  using frame_codec.dec_iff [of b "(k, p)"] by simp

text \<open>
  The transcript binds every field: two transcripts with fields of the protocol's sizes are equal
  only if the hello, the server identifier, the keys, the nonce and the ciphertext are.
\<close>

lemma transcript_injective:
  assumes "transcript_fields hello server ks nonce ct" "transcript_fields hello' server' ks' nonce' ct'"
    "fst (transcript C hello server ks nonce ct) = fst (transcript C hello' server' ks' nonce' ct')"
  shows "hello = hello' \<and> server = server' \<and> ks = ks' \<and> nonce = nonce' \<and> ct = ct'"
  using assms by (cases ks; cases ks') (auto simp: fst_transcript transcript_fields_def)

lemma transcript_injective_witness:
  "fst (transcript demo (zeros helloSize) (zeros 32) \<lparr>WG = zeros 32, Disco = zeros 32\<rparr> (replicate 32 1) (zeros 1568)) \<noteq>
   fst (transcript demo (zeros helloSize) (zeros 32) \<lparr>WG = zeros 32, Disco = zeros 32\<rparr> (replicate 32 2) (zeros 1568))"
proof
  assume eq: "fst (transcript demo (zeros helloSize) (zeros 32) \<lparr>WG = zeros 32, Disco = zeros 32\<rparr> (replicate 32 1) (zeros 1568)) =
   fst (transcript demo (zeros helloSize) (zeros 32) \<lparr>WG = zeros 32, Disco = zeros 32\<rparr> (replicate 32 2) (zeros 1568))"
  have "(replicate 32 1 :: bytes) = replicate 32 2"
    using transcript_injective [OF _ _ eq] by (simp add: transcript_fields_def size_defs)
  then show False by (simp add: replicate_eq_replicate)
qed

end
