(* ===== verification/Renew.thy ===== *)
theory Renew
  imports Prelude
begin

text \<open>
  The renewal loop of a client (\<open>watch\<close> in \<open>src/internal/transport/renew.go\<close>). One turn of the loop is a
  function of the loop's variables and of what the turn meets: the readings of the wall clock, the
  results of the probe, the refresh and the renewal, and whether the context was cancelled. It returns
  the variables for the next turn (none when the loop ends) and the calls it made, in order.

  \<open>Maintain\<close> passes a probe and a refresh function, \<open>maintain\<close> neither; \<open>cfg\<close> says which.
\<close>

section \<open>Model\<close>

record watch_cfg =
  has_probe :: bool
  has_refresh :: bool
  interval :: duration
  retry :: duration

record watch =
  w_last :: gotime
  nextRenew :: gotime
  nextProbe :: gotime
  recovering :: bool

record turn =
  t_current :: gotime
  t_probe_ok :: bool
  t_probed :: gotime
  t_cancelled :: bool
  t_skip :: gotime
  t_refresh_ok :: bool
  t_renew_ok :: bool
  t_reprobe_ok :: bool
  t_cancelled_late :: bool
  t_done :: gotime
  t_done_probe :: gotime
  t_end :: gotime

datatype call = Probe | Refresh | Renew | Report

definition SessionLifetime :: duration where "SessionLifetime = 3600 * second"
definition RenewInterval :: duration where "RenewInterval = 2700 * second"

definition Maintain_cfg :: watch_cfg where
  "Maintain_cfg = \<lparr>has_probe = True, has_refresh = True, interval = RenewInterval, retry = 5 * second\<rparr>"

text \<open>\<open>maintain\<close> also chooses how often the loop turns; the turns themselves are the events of the model.\<close>

definition maintain_cfg :: "duration \<Rightarrow> duration \<Rightarrow> duration \<times> watch_cfg" where
  "maintain_cfg every again =
     (min every (min again (5 * second)), \<lparr>has_probe = False, has_refresh = False, interval = every, retry = again\<rparr>)"

definition watch_start :: "watch_cfg \<Rightarrow> gotime \<Rightarrow> watch" where
  "watch_start cfg now =
     \<lparr>w_last = now, nextRenew = now + interval cfg, nextProbe = now + 30 * second, recovering = False\<rparr>"

definition observe_gap :: "turn \<Rightarrow> watch \<Rightarrow> watch" where
  "observe_gap i w =
     (let gap = time_sub (t_current i) (w_last w); w1 = w\<lparr>w_last := t_current i\<rparr> in
      if gap > 15 * second \<or> gap < 0 then w1\<lparr>recovering := True, nextRenew := t_current i\<rparr> else w1)"

definition routine_probe :: "watch_cfg \<Rightarrow> turn \<Rightarrow> watch \<Rightarrow> watch \<times> call list" where
  "routine_probe cfg i w =
     (if \<not> recovering w \<and> has_probe cfg \<and> \<not> t_current i < nextProbe w then
        (let w1 = (if t_probe_ok i then w else w\<lparr>recovering := True, nextRenew := t_current i\<rparr>) in
         (w1\<lparr>nextProbe := t_probed i + 30 * second\<rparr>, [Probe]))
      else (w, []))"

definition attempt :: "watch_cfg \<Rightarrow> turn \<Rightarrow> bool \<Rightarrow> bool \<times> call list" where
  "attempt cfg i rec =
     (let (ok, calls) = (if rec \<and> has_refresh cfg then (t_refresh_ok i, [Refresh]) else (True, []));
          (ok, calls) = (if ok then (t_renew_ok i, calls @ [Renew]) else (False, calls)) in
      if ok \<and> rec \<and> has_probe cfg then (t_reprobe_ok i, calls @ [Probe]) else (ok, calls))"

definition watch_turn :: "watch_cfg \<Rightarrow> turn \<Rightarrow> watch \<Rightarrow> watch option \<times> call list" where
  "watch_turn cfg i w =
     (let (w1, probes) = routine_probe cfg i (observe_gap i w) in
      if t_cancelled i then (None, probes)
      else if t_current i < nextRenew w1 then (Some (w1\<lparr>w_last := t_skip i\<rparr>), probes)
      else
        (let (ok, calls) = attempt cfg i (recovering w1) in
         if t_cancelled_late i then (None, probes @ calls)
         else if \<not> ok then
           (Some (w1\<lparr>recovering := True, nextRenew := t_done i + retry cfg, w_last := t_end i\<rparr>),
            probes @ calls @ [Report])
         else
           (Some (w1\<lparr>recovering := False, nextRenew := t_done i + interval cfg,
                     nextProbe := t_done_probe i + 30 * second, w_last := t_end i\<rparr>),
            probes @ calls)))"

section \<open>Runs\<close>

text \<open>
  A run of the loop, with the completion time of the latest attempt (at first, the start) as a ghost
  component.
\<close>

definition tried :: "call list \<Rightarrow> bool" where
  "tried calls \<longleftrightarrow> Refresh \<in> set calls \<or> Renew \<in> set calls"

inductive watch_step :: "watch_cfg \<Rightarrow> gotime \<times> watch \<Rightarrow> turn \<Rightarrow> gotime \<times> watch \<Rightarrow> bool" for cfg where
  turned: "watch_turn cfg i w = (Some w', calls) \<Longrightarrow>
     watch_step cfg (t, w) i ((if tried calls then t_done i else t), w')"

inductive_cases watch_stepE: "watch_step cfg x i y"

definition due_ok :: "watch_cfg \<Rightarrow> gotime \<times> watch \<Rightarrow> bool" where
  "due_ok cfg x \<longleftrightarrow> nextRenew (snd x) \<le> fst x + (if recovering (snd x) then retry cfg else interval cfg)"

lemma tried_attempt: "tried (snd (attempt cfg i rec))"
  by (auto simp: attempt_def tried_def Let_def)

lemma tried_append [simp]: "tried (a @ b) \<longleftrightarrow> tried a \<or> tried b"
  by (auto simp: tried_def)

lemma routine_probe_calls [simp]: "\<not> tried (snd (routine_probe cfg i w))"
  by (auto simp: routine_probe_def tried_def Let_def)

lemma observe_gap_simps [simp]:
  "nextProbe (observe_gap i w) = nextProbe w"
  by (simp add: observe_gap_def Let_def)

text \<open>
  Before the due time is compared, the loop has either kept it and the mode it was computed for, or
  moved it to the current instant.
\<close>

lemma prepared:
  assumes "routine_probe cfg i (observe_gap i w) = (w1, probes)"
  shows "(nextRenew w1 = nextRenew w \<and> recovering w1 = recovering w) \<or>
    (nextRenew w1 = t_current i \<and> recovering w1)"
  using assms by (auto simp: routine_probe_def observe_gap_def Let_def split: if_splits)

lemma watch_turn_cases:
  assumes "watch_turn cfg i w = (w', calls)"
  obtains (cancelled) "w' = None" "t_cancelled i \<or> t_cancelled_late i"
  | (waiting) w1 where "t_current i < nextRenew w1" "w' = Some (w1\<lparr>w_last := t_skip i\<rparr>)" "\<not> tried calls"
      "nextRenew w1 = nextRenew w" "recovering w1 = recovering w"
  | (failed) w1 where "w' = Some (w1\<lparr>recovering := True, nextRenew := t_done i + retry cfg, w_last := t_end i\<rparr>)"
      "tried calls"
  | (renewed) w1 where "w' = Some (w1\<lparr>recovering := False, nextRenew := t_done i + interval cfg,
         nextProbe := t_done_probe i + 30 * second, w_last := t_end i\<rparr>)"
      "tried calls" "t_renew_ok i" "recovering w1 \<longrightarrow> has_probe cfg \<longrightarrow> t_reprobe_ok i"
proof -
  obtain w1 probes where rp: "routine_probe cfg i (observe_gap i w) = (w1, probes)" by fastforce
  obtain ok cs where at: "attempt cfg i (recovering w1) = (ok, cs)" by fastforce
  have np: "\<not> tried probes" using routine_probe_calls [of cfg i "observe_gap i w"] rp by simp
  have tr: "tried cs" using tried_attempt [of cfg i "recovering w1"] at by simp
  have ok: "ok \<Longrightarrow> t_renew_ok i \<and> (recovering w1 \<longrightarrow> has_probe cfg \<longrightarrow> t_reprobe_ok i)"
    using at by (auto simp: attempt_def Let_def split: if_splits)
  consider "t_cancelled i" | "\<not> t_cancelled i" "t_current i < nextRenew w1"
    | "\<not> t_cancelled i" "\<not> t_current i < nextRenew w1" by blast
  then show thesis
  proof cases
    case 1
    with assms rp show thesis by (intro cancelled) (auto simp: watch_turn_def)
  next
    case 2
    moreover have "nextRenew w1 = nextRenew w \<and> recovering w1 = recovering w" using prepared [OF rp] 2 by auto
    ultimately show thesis using assms rp np by (intro waiting [of w1]) (auto simp: watch_turn_def)
  next
    case 3
    then have eq: "watch_turn cfg i w =
        (if t_cancelled_late i then (None, probes @ cs)
         else if \<not> ok then
           (Some (w1\<lparr>recovering := True, nextRenew := t_done i + retry cfg, w_last := t_end i\<rparr>), probes @ cs @ [Report])
         else
           (Some (w1\<lparr>recovering := False, nextRenew := t_done i + interval cfg,
              nextProbe := t_done_probe i + 30 * second, w_last := t_end i\<rparr>), probes @ cs))"
      by (simp add: watch_turn_def rp at)
    show thesis
    proof (cases "t_cancelled_late i \<or> \<not> ok")
      case True
      with assms eq tr show thesis by (cases "t_cancelled_late i") (auto intro: cancelled failed)
    next
      case False
      with assms eq tr ok show thesis by (intro renewed [of w1]) auto
    qed
  qed
qed

lemma due_ok_step: "due_ok cfg x \<Longrightarrow> watch_step cfg x i y \<Longrightarrow> due_ok cfg y"
proof (erule watch_stepE)
  fix w w' calls t
  assume ok: "due_ok cfg x" and x: "x = (t, w)" and y: "y = (if tried calls then t_done i else t, w')"
    and turn: "watch_turn cfg i w = (Some w', calls)"
  from turn show "due_ok cfg y"
    by (cases rule: watch_turn_cases) (use ok x y in \<open>auto simp: due_ok_def\<close>)
qed

interpretation watch_machine: invariant_machine "\<lambda>x. \<exists>t. x = (t, watch_start cfg t)" "watch_step cfg" "due_ok cfg"
  for cfg
proof
  show "due_ok cfg x" if "\<exists>t. x = (t, watch_start cfg t)" for x
    using that by (auto simp: watch_start_def due_ok_def)
qed (rule due_ok_step)

section \<open>Properties\<close>

text \<open>
  A lease is renewed in time. Whatever happened since the loop was started, a turn of the loop
  whose clock reading is at least the interval after the completion of the latest attempt (or, after a
  failed attempt, at least the retry delay after it) makes an attempt, unless the context is cancelled.
  With the constants of \<open>Maintain\<close> that is 45 minutes for a session of one hour.
\<close>

theorem renewal_is_due:
  assumes "runs (watch_step cfg) (t0, watch_start cfg t0) turns (t, w)"
    "t + (if recovering w then retry cfg else interval cfg) \<le> t_current i" "\<not> t_cancelled i"
  shows "tried (snd (watch_turn cfg i w))"
proof -
  have "due_ok cfg (t, w)" using watch_machine.run_start_inv [OF assms(1)] by blast
  then have due: "nextRenew w \<le> t_current i" using assms(2) by (simp add: due_ok_def)
  obtain w' calls where "watch_turn cfg i w = (w', calls)" by fastforce
  then show ?thesis
  proof (cases rule: watch_turn_cases)
    case cancelled
    then have late: "t_cancelled_late i" using assms(3) by simp
    obtain w1 probes where rp: "routine_probe cfg i (observe_gap i w) = (w1, probes)" by fastforce
    have "\<not> t_current i < nextRenew w1" using prepared [OF rp] due by auto
    with assms(3) rp late tried_attempt [of cfg i "recovering w1"] show ?thesis
      by (cases "attempt cfg i (recovering w1)") (simp add: watch_turn_def)
  qed (use due \<open>watch_turn cfg i w = (w', calls)\<close> in auto)
qed

definition demo_turn :: "gotime \<Rightarrow> turn" where
  "demo_turn now =
     \<lparr>t_current = now, t_probe_ok = True, t_probed = now, t_cancelled = False, t_skip = now, t_refresh_ok = True,
      t_renew_ok = True, t_reprobe_ok = True, t_cancelled_late = False, t_done = now, t_done_probe = now, t_end = now\<rparr>"

theorem renewal_is_due_witness:
  "tried (snd (watch_turn Maintain_cfg (demo_turn (RenewInterval + 7)) (watch_start Maintain_cfg 7)))"
  by (rule renewal_is_due [where t = 7 and t0 = 7 and turns = "[]"])
    (simp_all add: demo_turn_def watch_start_def Maintain_cfg_def)

text \<open>
  Waking up from sleep. When the clock jumped by more than fifteen seconds, or backwards, the very
  next turn refreshes the network path and then renews, whatever the schedule says, and the loop leaves
  the recovery mode only if the renewal succeeded and a probe through the tunnel confirmed it.
\<close>

lemma wake_up_recovers:
  assumes "time_sub (t_current i) (w_last w) > 15 * second \<or> time_sub (t_current i) (w_last w) < 0"
    "\<not> t_cancelled i"
  shows "\<exists>calls. watch_turn Maintain_cfg i w = (fst (watch_turn Maintain_cfg i w), Refresh # calls) \<and>
    (t_refresh_ok i \<longrightarrow> (\<exists>rest. calls = Renew # rest)) \<and>
    (\<forall>w'. fst (watch_turn Maintain_cfg i w) = Some w' \<longrightarrow>
       recovering w' = (\<not> (t_refresh_ok i \<and> t_renew_ok i \<and> t_reprobe_ok i)))"
  using assms
  by (simp add: watch_turn_def observe_gap_def routine_probe_def attempt_def Maintain_cfg_def Let_def)

lemma wake_up_recovers_witness:
  "\<exists>calls. watch_turn Maintain_cfg (demo_turn (20 * second)) (watch_start Maintain_cfg 0) =
     (fst (watch_turn Maintain_cfg (demo_turn (20 * second)) (watch_start Maintain_cfg 0)), Refresh # calls)"
  using wake_up_recovers [of "demo_turn (20 * second)" "watch_start Maintain_cfg 0"]
  by (auto simp: demo_turn_def watch_start_def time_sub_def second_def)

end
