(* ===== verification/Transport.thy ===== *)
theory Transport
  imports Handshake_Props Renew
begin

text \<open>
  The handshake as the transport drives it (\<open>src/internal/transport/transport.go\<close>): the bootstrap
  callback of the server, with the validity of the peer it installs, and the bootstrap loop of the
  client, with its retransmissions.

  The loop is a function of its variables and of the event a \<open>select\<close> delivers: the context ends, the
  ticker fires, a packet arrives. Sending can fail; the event says whether it does.
\<close>

section \<open>Server\<close>

record auth_peer =
  ap_identity :: bytes
  ap_disco :: bytes
  ap_psk :: bytes
  ap_installed :: "(bytes \<times> nat) option"
  ap_pinned :: bytes
  ap_expires :: gotime

text \<open>The keys of a node; \<open>raw\<close> and \<open>disco\<close> derive them from its private key.\<close>

definition transport_Keys :: "(bytes \<Rightarrow> bytes) \<Rightarrow> (bytes \<Rightarrow> bytes) \<Rightarrow> bytes \<Rightarrow> keys" where
  "transport_Keys raw disco node = \<lparr>WG = raw node, Disco = disco node\<rparr>"

definition transport_Server :: "(bytes \<Rightarrow> bytes) \<Rightarrow> (bytes \<Rightarrow> bytes) \<Rightarrow> bytes \<Rightarrow> bytes \<Rightarrow> peer_seq \<Rightarrow> server" where
  "transport_Server raw disco pub node auth = new_server pub (transport_Keys raw disco node) auth"

definition Bootstrap ::
  "crypto \<Rightarrow> rounding \<Rightarrow> duration \<Rightarrow> draws \<Rightarrow> bytes \<Rightarrow> bytes \<Rightarrow> gotime \<Rightarrow> gotime \<Rightarrow> server
   \<Rightarrow> server \<times> bytes \<times> auth_peer option" where
  "Bootstrap C fl lifetime oc src b now later s =
     (let (s', reply, session) = Handle C fl oc src b now s in
      case session of None \<Rightarrow> (s', reply, None)
      | Some ses \<Rightarrow>
        (s', reply,
         Some \<lparr>ap_identity = Peer ses, ap_disco = Disco (Keys ses), ap_psk = PSK ses,
               ap_installed = Installed ses, ap_pinned = Lookup (Authorized s') (Peer ses),
               ap_expires = later + lifetime\<rparr>))"

definition Valid :: "gotime \<Rightarrow> peer_seq \<Rightarrow> auth_peer \<Rightarrow> bool" where
  "Valid now auth p \<longleftrightarrow>
     now < ap_expires p \<and> length (ap_pinned p) > 0 \<and> Lookup auth (ap_identity p) = ap_pinned p"

section \<open>Client\<close>

record tailcat_addr =
  ta_psk_zero :: bool
  ta_server :: bytes
  ta_disco :: bytes

datatype new_client_error = BadEndpoint | BearerPSK

text \<open>An endpoint must not carry a secret of its own; the result is the keys the handshake expects.\<close>

definition transport_Client :: "(string \<Rightarrow> tailcat_addr option) \<Rightarrow> string \<Rightarrow> new_client_error + keys" where
  "transport_Client parse endpoint =
     (case parse endpoint of None \<Rightarrow> Inl BadEndpoint
      | Some ci \<Rightarrow> if \<not> ta_psk_zero ci then Inl BearerPSK else Inr \<lparr>WG = ta_server ci, Disco = ta_disco ci\<rparr>)"

record boot =
  b_client :: client
  b_packet :: bytes
  b_psk :: bytes
  b_finishing :: bool

datatype boot_event = Done | Tick bool | Recv bytes bool
datatype boot_error = CtxDone | SendFailed
datatype boot_result = Continue boot | Return "boot_error + bytes"

definition boot_start :: "client \<Rightarrow> bytes \<Rightarrow> bool \<Rightarrow> boot_result \<times> bytes list" where
  "boot_start c hello ok =
     (if ok then (Continue \<lparr>b_client = c, b_packet = hello, b_psk = zeros 32, b_finishing = False\<rparr>, [hello])
      else (Return (Inl SendFailed), [hello]))"

definition boot_step :: "crypto \<Rightarrow> boot_event \<Rightarrow> boot \<Rightarrow> boot_result \<times> bytes list" where
  "boot_step C ev st =
     (case ev of
        Done \<Rightarrow> (Return (Inl CtxDone), [])
      | Tick ok \<Rightarrow> (if ok then Continue st else Return (Inl SendFailed), [b_packet st])
      | Recv reply ok \<Rightarrow>
        if b_finishing st then
          (if Accepted (b_client st) reply then Return (Inr (b_psk st)) else Continue st, [])
        else
          (case Complete C (b_client st) reply of
             (c, Inl e) \<Rightarrow> (Continue (st\<lparr>b_client := c, b_psk := zeros 32\<rparr>), [])
           | (c, Inr (psk, finish)) \<Rightarrow>
             (if ok then Continue \<lparr>b_client = c, b_packet = finish, b_psk = psk, b_finishing = True\<rparr>
              else Return (Inl SendFailed), [finish])))"

fun boot_run :: "crypto \<Rightarrow> boot \<Rightarrow> boot_event list \<Rightarrow> boot_result \<times> bytes list" where
  "boot_run C st [] = (Continue st, [])"
| "boot_run C st (ev # evs) =
     (case boot_step C ev st of
        (Return r, out) \<Rightarrow> (Return r, out)
      | (Continue st', out) \<Rightarrow> (let (r, out') = boot_run C st' evs in (r, out @ out')))"

text \<open>
  The whole callback: what became of the KEM, and the result; \<open>Inl\<close> of \<open>NewClient\<close> ends it at once. When
  it returns, the deferred \<open>Close\<close> of the handshake has destroyed the KEM.
\<close>

definition client_bootstrap ::
  "crypto \<Rightarrow> identity \<Rightarrow> kem option \<Rightarrow> bytes \<Rightarrow> keys \<Rightarrow> keys \<Rightarrow> gotime \<Rightarrow> bytes option \<Rightarrow> bool \<Rightarrow> boot_event list
   \<Rightarrow> kem option \<times> (herror + boot_result) \<times> bytes list" where
  "client_bootstrap C ident newKEM pub local remote now random sent evs =
     (case NewClient C ident newKEM pub local remote now random of
        (k, Inl e) \<Rightarrow> (k, Inl e, [])
      | (k, Inr (c, hello)) \<Rightarrow>
        (case boot_start c hello sent of
           (Return r, out) \<Rightarrow> (map_option Destroy k, Inr (Return r), out)
         | (Continue st, out) \<Rightarrow>
           (case boot_run C st evs of
              (Return r, out') \<Rightarrow> (map_option Destroy k, Inr (Return r), out @ out')
            | (Continue st', out') \<Rightarrow> (k, Inr (Continue st'), out @ out'))))"

section \<open>Lemmas\<close>

text \<open>The KEM does not outlive the callback.\<close>

lemma NewClient_kem: "NewClient C ident newKEM pub local remote now random = (k, Inl e) \<Longrightarrow> k = None \<or> (\<exists>x. k = Some x \<and> kem_destroyed x)"
  by (auto simp: NewClient_def Let_def Destroy_def split: option.splits if_splits)

lemma bootstrap_destroys_kem:
  assumes "client_bootstrap C ident newKEM pub local remote now random sent evs = (k, r, out)"
    "r = Inl e \<or> r = Inr (Return x)"
  shows "k = None \<or> (\<exists>y. k = Some y \<and> kem_destroyed y)"
proof -
  obtain k' res where n: "NewClient C ident newKEM pub local remote now random = (k', res)" by fastforce
  show ?thesis
  proof (cases res)
    case (Inl e')
    with n assms(1) NewClient_kem [of C ident newKEM pub local remote now random k' e'] show ?thesis by (auto simp: client_bootstrap_def)
  next
    case (Inr ch)
    then have "k = map_option Destroy k'"
      using n assms by (auto simp: client_bootstrap_def split: prod.splits boot_result.splits)
    then show ?thesis by (cases k') (auto simp: Destroy_def)
  qed
qed

text \<open>The loop has only two kinds of states: the initial one, and the one after a completion.\<close>

lemma boot_step_hello:
  assumes "\<not> b_finishing st" "b_psk st = zeros 32"
  shows "boot_step C ev st =
    (case ev of Done \<Rightarrow> (Return (Inl CtxDone), [])
     | Tick ok \<Rightarrow> (if ok then Continue st else Return (Inl SendFailed), [b_packet st])
     | Recv reply ok \<Rightarrow>
       (case snd (Complete C (b_client st) reply) of Inl e \<Rightarrow> (Continue st, [])
        | Inr (psk, finish) \<Rightarrow>
          (if ok then Continue \<lparr>b_client = fst (Complete C (b_client st) reply), b_packet = finish, b_psk = psk,
                                b_finishing = True\<rparr>
           else Return (Inl SendFailed), [finish])))"
  using assms Complete_error_same [of C "b_client st"]
  by (cases st) (auto simp: boot_step_def split: boot_event.splits prod.splits sum.splits)

lemma boot_step_finishing:
  assumes "b_finishing st" "boot_step C ev st = (r, out)"
  shows "r = Continue st \<or> (\<exists>e. r = Return (Inl e)) \<or>
      (\<exists>reply ok. ev = Recv reply ok \<and> Accepted (b_client st) reply \<and> r = Return (Inr (b_psk st)))"
    "set out \<subseteq> {b_packet st}"
  using assms by (auto simp: boot_step_def split: boot_event.splits if_splits)

definition got_ack :: "client \<Rightarrow> boot_event list \<Rightarrow> bool" where
  "got_ack c evs \<longleftrightarrow> (\<exists>ack ok. Recv ack ok \<in> set evs \<and> Accepted c ack)"

definition completed :: "crypto \<Rightarrow> client \<Rightarrow> boot_event list \<Rightarrow> bytes \<Rightarrow> bool" where
  "completed C c evs finish \<longleftrightarrow>
     (\<exists>reply ok c' psk. Recv reply ok \<in> set evs \<and> Complete C c reply = (c', Inr (psk, finish)))"

definition acknowledged :: "crypto \<Rightarrow> client \<Rightarrow> boot_event list \<Rightarrow> bytes \<Rightarrow> bool" where
  "acknowledged C c evs psk \<longleftrightarrow>
     (\<exists>es1 reply ok es2 c' finish. evs = es1 @ Recv reply ok # es2 \<and>
        Complete C c reply = (c', Inr (psk, finish)) \<and> got_ack c' es2)"

lemma got_ack_Cons: "got_ack c (ev # evs) \<longleftrightarrow> (\<exists>ack ok. ev = Recv ack ok \<and> Accepted c ack) \<or> got_ack c evs"
  by (auto simp: got_ack_def)

lemma completed_Cons: "completed C c evs finish \<Longrightarrow> completed C c (ev # evs) finish"
  by (auto simp: completed_def)

lemma completed_head: "Complete C c reply = (c', Inr (psk, finish)) \<Longrightarrow> completed C c (Recv reply ok # evs) finish"
  by (auto simp: completed_def)

lemma acknowledged_Cons: "acknowledged C c evs psk \<Longrightarrow> acknowledged C c (ev # evs) psk"
  unfolding acknowledged_def by (metis append_Cons)

lemma acknowledged_head:
  "Complete C c reply = (c', Inr (psk, finish)) \<Longrightarrow> got_ack c' evs \<Longrightarrow> acknowledged C c (Recv reply ok # evs) psk"
  unfolding acknowledged_def by (metis append_Nil)

lemma boot_run_finishing:
  assumes "boot_run C st evs = (r, out)" "b_finishing st"
  shows "set out \<subseteq> {b_packet st} \<and> (\<forall>psk. r = Return (Inr psk) \<longrightarrow> psk = b_psk st \<and> got_ack (b_client st) evs)"
  using assms
proof (induction evs arbitrary: r out)
  case (Cons ev evs)
  obtain r1 out1 where s: "boot_step C ev st = (r1, out1)" by fastforce
  note step = boot_step_finishing [OF Cons.prems(2) s]
  show ?case
  proof (cases "r1 = Continue st")
    case True
    obtain r2 out2 where rest: "boot_run C st evs = (r2, out2)" by fastforce
    with Cons.prems(1) s True have "r = r2" "out = out1 @ out2" by auto
    with Cons.IH [OF rest Cons.prems(2)] step(2) show ?thesis by (auto simp: got_ack_Cons)
  next
    case False
    with step obtain x where "r1 = Return x" by auto
    with Cons.prems(1) s have "r = r1" "out = out1" by auto
    with step False show ?thesis by (auto simp: got_ack_Cons)
  qed
qed simp

lemma boot_run_hello:
  assumes "boot_run C \<lparr>b_client = c, b_packet = hello, b_psk = zeros 32, b_finishing = False\<rparr> evs = (r, out)"
  shows "(\<forall>psk. r = Return (Inr psk) \<longrightarrow> acknowledged C c evs psk) \<and>
    (\<forall>b \<in> set out. b = hello \<or> completed C c evs b)"
  using assms
proof (induction evs arbitrary: r out)
  case (Cons ev evs)
  let ?st = "\<lparr>b_client = c, b_packet = hello, b_psk = zeros 32, b_finishing = False\<rparr>"
  obtain r1 out1 where s: "boot_step C ev ?st = (r1, out1)" by fastforce
  note step = s [unfolded boot_step_hello [of ?st, simplified]]
  consider (loop) "r1 = Continue ?st" "set out1 \<subseteq> {hello}"
    | (fail) e where "r1 = Return (Inl e)" "set out1 \<subseteq> {hello}"
    | (fail_finish) e reply ok c' psk finish where "r1 = Return (Inl e)" "out1 = [finish]" "ev = Recv reply ok"
        "Complete C c reply = (c', Inr (psk, finish))"
    | (complete) reply c' psk finish where "ev = Recv reply True" "Complete C c reply = (c', Inr (psk, finish))"
        "r1 = Continue \<lparr>b_client = c', b_packet = finish, b_psk = psk, b_finishing = True\<rparr>" "out1 = [finish]"
    using step
    by (cases ev) (auto split: if_splits sum.splits prod.splits simp: prod_eq_iff)
  then show ?case
  proof cases
    case loop
    obtain r2 out2 where rest: "boot_run C ?st evs = (r2, out2)" by fastforce
    with Cons.prems s loop have "r = r2" "out = out1 @ out2" by auto
    with Cons.IH [OF rest] loop(2) acknowledged_Cons completed_Cons show ?thesis by (auto 0 3)
  next
    case (complete reply c' psk finish)
    let ?fin = "\<lparr>b_client = c', b_packet = finish, b_psk = psk, b_finishing = True\<rparr>"
    obtain r2 out2 where rest: "boot_run C ?fin evs = (r2, out2)" by fastforce
    with Cons.prems s complete have "r = r2" "out = finish # out2" by auto
    with boot_run_finishing [OF rest, simplified] acknowledged_head [OF complete(2)] completed_head [OF complete(2)]
      complete(1) show ?thesis by auto
  next
    case (fail_finish e reply ok c' psk finish)
    then show ?thesis using Cons.prems s completed_head by auto
  qed (use Cons.prems s in auto)
qed simp

section \<open>Properties\<close>

text \<open>
  The client's bootstrap yields a key only from a completed and acknowledged handshake: some packet
  it received completed the handshake it started (so the server was authenticated), the key returned is
  the one of that completion, and a later packet was the server's acknowledgement of it. Until the
  completion it sends only its hello, after it only the finish of that completion.
\<close>

theorem bootstrap_sound:
  assumes "boot_start c hello True = (Continue st, sent)" "boot_run C st evs = (r, out)"
  shows "(\<forall>psk. r = Return (Inr psk) \<longrightarrow>
      (\<exists>es1 reply ok es2 c' finish ack ok'. evs = es1 @ Recv reply ok # es2 \<and>
         Complete C c reply = (c', Inr (psk, finish)) \<and> Recv ack ok' \<in> set es2 \<and> Accepted c' ack)) \<and>
    (\<forall>b \<in> set (sent @ out). b = hello \<or>
       (\<exists>reply ok c' psk. Recv reply ok \<in> set evs \<and> Complete C c reply = (c', Inr (psk, b))))"
proof -
  have st: "st = \<lparr>b_client = c, b_packet = hello, b_psk = zeros 32, b_finishing = False\<rparr>" "sent = [hello]"
    using assms(1) by (auto simp: boot_start_def)
  note run = boot_run_hello [OF assms(2) [unfolded st(1)]]
  show ?thesis
  proof (intro conjI allI impI ballI)
    fix psk
    assume "r = Return (Inr psk)"
    with run have "acknowledged C c evs psk" by blast
    then show "\<exists>es1 reply ok es2 c' finish ack ok'. evs = es1 @ Recv reply ok # es2 \<and>
        Complete C c reply = (c', Inr (psk, finish)) \<and> Recv ack ok' \<in> set es2 \<and> Accepted c' ack"
      unfolding acknowledged_def got_ack_def by blast
  next
    fix b
    assume "b \<in> set (sent @ out)"
    with run st(2) have "b = hello \<or> completed C c evs b" by auto
    then show "b = hello \<or> (\<exists>reply ok c' psk. Recv reply ok \<in> set evs \<and> Complete C c reply = (c', Inr (psk, b)))"
      unfolding completed_def by blast
  qed
qed

theorem bootstrap_sound_witness:
  "\<exists>es1 reply ok es2 c' psk finish.
    [Recv (the_response demo demo_start demo_draws demo_peer) True, Recv (the_ack demo demo_start demo_draws demo_peer) True] =
      es1 @ Recv reply ok # es2 \<and>
    Complete demo (the_client demo demo_peer (Public demo_start) (ServerKeys demo_start)) reply = (c', Inr (psk, finish))"
proof -
  let ?c = "the_client demo demo_peer (Public demo_start) (ServerKeys demo_start)"
  let ?evs = "[Recv (the_response demo demo_start demo_draws demo_peer) True, Recv (the_ack demo demo_start demo_draws demo_peer) True]"
  let ?st = "\<lparr>b_client = ?c, b_packet = [], b_psk = zeros 32, b_finishing = False\<rparr>"
  have st: "boot_start ?c [] True = (Continue ?st, [[]])" by (simp add: boot_start_def)
  have len: "0 < length (the_ack demo demo_start demo_draws demo_peer)" by (simp add: the_ack_def)
  obtain out where run: "boot_run demo ?st ?evs = (Return (Inr (fst (the_secrets demo demo_start demo_draws demo_peer))), out)"
    using len by (simp add: boot_step_def Complete_honest [OF demo_facts(1-3)] Accepted_def)
  from conjunct1 [OF bootstrap_sound [OF st run]]
  obtain es1 reply ok es2 c' finish where "?evs = es1 @ Recv reply ok # es2"
    "Complete demo ?c reply = (c', Inr (fst (the_secrets demo demo_start demo_draws demo_peer), finish))"
    by (elim allE impE exE conjE) (rule refl, assumption)
  then show ?thesis by (intro exI conjI)
qed

text \<open>The peer of a bootstrap is the one of the session, with the key that was then authorized for it.\<close>

lemma Bootstrap_peer:
  assumes "Bootstrap C fl lifetime oc src b now later s = (s', reply, Some peer)"
  obtains ses where "Handle C fl oc src b now s = (s', reply, Some ses)" "Peer ses = ap_identity peer" "PSK ses = ap_psk peer"
    "ap_pinned peer = Lookup (Authorized s) (ap_identity peer)" "ap_pinned peer \<noteq> []" "ap_expires peer = later + lifetime"
proof -
  obtain ses where h: "Handle C fl oc src b now s = (s', reply, Some ses)"
    and p: "peer = \<lparr>ap_identity = Peer ses, ap_disco = Disco (Keys ses), ap_psk = PSK ses,
      ap_installed = Installed ses, ap_pinned = Lookup (Authorized s') (Peer ses), ap_expires = later + lifetime\<rparr>"
    using assms by (auto simp: Bootstrap_def split: prod.splits option.splits)
  obtain b' q where q: "finish_ok C src b' (Expire now s) q" "ses = (p_session q)\<lparr>Installed := Some (take hashSize b', p_ref q)\<rparr>"
    "s' = (Expire now s)\<lparr>pendings := AList.update (take hashSize b') (q\<lparr>p_installing := True\<rparr>)
       (filter (\<lambda>e. \<not> rival q src e) (pendings (Expire now s)))\<rparr>"
    using h by (rule Handle_session)
  have "Authorized s' = Authorized s" by (simp add: q(3))
  moreover have "Lookup (Authorized s) (Peer ses) \<noteq> []" using q(1,2) by (simp add: finish_ok_def)
  ultimately show thesis using h p by (intro that) simp_all
qed

text \<open>
  The peer a server installs is bound to a key and a time. If the authorized set is keyed by the
  identifiers of its keys, the peer is the one of the session, its pinned key hashes to its identity, it
  is valid until its lifetime ends, and from the moment it is revoked, re-keyed or expired it is not.
\<close>

lemma installed_peer_validity:
  assumes "Bootstrap C fl lifetime oc src b now later s = (s', reply, Some peer)"
    "\<forall>(pid, pub) \<in> peers_of (Authorized s). ID C pub = pid"
  shows "ID C (ap_pinned peer) = ap_identity peer \<and>
    (\<exists>t out ses. Handle C fl oc src b now s = (t, out, Some ses) \<and> Peer ses = ap_identity peer \<and> PSK ses = ap_psk peer) \<and>
    (\<forall>t auth. Valid t auth peer \<longleftrightarrow> t < later + lifetime \<and> Lookup auth (ap_identity peer) = Lookup (Authorized s) (ap_identity peer))"
proof -
  obtain ses where h: "Handle C fl oc src b now s = (s', reply, Some ses)" "Peer ses = ap_identity peer" "PSK ses = ap_psk peer"
    "ap_pinned peer = Lookup (Authorized s) (ap_identity peer)" "ap_pinned peer \<noteq> []" "ap_expires peer = later + lifetime"
    using assms(1) by (rule Bootstrap_peer)
  have "(ap_identity peer, ap_pinned peer) \<in> peers_of (Authorized s)"
    using h(4,5) lookup_list_in by (auto simp: Lookup_def peers_of_def split: option.splits)
  then have "ID C (ap_pinned peer) = ap_identity peer" using assms(2) by auto
  with h show ?thesis by (auto simp: Valid_def)
qed

lemma installed_peer_validity_witness:
  "\<exists>s' reply peer. Bootstrap demo fixed_point SessionLifetime demo_draws demo_source demo_finish (2 * second) (3 * second) demo_server =
     (s', reply, Some peer) \<and> ID demo (ap_pinned peer) = ap_identity peer"
proof -
  obtain u ses where h: "Handle demo fixed_point demo_draws demo_source demo_finish (2 * second) demo_server =
      (u, the_ack demo demo_start demo_draws demo_peer, Some ses)"
    by (rule demo_finish_step)
  then obtain peer where b: "Bootstrap demo fixed_point SessionLifetime demo_draws demo_source demo_finish (2 * second) (3 * second) demo_server =
      (u, the_ack demo demo_start demo_draws demo_peer, Some peer)"
    by (simp add: Bootstrap_def)
  have "\<forall>(pid, pub) \<in> peers_of (Authorized demo_server). ID demo pub = pid"
    by (simp add: after_hello_def hello_stored_def charged_def demo_start_def new_server_def peers_of_def)
  from installed_peer_validity [OF b this] b show ?thesis by blast
qed

end
