(* ===== verification/Admission.thy ===== *)
theory Admission
  imports Transport
begin

text \<open>
  How an authenticated peer gets into the network and out of it again: the admission code that QuantumCat
  added to the Tailcat server (\<open>src/third_party/tailcat/quantumcat.go\<close> and the authenticated parts of
  \<open>tailcat.go\<close>). A worker takes bootstrap packets from a bounded inbox, passes them to the bootstrap callback of
  \<open>Transport\<close>, and installs the peers it returns: a pre-shared key, a validity callback, an owner, a time and
  a node per source key, a network map, and a route where there is a tunnel device.

  The backend is one record. Its surroundings are a log of what it asked for: calls into the handshake
  server, the peers the WireGuard device has to look at again, the network maps, the routes, and the
  packets sent. The tables are Go maps; the order of an association list is the order of an iteration.
  A closure that was built by the bootstrap callback is the \<open>auth_peer\<close> with what it captured. It reads the
  clock and the authorized set whenever it is called, so each call has a reading of its own.
\<close>

section \<open>State\<close>

type_synonym reading = "gotime \<times> peer_seq"

definition valid_at :: "reading \<Rightarrow> auth_peer \<Rightarrow> bool" where
  "valid_at r p = Valid (fst r) (snd r) p"

text \<open>An address prefix is an address and the number of its leading bits that count.\<close>

type_synonym prefix = "bytes \<times> nat"

definition pfxOf :: "bytes \<Rightarrow> prefix" where
  "pfxOf a = (a, 8 * length a)"

record node =
  n_ID :: nat
  n_Disco :: bytes
  n_Addresses :: "prefix list"
  n_AllowedIPs :: "prefix list"

definition tcAddrForKey :: "bytes \<Rightarrow> bytes" where
  "tcAddrForKey k = [0xfd, 0x7a, 0x71, 0x63, 0x61, 0x74] @ take 10 k"

record incoming =
  in_region :: nat
  in_src :: bytes
  in_packet :: bytes

record bootstrapAdmission =
  j_src :: bytes
  j_region :: nat
  j_reply :: bytes
  j_peer :: "auth_peer option"
  j_cancelled :: bool

text \<open>What the worker has in its hands: nothing, a packet it has received, or an answer to install.\<close>

datatype hand = Idle | Taken incoming | Answered bootstrapAdmission

datatype effect =
    Call server_event
  | SyncDevicePeer bytes
  | SetNetworkMap "node list"
  | TunnelAdd bytes bool
  | TunnelRemove bytes bool
  | SendDERPPacketTo bytes nat bytes

text \<open>The server runs until \<open>Close\<close> closes \<open>bootstrapDone\<close>, the worker then stops, and \<open>Close\<close> goes on.\<close>

datatype phase = Running | Closing | Stopped | Closed

record backend =
  bk_server :: server
  bk_phase :: phase
  bk_inbox :: "incoming list"
  bk_queued :: "(bytes, nat) gomap"
  bk_hand :: hand
  tunnelPeer :: bool
  allowClient :: bool
  admissions :: "(bytes, bootstrapAdmission) gomap"
  peerPSKs :: "(bytes, bytes) gomap"
  peerValid :: "(bytes, auth_peer) gomap"
  peerOwners :: "(bytes, bytes) gomap"
  peerInstalled :: "(bytes, gotime) gomap"
  clients :: "(bytes, node) gomap"
  nextClientID :: nat
  nm_Peers :: "node list option"
  bk_log :: "effect list"

definition new_backend :: "server \<Rightarrow> bool \<Rightarrow> bool \<Rightarrow> backend" where
  "new_backend s tunnel hook =
     \<lparr>bk_server = s, bk_phase = Running, bk_inbox = [], bk_queued = [], bk_hand = Idle, tunnelPeer = tunnel,
      allowClient = hook, admissions = [], peerPSKs = [], peerValid = [], peerOwners = [], peerInstalled = [],
      clients = [], nextClientID = 0, nm_Peers = None, bk_log = []\<rparr>"

definition emit :: "effect \<Rightarrow> backend \<Rightarrow> backend" where
  "emit x b = b\<lparr>bk_log := bk_log b @ [x]\<rparr>"

section \<open>The inbox\<close>

definition maxQueued :: nat where "maxQueued = 4"
definition inboxSize :: nat where "inboxSize = 64"

definition IsMeowPacket :: "bytes \<Rightarrow> bool" where
  "IsMeowPacket pkt \<longleftrightarrow> 4 \<le> length pkt \<and> take 4 pkt = bytes_of ''meow''"

definition queued_of :: "backend \<Rightarrow> bytes \<Rightarrow> nat" where
  "queued_of b src = (case map_of (bk_queued b) src of None \<Rightarrow> 0 | Some n \<Rightarrow> n)"

text \<open>
  A packet of the relay; the result tells whether it was consumed here, rather than left to WireGuard. A
  packet that finds the inbox full is taken off the count again.
\<close>

definition onDERPRecv :: "nat \<Rightarrow> bytes \<Rightarrow> bytes \<Rightarrow> backend \<Rightarrow> backend \<times> bool" where
  "onDERPRecv region src pkt b =
     (if 4 \<le> length pkt \<and> take 4 pkt = bytes_of ''QCAT'' then
        (if ValidFrame pkt then
           if maxQueued \<le> queued_of b src then b
           else if length (bk_inbox b) < inboxSize then
             b\<lparr>bk_queued := AList.update src (Suc (queued_of b src)) (bk_queued b),
               bk_inbox := bk_inbox b @ [\<lparr>in_region = region, in_src = src, in_packet = pkt\<rparr>]\<rparr>
           else b
         else b, True)
      else (b, IsMeowPacket pkt))"

section \<open>Installation\<close>

definition maxPendingAdmissions :: nat where "maxPendingAdmissions = 64"
definition maxSessionsPerIdentity :: nat where "maxSessionsPerIdentity = 16"
definition maxPeers :: nat where "maxPeers = 4096"

text \<open>The session with the earliest installation among those of an identity, and how many there are.\<close>

fun oldest_from ::
  "(bytes, gotime) gomap \<Rightarrow> bytes \<Rightarrow> (bytes, bytes) gomap \<Rightarrow> bytes \<times> gotime \<times> nat \<Rightarrow> bytes \<times> gotime \<times> nat" where
  "oldest_from inst identity [] acc = acc"
| "oldest_from inst identity ((node, owner) # owners) (oldest, oldestAt, count) =
     (if owner \<noteq> identity then oldest_from inst identity owners (oldest, oldestAt, count)
      else
        (let t = (case map_of inst node of None \<Rightarrow> 0 | Some x \<Rightarrow> x) in
         oldest_from inst identity owners
           (if oldestAt = 0 \<or> t < oldestAt then (node, t, Suc count) else (oldest, oldestAt, Suc count))))"

definition oldestSessionForIdentity ::
  "(bytes, bytes) gomap \<Rightarrow> (bytes, gotime) gomap \<Rightarrow> bytes \<Rightarrow> bytes \<times> nat" where
  "oldestSessionForIdentity owners inst identity =
     (case oldest_from inst identity owners (zeros 32, 0, 0) of (oldest, _, count) \<Rightarrow> (oldest, count))"

text \<open>Rebuilding the network map: sorted by ID when a node is added, in the order of the map otherwise.\<close>

definition set_peers :: "node list \<Rightarrow> backend \<Rightarrow> backend" where
  "set_peers ns b = emit (SetNetworkMap ns) (b\<lparr>nm_Peers := Some ns\<rparr>)"

definition setNetworkMapLocked :: "backend \<Rightarrow> backend" where
  "setNetworkMapLocked b = set_peers (sort_key n_ID (map snd (clients b))) b"

definition refresh_network_map :: "backend \<Rightarrow> backend" where
  "refresh_network_map b = (case nm_Peers b of None \<Rightarrow> b | Some _ \<Rightarrow> set_peers (map snd (clients b)) b)"

definition addClientLocked :: "bytes \<Rightarrow> bytes \<Rightarrow> backend \<Rightarrow> backend" where
  "addClientLocked src disco b =
     (if src \<in> mkeys (clients b) then b
      else
        (let i = (if nextClientID b < 2 then 2 else nextClientID b) in
         setNetworkMapLocked
           (b\<lparr>nextClientID := Suc i,
              clients := AList.update src
                \<lparr>n_ID = i, n_Disco = disco, n_Addresses = [pfxOf (tcAddrForKey src)], n_AllowedIPs = [pfxOf (tcAddrForKey src)]\<rparr> (clients b)\<rparr>)))"

definition forget :: "(bytes \<Rightarrow> bool) \<Rightarrow> backend \<Rightarrow> backend" where
  "forget gone b =
     b\<lparr>peerPSKs := filter (\<lambda>(k, _). \<not> gone k) (peerPSKs b), peerValid := filter (\<lambda>(k, _). \<not> gone k) (peerValid b),
       peerOwners := filter (\<lambda>(k, _). \<not> gone k) (peerOwners b),
       peerInstalled := filter (\<lambda>(k, _). \<not> gone k) (peerInstalled b),
       clients := filter (\<lambda>(k, _). \<not> gone k) (clients b)\<rparr>"

definition removeAuthenticatedPeer :: "bytes \<Rightarrow> backend \<Rightarrow> backend \<times> bool" where
  "removeAuthenticatedPeer k b =
     (emit (SyncDevicePeer k) (refresh_network_map (forget (\<lambda>x. x = k) b)), k \<in> mkeys (clients b))"

text \<open>A request to remove a route may fail; the error is logged or dropped, and nothing depends on it.\<close>

definition remove_route :: "bool \<Rightarrow> bytes \<Rightarrow> backend \<Rightarrow> backend" where
  "remove_route ok k b = (if tunnelPeer b then emit (TunnelRemove k ok) b else b)"

text \<open>
  \<open>finish\<close> ends a job: it wipes the key in the job, which is dropped then, and reports the outcome to the
  handshake, which accepts the transcript or forgets it.
\<close>

definition finish :: "bootstrapAdmission \<Rightarrow> bool \<Rightarrow> backend \<Rightarrow> backend" where
  "finish j ok b =
     (case j_peer j of None \<Rightarrow> b
      | Some p \<Rightarrow> (case ap_installed p of None \<Rightarrow> b
        | Some (h, ref) \<Rightarrow> emit (Call (EvInstalled h ref ok)) (b\<lparr>bk_server := installed (bk_server b) (h, ref) ok\<rparr>)))"

definition send_reply :: "bootstrapAdmission \<Rightarrow> backend \<Rightarrow> backend" where
  "send_reply j b =
     (if 0 < length (j_reply j) then emit (SendDERPPacketTo (j_src j) (j_region j) (j_reply j)) b else b)"

text \<open>
  What a completion meets: the readings of the new and of the present validity callback, the time, whether
  the route can be added, and whether that of an evicted peer can be removed.
\<close>

record chance =
  ch_new :: reading
  ch_old :: reading
  ch_now :: gotime
  ch_route :: bool
  ch_unroute :: bool

definition renewable :: "chance \<Rightarrow> bytes \<Rightarrow> auth_peer \<Rightarrow> backend \<Rightarrow> bool" where
  "renewable ch src p b \<longleftrightarrow>
     ap_identity p \<noteq> zeros 32 \<and>
     (case map_of (peerOwners b) src of None \<Rightarrow> zeros 32 | Some i \<Rightarrow> i) = ap_identity p \<and>
     (case map_of (clients b) src of None \<Rightarrow> False | Some n \<Rightarrow> n_Disco n = ap_disco p) \<and>
     (case map_of (peerValid b) src of None \<Rightarrow> False | Some q \<Rightarrow> valid_at (ch_old ch) q)"

definition renew_peer :: "chance \<Rightarrow> bytes \<Rightarrow> auth_peer \<Rightarrow> backend \<Rightarrow> backend" where
  "renew_peer ch src p b =
     emit (SyncDevicePeer src)
       (b\<lparr>peerPSKs := AList.update src (ap_psk p) (peerPSKs b), peerValid := AList.update src p (peerValid b),
          peerInstalled := AList.update src (ch_now ch) (peerInstalled b)\<rparr>)"

definition evict_oldest :: "chance \<Rightarrow> auth_peer \<Rightarrow> backend \<Rightarrow> backend" where
  "evict_oldest ch p b =
     (case oldestSessionForIdentity (peerOwners b) (peerInstalled b) (ap_identity p) of (oldest, count) \<Rightarrow>
        if maxSessionsPerIdentity \<le> count then remove_route (ch_unroute ch) oldest (fst (removeAuthenticatedPeer oldest b)) else b)"

definition install_peer :: "chance \<Rightarrow> bytes \<Rightarrow> auth_peer \<Rightarrow> backend \<Rightarrow> backend" where
  "install_peer ch src p b =
     addClientLocked src (ap_disco p)
       (b\<lparr>peerPSKs := AList.update src (ap_psk p) (peerPSKs b), peerValid := AList.update src p (peerValid b),
          peerOwners := AList.update src (ap_identity p) (peerOwners b),
          peerInstalled := AList.update src (ch_now ch) (peerInstalled b)\<rparr>)"

definition completeBootstrapLocked :: "chance \<Rightarrow> bootstrapAdmission \<Rightarrow> backend \<Rightarrow> backend" where
  "completeBootstrapLocked ch j b =
     (if bk_phase b \<noteq> Running then finish j False b
      else case j_peer j of None \<Rightarrow> send_reply j b
      | Some p \<Rightarrow>
        if ap_psk p = zeros 32 \<or> \<not> valid_at (ch_new ch) p then finish j False b
        else if j_src j \<in> mkeys (peerPSKs b) then
          (if renewable ch (j_src j) p b then send_reply j (finish j True (renew_peer ch (j_src j) p b))
           else finish j False b)
        else
          (let b1 = evict_oldest ch p b in
           if maxPeers \<le> length (peerPSKs b1) then finish j False b1
           else
             (let b2 = install_peer ch (j_src j) p b1 in
              if tunnelPeer b2 then
                (let b3 = emit (TunnelAdd (j_src j) (ch_route ch)) b2 in
                 if ch_route ch then send_reply j (finish j True b3)
                 else finish j False (fst (removeAuthenticatedPeer (j_src j) b3)))
              else send_reply j (finish j True b2))))"

section \<open>The worker\<close>

definition unqueue :: "bytes \<Rightarrow> backend \<Rightarrow> backend" where
  "unqueue src b =
     b\<lparr>bk_queued := (if queued_of b src - 1 = 0 then AList.delete src (bk_queued b)
                     else AList.update src (queued_of b src - 1) (bk_queued b))\<rparr>"

text \<open>
  A turn on a packet has three parts: receiving it, asking the bootstrap callback, and acting on the
  answer with the peer lifecycle locked. Packets may arrive and peers may be disconnected in between.
\<close>

definition worker_take :: "backend \<Rightarrow> backend" where
  "worker_take b = (case bk_inbox b of [] \<Rightarrow> b | p # ps \<Rightarrow> b\<lparr>bk_inbox := ps, bk_hand := Taken p\<rparr>)"

definition worker_answer ::
  "crypto \<Rightarrow> rounding \<Rightarrow> duration \<Rightarrow> draws \<Rightarrow> gotime \<Rightarrow> gotime \<Rightarrow> incoming \<Rightarrow> backend \<Rightarrow> backend" where
  "worker_answer C fl lifetime oc now later p b =
     (let b1 = unqueue (in_src p) b in
      if in_src p \<in> mkeys (admissions b1) then b1\<lparr>bk_hand := Idle\<rparr>
      else
        (case Bootstrap C fl lifetime oc (in_src p) (in_packet p) now later (bk_server b1) of (s, reply, peer) \<Rightarrow>
           emit (Call (EvHandle oc (in_src p) (in_packet p) now))
             (b1\<lparr>bk_server := s,
                 bk_hand := Answered \<lparr>j_src = in_src p, j_region = in_region p, j_reply = reply, j_peer = peer,
                                      j_cancelled = False\<rparr>\<rparr>)))"

definition worker_commit :: "chance \<Rightarrow> bootstrapAdmission \<Rightarrow> backend \<Rightarrow> backend" where
  "worker_commit ch j b =
     (case j_peer j of
        Some p \<Rightarrow>
          if j_src j \<notin> mkeys (clients b) \<and> allowClient b then
            (if ap_psk p = zeros 32 \<or> \<not> valid_at (ch_new ch) p \<or> maxPendingAdmissions \<le> length (admissions b)
             then finish j False b
             else b\<lparr>admissions := AList.update (j_src j) j (admissions b)\<rparr>)
          else completeBootstrapLocked ch j b
      | None \<Rightarrow> completeBootstrapLocked ch j b)\<lparr>bk_hand := Idle\<rparr>"

definition worker_decided :: "chance \<Rightarrow> bootstrapAdmission \<Rightarrow> bool \<Rightarrow> backend \<Rightarrow> backend" where
  "worker_decided ch j allowed b =
     (let b1 = b\<lparr>admissions := AList.delete (j_src j) (admissions b)\<rparr> in
      if allowed \<and> \<not> j_cancelled j then completeBootstrapLocked ch j b1 else finish j False b1)"

text \<open>The tick: the handshake forgets what has expired, and every peer that is no longer valid goes.\<close>

definition swept :: "(bytes \<Rightarrow> reading) \<Rightarrow> backend \<Rightarrow> bytes list" where
  "swept view b = map fst (filter (\<lambda>(k, p). \<not> valid_at (view k) p) (peerValid b))"

definition disconnect_route :: "(bytes \<Rightarrow> bool) \<Rightarrow> bytes \<Rightarrow> backend \<Rightarrow> backend" where
  "disconnect_route ok k b = remove_route (ok k) k (emit (SyncDevicePeer k) b)"

definition worker_tick :: "gotime \<Rightarrow> (bytes \<Rightarrow> reading) \<Rightarrow> (bytes \<Rightarrow> bool) \<Rightarrow> backend \<Rightarrow> backend" where
  "worker_tick now view ok b =
     (let b1 = emit (Call (EvExpire now)) (b\<lparr>bk_server := Expire now (bk_server b)\<rparr>);
          removed = swept view b1;
          b2 = forget (\<lambda>k. k \<in> set removed) b1;
          b3 = (if 0 < length removed then refresh_network_map b2 else b2) in
      fold (disconnect_route ok) removed b3)"

definition worker_stop :: "backend \<Rightarrow> backend" where
  "worker_stop b = (fold (\<lambda>(k, j). finish j False) (admissions b) b)\<lparr>admissions := [], bk_phase := Stopped\<rparr>"

section \<open>Other operations\<close>

definition DisconnectClient :: "bool \<Rightarrow> bytes \<Rightarrow> backend \<Rightarrow> backend \<times> bool" where
  "DisconnectClient ok k b =
     (let b1 = (case map_of (admissions b) k of None \<Rightarrow> b
                | Some j \<Rightarrow> b\<lparr>admissions := AList.update k (j\<lparr>j_cancelled := True\<rparr>) (admissions b)\<rparr>) in
      case removeAuthenticatedPeer k b1 of (b2, removed) \<Rightarrow> (if removed then remove_route ok k b2 else b2, removed))"

text \<open>The two halves of \<open>Close\<close>: telling the worker to stop, and what follows once it has.\<close>

definition close_begin :: "backend \<Rightarrow> backend" where
  "close_begin b = b\<lparr>bk_phase := Closing\<rparr>"

definition close_end :: "backend \<Rightarrow> backend" where
  "close_end b =
     emit (Call EvClose) (b\<lparr>bk_server := Close (bk_server b), peerPSKs := [], bk_phase := Closed\<rparr>)"

text \<open>
  What the WireGuard device is told about a peer: its addresses and its pre-shared key, which is the zero
  key where the table has none.
\<close>

definition peerConfig :: "reading \<Rightarrow> bytes \<Rightarrow> backend \<Rightarrow> (prefix list \<times> bytes) option" where
  "peerConfig r k b =
     (case map_of (clients b) k of None \<Rightarrow> None
      | Some n \<Rightarrow>
        (case map_of (peerValid b) k of None \<Rightarrow> None
         | Some p \<Rightarrow>
           if valid_at r p
           then Some (n_AllowedIPs n, case map_of (peerPSKs b) k of None \<Rightarrow> zeros 32 | Some psk \<Rightarrow> psk)
           else None))"

section \<open>Runs\<close>

datatype backend_event =
    Arrive nat bytes bytes
  | Take
  | Answer draws gotime gotime
  | Commit chance
  | Decided bytes bool chance
  | Sweep gotime "bytes \<Rightarrow> reading" "bytes \<Rightarrow> bool"
  | Disconnect bytes bool
  | Reauthorize peer_seq
  | Shut
  | Stop
  | Finalize

definition working :: "backend \<Rightarrow> bool" where
  "working b \<longleftrightarrow> bk_phase b = Running \<or> bk_phase b = Closing"

text \<open>
  One step of the server. The worker does one thing at a time and may still pick up work while the server
  is closing; a hook decides about a job that is waiting; the authorized set changes at any time.
\<close>

inductive backend_step :: "crypto \<Rightarrow> rounding \<Rightarrow> duration \<Rightarrow> backend \<Rightarrow> backend_event \<Rightarrow> backend \<Rightarrow> bool"
  for C fl lifetime where
  arrive: "bk_phase b \<noteq> Closed \<Longrightarrow>
     backend_step C fl lifetime b (Arrive region src pkt) (fst (onDERPRecv region src pkt b))"
| take: "working b \<Longrightarrow> bk_hand b = Idle \<Longrightarrow> bk_inbox b \<noteq> [] \<Longrightarrow> backend_step C fl lifetime b Take (worker_take b)"
| answer: "working b \<Longrightarrow> bk_hand b = Taken p \<Longrightarrow> now \<noteq> 0 \<Longrightarrow>
     backend_step C fl lifetime b (Answer oc now later) (worker_answer C fl lifetime oc now later p b)"
| commit: "working b \<Longrightarrow> bk_hand b = Answered j \<Longrightarrow> ch_now ch \<noteq> 0 \<Longrightarrow>
     backend_step C fl lifetime b (Commit ch) (worker_commit ch j b)"
| decided: "working b \<Longrightarrow> bk_hand b = Idle \<Longrightarrow> map_of (admissions b) src = Some j \<Longrightarrow> ch_now ch \<noteq> 0 \<Longrightarrow>
     backend_step C fl lifetime b (Decided src allowed ch) (worker_decided ch j allowed b)"
| sweep: "working b \<Longrightarrow> bk_hand b = Idle \<Longrightarrow> backend_step C fl lifetime b (Sweep now view ok) (worker_tick now view ok b)"
| disconnect: "backend_step C fl lifetime b (Disconnect k ok) (fst (DisconnectClient ok k b))"
| reauthorize: "backend_step C fl lifetime b (Reauthorize auth)
     (emit (Call (EvReload auth)) (b\<lparr>bk_server := (bk_server b)\<lparr>Authorized := auth\<rparr>\<rparr>))"
| shut: "bk_phase b = Running \<Longrightarrow> backend_step C fl lifetime b Shut (close_begin b)"
| stop: "bk_phase b = Closing \<Longrightarrow> bk_hand b = Idle \<Longrightarrow> backend_step C fl lifetime b Stop (worker_stop b)"
| finalize: "bk_phase b = Stopped \<Longrightarrow> backend_step C fl lifetime b Finalize (close_end b)"

inductive_cases backend_stepE: "backend_step C fl lifetime b e t"

end
