(* ===== verification/Admission_Safety.thy ===== *)
theory Admission_Safety
  imports Admission "HOL-Library.Multiset"
begin

text \<open>
  The tables of the admission code under every operation: the rows agree across the tables, their numbers
  are bounded in all and per identity, node IDs are not shared, and the network map shows the same nodes.
\<close>

section \<open>Frame lemmas\<close>

text \<open>What the auxiliary operations leave alone.\<close>

lemma emit_simps [simp]:
  "bk_server (emit x b) = bk_server b" "bk_phase (emit x b) = bk_phase b" "bk_inbox (emit x b) = bk_inbox b"
  "bk_queued (emit x b) = bk_queued b" "bk_hand (emit x b) = bk_hand b" "tunnelPeer (emit x b) = tunnelPeer b"
  "allowClient (emit x b) = allowClient b" "admissions (emit x b) = admissions b" "peerPSKs (emit x b) = peerPSKs b"
  "peerValid (emit x b) = peerValid b" "peerOwners (emit x b) = peerOwners b" "peerInstalled (emit x b) = peerInstalled b"
  "clients (emit x b) = clients b" "nextClientID (emit x b) = nextClientID b" "nm_Peers (emit x b) = nm_Peers b"
  "bk_log (emit x b) = bk_log b @ [x]"
  by (simp_all add: emit_def)

text \<open>Two backends with the same tables and the same network map.\<close>

definition same_tables :: "backend \<Rightarrow> backend \<Rightarrow> bool" where
  "same_tables b t \<longleftrightarrow> peerPSKs t = peerPSKs b \<and> peerValid t = peerValid b \<and> peerOwners t = peerOwners b \<and>
     peerInstalled t = peerInstalled b \<and> clients t = clients b \<and> nextClientID t = nextClientID b \<and>
     nm_Peers t = nm_Peers b \<and> bk_phase t = bk_phase b"

text \<open>Two backends with the same worker: inbox, hand, waiting jobs and configuration.\<close>

definition same_worker :: "backend \<Rightarrow> backend \<Rightarrow> bool" where
  "same_worker b t \<longleftrightarrow> bk_inbox t = bk_inbox b \<and> bk_queued t = bk_queued b \<and> bk_hand t = bk_hand b \<and>
     admissions t = admissions b \<and> bk_phase t = bk_phase b \<and> tunnelPeer t = tunnelPeer b \<and> allowClient t = allowClient b"

lemma same_refl [simp]: "same_tables b b" "same_worker b b"
  by (simp_all add: same_tables_def same_worker_def)

lemma same_tables_trans: "same_tables a b \<Longrightarrow> same_tables b c \<Longrightarrow> same_tables a c"
  by (simp add: same_tables_def)

lemma same_worker_trans: "same_worker a b \<Longrightarrow> same_worker b c \<Longrightarrow> same_worker a c"
  by (simp add: same_worker_def)

lemma same_tables_emit [simp]: "same_tables b (emit x b)" "same_worker b (emit x b)"
  by (simp_all add: same_tables_def same_worker_def)

lemma finish_same [simp]: "same_tables b (finish j ok b)" "same_worker b (finish j ok b)"
  by (auto simp: finish_def same_tables_def same_worker_def split: option.splits)

lemma send_reply_same [simp]: "same_tables b (send_reply j b)" "same_worker b (send_reply j b)"
  by (auto simp: send_reply_def)

lemma remove_route_same [simp]: "same_tables b (remove_route ok k b)" "same_worker b (remove_route ok k b)"
  by (auto simp: remove_route_def)

lemma disconnect_routes_same: "same_tables b (fold (disconnect_route ok) ks b)" "same_worker b (fold (disconnect_route ok) ks b)"
proof -
  have "same_tables b (fold (disconnect_route ok) ks b) \<and> same_worker b (fold (disconnect_route ok) ks b)"
  proof (induction ks arbitrary: b)
    case (Cons k ks)
    have "same_tables b (disconnect_route ok k b)" "same_worker b (disconnect_route ok k b)"
      using same_tables_trans [OF same_tables_emit(1) remove_route_same(1)]
        same_worker_trans [OF same_tables_emit(2) remove_route_same(2)]
      by (auto simp: disconnect_route_def)
    with Cons [of "disconnect_route ok k b"] show ?case by (auto intro: same_tables_trans same_worker_trans)
  qed simp
  then show "same_tables b (fold (disconnect_route ok) ks b)" "same_worker b (fold (disconnect_route ok) ks b)" by simp_all
qed

lemma forget_worker [simp]: "same_worker b (forget gone b)" "bk_server (forget gone b) = bk_server b" "bk_log (forget gone b) = bk_log b"
  by (simp_all add: forget_def same_worker_def)

lemma set_peers_simps [simp]:
  "same_worker b (set_peers ns b)" "bk_server (set_peers ns b) = bk_server b"
  "peerPSKs (set_peers ns b) = peerPSKs b" "peerValid (set_peers ns b) = peerValid b"
  "peerOwners (set_peers ns b) = peerOwners b" "peerInstalled (set_peers ns b) = peerInstalled b"
  "clients (set_peers ns b) = clients b" "nextClientID (set_peers ns b) = nextClientID b"
  "nm_Peers (set_peers ns b) = Some ns" "bk_phase (set_peers ns b) = bk_phase b"
  by (simp_all add: set_peers_def same_worker_def)

lemma refresh_simps [simp]:
  "same_worker b (refresh_network_map b)" "bk_server (refresh_network_map b) = bk_server b"
  "peerPSKs (refresh_network_map b) = peerPSKs b" "peerValid (refresh_network_map b) = peerValid b"
  "peerOwners (refresh_network_map b) = peerOwners b" "peerInstalled (refresh_network_map b) = peerInstalled b"
  "clients (refresh_network_map b) = clients b" "nextClientID (refresh_network_map b) = nextClientID b"
  "nm_Peers (refresh_network_map b) = map_option (\<lambda>_. map snd (clients b)) (nm_Peers b)"
  "bk_phase (refresh_network_map b) = bk_phase b"
  by (auto simp: refresh_network_map_def split: option.splits)

section \<open>Rows\<close>

lemma update_fresh: "k \<notin> mkeys m \<Longrightarrow> AList.update k v m = m @ [(k, v)]"
  by (induction m) auto

lemma map_of_forget: "map_of (filter (\<lambda>(k, _). \<not> gone k) m) k = (if gone k then None else map_of m k)"
  by (induction m) auto

text \<open>
  What the tables hold for a source key: nothing in any of them, or one session, the same in all of them.
  \<open>Close\<close> ends by wiping the pre-shared keys.
\<close>

definition node_of :: "nat \<Rightarrow> bytes \<Rightarrow> auth_peer \<Rightarrow> node \<Rightarrow> bool" where
  "node_of next k p n \<longleftrightarrow> n_Disco n = ap_disco p \<and> n_Addresses n = [pfxOf (tcAddrForKey k)] \<and> n_AllowedIPs n = [pfxOf (tcAddrForKey k)] \<and>
     2 \<le> n_ID n \<and> n_ID n < next"

definition row_ok :: "backend \<Rightarrow> bytes \<Rightarrow> bool" where
  "row_ok b k \<longleftrightarrow>
     (case map_of (peerValid b) k of
        None \<Rightarrow> map_of (peerPSKs b) k = None \<and> map_of (peerOwners b) k = None \<and> map_of (peerInstalled b) k = None \<and>
          map_of (clients b) k = None
      | Some p \<Rightarrow> ap_psk p \<noteq> zeros 32 \<and> map_of (peerOwners b) k = Some (ap_identity p) \<and>
          (\<exists>t. map_of (peerInstalled b) k = Some t \<and> t \<noteq> 0) \<and>
          (\<exists>n. map_of (clients b) k = Some n \<and> node_of (nextClientID b) k p n) \<and>
          map_of (peerPSKs b) k = (if bk_phase b = Closed then None else Some (ap_psk p)))"

definition keys_distinct :: "backend \<Rightarrow> bool" where
  "keys_distinct b \<longleftrightarrow> mdistinct (peerPSKs b) \<and> mdistinct (peerValid b) \<and> mdistinct (peerOwners b) \<and>
     mdistinct (peerInstalled b) \<and> mdistinct (clients b)"

definition node_ids :: "backend \<Rightarrow> nat list" where
  "node_ids b = map (n_ID \<circ> snd) (clients b)"

definition map_ok :: "backend \<Rightarrow> bool" where
  "map_ok b \<longleftrightarrow> (case nm_Peers b of None \<Rightarrow> clients b = [] | Some ns \<Rightarrow> mset ns = mset (map snd (clients b)))"

definition sessions :: "bytes \<Rightarrow> backend \<Rightarrow> nat" where
  "sessions i b = length (filter (\<lambda>(k, x). x = i) (peerOwners b))"

definition peers_inv :: "backend \<Rightarrow> bool" where
  "peers_inv b \<longleftrightarrow> (\<forall>k. row_ok b k) \<and> keys_distinct b \<and> distinct (node_ids b) \<and> map_ok b \<and>
     (\<forall>i. sessions i b \<le> maxSessionsPerIdentity) \<and> length (peerPSKs b) \<le> maxPeers"

lemmas peers_inv_defs = peers_inv_def row_ok_def keys_distinct_def node_ids_def map_ok_def sessions_def

lemma peers_inv_same: "same_tables b t \<Longrightarrow> peers_inv t = peers_inv b"
  by (simp add: peers_inv_defs same_tables_def cong: option.case_cong)

lemma peers_inv_new: "peers_inv (new_backend s tunnel hook)"
  by (simp add: peers_inv_defs new_backend_def)

lemma length_filter_less: "x \<in> set xs \<Longrightarrow> P x \<Longrightarrow> \<not> Q x \<Longrightarrow> length (filter (\<lambda>y. P y \<and> Q y) xs) < length (filter P xs)"
proof (induction xs)
  case (Cons y ys)
  have "length (filter (\<lambda>y. P y \<and> Q y) ys) \<le> length (filter P ys)" by (induction ys) auto
  with Cons show ?case by auto
qed simp

lemma sessions_forget: "sessions i (forget gone b) \<le> sessions i b"
proof -
  have "length (filter P (filter Q xs)) \<le> length (filter P xs)" for P Q and xs :: "(bytes \<times> bytes) list"
    by (induction xs) auto
  then show ?thesis by (simp add: sessions_def forget_def)
qed

lemma forget_False [simp]: "forget (\<lambda>_. False) b = b"
  by (simp add: forget_def filter_True split_def)

lemma row_ok_forget: "row_ok b k \<Longrightarrow> row_ok (forget gone b) k"
  by (cases "gone k") (simp_all add: row_ok_def forget_def map_of_forget cong: option.case_cong)

lemma peers_inv_forget:
  assumes "peers_inv b"
  shows "peers_inv (refresh_network_map (forget gone b))"
proof -
  have rows: "row_ok (refresh_network_map (forget gone b)) k" for k
    using assms row_ok_forget [of b k gone] by (simp add: peers_inv_def row_ok_def cong: option.case_cong)
  have dist: "keys_distinct (forget gone b)" "distinct (node_ids (forget gone b))"
    using assms by (auto simp: peers_inv_def keys_distinct_def node_ids_def forget_def mdistinct_filter distinct_map_filter)
  have map: "map_ok (refresh_network_map (forget gone b))"
    using assms by (auto simp: peers_inv_def map_ok_def forget_def split: option.splits)
  have "length (peerPSKs (forget gone b)) \<le> length (peerPSKs b)" by (simp add: forget_def)
  then have "length (peerPSKs (forget gone b)) \<le> maxPeers" using assms unfolding peers_inv_def by linarith
  moreover have "sessions i (forget gone b) \<le> maxSessionsPerIdentity" for i
    using assms sessions_forget [of i gone b] unfolding peers_inv_def by (meson order.trans)
  ultimately show ?thesis
    using rows dist map by (simp add: peers_inv_def keys_distinct_def node_ids_def sessions_def)
qed

section \<open>Eviction\<close>

definition time_of :: "(bytes, gotime) gomap \<Rightarrow> bytes \<Rightarrow> gotime" where
  "time_of inst k = (case map_of inst k of None \<Rightarrow> 0 | Some t \<Rightarrow> t)"

lemma oldest_from_spec:
  assumes "oldest_from inst i owners (a, t, n) = (a', t', n')" "\<forall>k \<in> mkeys owners. time_of inst k \<noteq> 0"
  shows "n' = n + length (filter (\<lambda>(k, x). x = i) owners) \<and>
    (if t = 0 \<and> (\<forall>k. (k, i) \<notin> set owners) then a' = a \<and> t' = t
     else (a' = a \<and> t' = t \<and> t \<noteq> 0 \<or> (a', i) \<in> set owners \<and> t' = time_of inst a') \<and>
       (t \<noteq> 0 \<longrightarrow> t' \<le> t) \<and> (\<forall>k. (k, i) \<in> set owners \<longrightarrow> t' \<le> time_of inst k))"
  using assms
proof (induction owners arbitrary: a t n)
  case (Cons ko owners)
  obtain k x where ko: "ko = (k, x)" by fastforce
  show ?case
  proof (cases "x = i")
    case False
    with Cons.IH [of a t n] Cons.prems ko show ?thesis by auto
  next
    case True
    have nz: "time_of inst k \<noteq> 0" using Cons.prems(2) ko by auto
    define acc where "acc = (if t = 0 \<or> time_of inst k < t then (k, time_of inst k) else (a, t))"
    have step: "oldest_from inst i owners (fst acc, snd acc, Suc n) = (a', t', n')"
      using Cons.prems(1) ko True by (auto simp: acc_def time_of_def Let_def split: if_splits)
    have acc: "snd acc \<noteq> 0" using nz by (auto simp: acc_def)
    from Cons.IH [OF step] Cons.prems(2) acc
    have IH: "n' = Suc n + length (filter (\<lambda>(k, x). x = i) owners)"
      "(a' = fst acc \<and> t' = snd acc \<or> (a', i) \<in> set owners \<and> t' = time_of inst a')"
      "t' \<le> snd acc" "\<forall>k. (k, i) \<in> set owners \<longrightarrow> t' \<le> time_of inst k"
      by auto
    have "snd acc \<le> time_of inst k" "t \<noteq> 0 \<Longrightarrow> snd acc \<le> t" by (auto simp: acc_def)
    with IH True ko nz show ?thesis by (auto simp: acc_def split: if_splits)
  qed
qed simp

text \<open>The oldest session of an identity that has one, and the number of its sessions.\<close>

lemma oldestSession_spec:
  assumes "oldestSessionForIdentity owners inst i = (k, n)" "\<forall>k \<in> mkeys owners. time_of inst k \<noteq> 0"
  shows "n = length (filter (\<lambda>(k, x). x = i) owners)"
    "0 < n \<Longrightarrow> (k, i) \<in> set owners \<and> (\<forall>k'. (k', i) \<in> set owners \<longrightarrow> time_of inst k \<le> time_of inst k')"
proof -
  obtain t where o: "oldest_from inst i owners (zeros 32, 0, 0) = (k, t, n)"
    using assms(1) by (auto simp: oldestSessionForIdentity_def split: prod.splits)
  note spec = oldest_from_spec [OF o assms(2)]
  show "n = length (filter (\<lambda>(k, x). x = i) owners)" using spec by simp
  assume "0 < n"
  then have "\<not> (\<forall>k. (k, i) \<notin> set owners)" using spec by (auto simp: filter_empty_conv)
  with spec show "(k, i) \<in> set owners \<and> (\<forall>k'. (k', i) \<in> set owners \<longrightarrow> time_of inst k \<le> time_of inst k')" by auto
qed

lemma removeAuthenticatedPeer_inv: "peers_inv b \<Longrightarrow> peers_inv (fst (removeAuthenticatedPeer k b))"
  using peers_inv_forget [of b "\<lambda>x. x = k"] peers_inv_same [OF same_tables_emit(1)]
  by (simp add: removeAuthenticatedPeer_def)

lemma peers_inv_times: "peers_inv b \<Longrightarrow> \<forall>k \<in> mkeys (peerOwners b). time_of (peerInstalled b) k \<noteq> 0"
proof
  fix k
  assume "peers_inv b" "k \<in> mkeys (peerOwners b)"
  then have "row_ok b k" "map_of (peerOwners b) k \<noteq> None" by (auto simp: peers_inv_def map_of_eq_None_iff)
  then show "time_of (peerInstalled b) k \<noteq> 0" by (auto simp: row_ok_def time_of_def split: option.splits)
qed

text \<open>
  Making room for an identity: nothing happens below its limit; at the limit its oldest session goes,
  with its route, and nothing else does.
\<close>

lemma evict_oldest_cases:
  assumes "peers_inv b"
  obtains (room) "evict_oldest ch p b = b" "sessions (ap_identity p) b < maxSessionsPerIdentity"
  | (evicted) k where "evict_oldest ch p b = remove_route (ch_unroute ch) k (fst (removeAuthenticatedPeer k b))"
      "map_of (peerOwners b) k = Some (ap_identity p)"
      "\<forall>k'. map_of (peerOwners b) k' = Some (ap_identity p) \<longrightarrow> time_of (peerInstalled b) k \<le> time_of (peerInstalled b) k'"
proof -
  obtain k n where o: "oldestSessionForIdentity (peerOwners b) (peerInstalled b) (ap_identity p) = (k, n)" by fastforce
  note spec = oldestSession_spec [OF o peers_inv_times [OF assms]]
  have d: "mdistinct (peerOwners b)" using assms by (simp add: peers_inv_def keys_distinct_def)
  show thesis
  proof (cases "maxSessionsPerIdentity \<le> n")
    case True
    then have "0 < n" by (simp add: maxSessionsPerIdentity_def)
    note old = spec(2) [OF this]
    show thesis
    proof (rule evicted)
      show "evict_oldest ch p b = remove_route (ch_unroute ch) k (fst (removeAuthenticatedPeer k b))"
        using o True by (simp add: evict_oldest_def)
    qed (use old d in \<open>auto dest: map_of_SomeD\<close>)
  next
    case False
    then show thesis using o spec(1) by (intro room) (auto simp: evict_oldest_def sessions_def)
  qed
qed

lemma evict_oldest_inv: "peers_inv b \<Longrightarrow> peers_inv (evict_oldest ch p b)"
  by (cases rule: evict_oldest_cases [of b ch p])
    (auto simp: peers_inv_same [OF remove_route_same(1)] removeAuthenticatedPeer_inv)

lemma evict_oldest_room:
  assumes "peers_inv b"
  shows "sessions (ap_identity p) (evict_oldest ch p b) < maxSessionsPerIdentity"
  using assms
proof (cases rule: evict_oldest_cases [of b ch p])
  case (evicted k)
  have "(k, ap_identity p) \<in> set (peerOwners b)" using evicted(2) by (rule map_of_SomeD)
  then have "length (filter (\<lambda>y. snd y = ap_identity p \<and> fst y \<noteq> k) (peerOwners b)) < sessions (ap_identity p) b"
    using length_filter_less [of "(k, ap_identity p)" "peerOwners b" "\<lambda>y. snd y = ap_identity p" "\<lambda>y. fst y \<noteq> k"]
    by (simp add: sessions_def split_def)
  moreover have "peerOwners (evict_oldest ch p b) = filter (\<lambda>y. fst y \<noteq> k) (peerOwners b)"
    using evicted(1) remove_route_same(1) [of "fst (removeAuthenticatedPeer k b)" "ch_unroute ch" k]
    by (simp add: same_tables_def removeAuthenticatedPeer_def forget_def split_def)
  ultimately have "sessions (ap_identity p) (evict_oldest ch p b) < sessions (ap_identity p) b"
    by (simp add: sessions_def split_def conj_commute)
  with assms show ?thesis unfolding peers_inv_def by (meson less_le_trans)
qed auto

section \<open>Installing and renewing\<close>

lemma sessions_update:
  "sessions i (b\<lparr>peerOwners := AList.update k x (peerOwners b)\<rparr>) \<le> sessions i b + (if x = i then 1 else 0)"
proof -
  have "length (filter (\<lambda>(k, x). x = i) (AList.update k x m)) \<le> length (filter (\<lambda>(k, x). x = i) m) + (if x = i then 1 else 0)" for m
    by (induction m) auto
  then show ?thesis by (simp add: sessions_def)
qed

lemma install_peer_simps:
  assumes "map_of (clients b) src = None"
  defines "i \<equiv> if nextClientID b < 2 then 2 else nextClientID b"
  shows "peerPSKs (install_peer ch src p b) = AList.update src (ap_psk p) (peerPSKs b)"
    "peerValid (install_peer ch src p b) = AList.update src p (peerValid b)"
    "peerOwners (install_peer ch src p b) = AList.update src (ap_identity p) (peerOwners b)"
    "peerInstalled (install_peer ch src p b) = AList.update src (ch_now ch) (peerInstalled b)"
    "clients (install_peer ch src p b) = clients b @
      [(src, \<lparr>n_ID = i, n_Disco = ap_disco p, n_Addresses = [pfxOf (tcAddrForKey src)], n_AllowedIPs = [pfxOf (tcAddrForKey src)]\<rparr>)]"
    "nextClientID (install_peer ch src p b) = Suc i"
    "nm_Peers (install_peer ch src p b) = Some (sort_key n_ID (map snd (clients (install_peer ch src p b))))"
    "bk_server (install_peer ch src p b) = bk_server b" "same_worker b (install_peer ch src p b)"
proof -
  have "src \<notin> mkeys (clients b)" using assms by (simp add: map_of_eq_None_iff)
  then have "AList.update src n (clients b) = clients b @ [(src, n)]" for n by (rule update_fresh)
  with \<open>src \<notin> mkeys (clients b)\<close> show "peerPSKs (install_peer ch src p b) = AList.update src (ap_psk p) (peerPSKs b)"
    "peerValid (install_peer ch src p b) = AList.update src p (peerValid b)"
    "peerOwners (install_peer ch src p b) = AList.update src (ap_identity p) (peerOwners b)"
    "peerInstalled (install_peer ch src p b) = AList.update src (ch_now ch) (peerInstalled b)"
    "clients (install_peer ch src p b) = clients b @
      [(src, \<lparr>n_ID = i, n_Disco = ap_disco p, n_Addresses = [pfxOf (tcAddrForKey src)], n_AllowedIPs = [pfxOf (tcAddrForKey src)]\<rparr>)]"
    "nextClientID (install_peer ch src p b) = Suc i"
    "nm_Peers (install_peer ch src p b) = Some (sort_key n_ID (map snd (clients (install_peer ch src p b))))"
    "bk_server (install_peer ch src p b) = bk_server b" "same_worker b (install_peer ch src p b)"
    by (simp_all add: install_peer_def addClientLocked_def setNetworkMapLocked_def Let_def i_def same_worker_def set_peers_def)
qed

lemma node_of_mono: "node_of m k p n \<Longrightarrow> m \<le> m' \<Longrightarrow> node_of m' k p n"
  by (simp add: node_of_def)

lemma row_absent:
  assumes "peers_inv b" "bk_phase b \<noteq> Closed" "map_of (peerPSKs b) k = None"
  shows "map_of (peerValid b) k = None" "map_of (peerOwners b) k = None" "map_of (peerInstalled b) k = None"
    "map_of (clients b) k = None"
proof -
  have "row_ok b k" using assms(1) by (simp add: peers_inv_def)
  then show "map_of (peerValid b) k = None" "map_of (peerOwners b) k = None" "map_of (peerInstalled b) k = None"
    "map_of (clients b) k = None"
    using assms(2,3) by (auto simp: row_ok_def split: option.splits)
qed

lemma row_present:
  assumes "peers_inv b" "map_of (peerValid b) k = Some p"
  obtains n t where "map_of (clients b) k = Some n" "node_of (nextClientID b) k p n" "map_of (peerInstalled b) k = Some t"
    "t \<noteq> 0" "map_of (peerOwners b) k = Some (ap_identity p)" "ap_psk p \<noteq> zeros 32"
    "map_of (peerPSKs b) k = (if bk_phase b = Closed then None else Some (ap_psk p))"
proof -
  have "row_ok b k" using assms(1) by (simp add: peers_inv_def)
  with assms(2) that show thesis by (auto simp: row_ok_def)
qed

lemma node_row:
  assumes "peers_inv b" "map_of (clients b) k = Some n"
  obtains p where "map_of (peerValid b) k = Some p" "node_of (nextClientID b) k p n"
proof -
  have "row_ok b k" using assms(1) by (simp add: peers_inv_def)
  with assms(2) that show thesis by (auto simp: row_ok_def split: option.splits)
qed

lemma node_ids_bound: "peers_inv b \<Longrightarrow> (k, n) \<in> set (clients b) \<Longrightarrow> n_ID n < nextClientID b"
proof -
  assume inv: "peers_inv b" and "(k, n) \<in> set (clients b)"
  then have "map_of (clients b) k = Some n" by (simp add: peers_inv_def keys_distinct_def)
  with inv show ?thesis by (rule node_row) (simp add: node_of_def)
qed

lemma install_peer_inv:
  assumes inv: "peers_inv b" and run: "bk_phase b \<noteq> Closed" and new: "map_of (peerPSKs b) src = None"
    and p: "ap_psk p \<noteq> zeros 32" "ch_now ch \<noteq> 0"
    and room: "sessions (ap_identity p) b < maxSessionsPerIdentity" "length (peerPSKs b) < maxPeers"
  shows "peers_inv (install_peer ch src p b)"
proof -
  note absent = row_absent [OF inv run new]
  note simps = install_peer_simps [OF absent(4)]
  let ?t = "install_peer ch src p b"
  have phase: "bk_phase ?t = bk_phase b" using simps(9) by (simp add: same_worker_def)
  have next_le: "nextClientID b \<le> nextClientID ?t" by (simp add: simps)
  have row: "row_ok ?t k" for k
  proof (cases "k = src")
    case True
    then show ?thesis using p run absent by (simp add: row_ok_def simps phase node_of_def update_conv map_add_def)
  next
    case False
    have "row_ok b k" using inv by (simp add: peers_inv_def)
    then show ?thesis
      using False node_of_mono [OF _ next_le] by (auto simp: row_ok_def simps(1-5) phase update_conv map_add_def split: option.splits)
  qed
  have dist: "keys_distinct ?t"
    using inv absent(4) by (auto simp: peers_inv_def keys_distinct_def simps distinct_update map_of_eq_None_iff)
  have ids: "distinct (node_ids ?t)"
    using inv node_ids_bound [OF inv] by (force simp: peers_inv_def node_ids_def simps)
  have "sessions i ?t \<le> maxSessionsPerIdentity" for i
    using sessions_update [of i src "ap_identity p" b] inv room(1)
    by (cases "ap_identity p = i") (auto simp: peers_inv_def sessions_def simps intro: le_trans)
  moreover have "length (peerPSKs ?t) \<le> maxPeers"
    using length_update_le [of src "ap_psk p" "peerPSKs b"] room(2) by (simp add: simps)
  ultimately show ?thesis using row dist ids by (simp add: peers_inv_def map_ok_def simps(7))
qed

lemma renew_peer_simps [simp]:
  "peerPSKs (renew_peer ch src p b) = AList.update src (ap_psk p) (peerPSKs b)"
  "peerValid (renew_peer ch src p b) = AList.update src p (peerValid b)"
  "peerInstalled (renew_peer ch src p b) = AList.update src (ch_now ch) (peerInstalled b)"
  "peerOwners (renew_peer ch src p b) = peerOwners b" "clients (renew_peer ch src p b) = clients b"
  "nextClientID (renew_peer ch src p b) = nextClientID b" "nm_Peers (renew_peer ch src p b) = nm_Peers b"
  "bk_server (renew_peer ch src p b) = bk_server b" "same_worker b (renew_peer ch src p b)"
  "bk_phase (renew_peer ch src p b) = bk_phase b"
  by (simp_all add: renew_peer_def same_worker_def)

lemma renewable_row:
  assumes "peers_inv b" "renewable ch src p b"
  obtains q n where "map_of (peerValid b) src = Some q" "valid_at (ch_old ch) q" "ap_identity q = ap_identity p"
    "map_of (clients b) src = Some n" "n_Disco n = ap_disco p"
proof -
  obtain q where q: "map_of (peerValid b) src = Some q" "valid_at (ch_old ch) q"
    using assms(2) by (auto simp: renewable_def split: option.splits)
  obtain n where n: "map_of (clients b) src = Some n" "map_of (peerOwners b) src = Some (ap_identity q)"
    using row_present [OF assms(1) q(1)] by metis
  show thesis using that [OF q] n assms(2) by (auto simp: renewable_def)
qed

lemma renew_peer_inv:
  assumes inv: "peers_inv b" and run: "bk_phase b \<noteq> Closed" and ok: "renewable ch src p b"
    and p: "ap_psk p \<noteq> zeros 32" "ch_now ch \<noteq> 0"
  shows "peers_inv (renew_peer ch src p b)"
proof -
  obtain q n where q: "map_of (peerValid b) src = Some q" "ap_identity q = ap_identity p"
    "map_of (clients b) src = Some n" "n_Disco n = ap_disco p"
    using inv ok by (rule renewable_row)
  have old: "map_of (peerPSKs b) src = Some (ap_psk q)" "map_of (peerOwners b) src = Some (ap_identity q)"
    "node_of (nextClientID b) src q n"
    using row_present [OF inv q(1)] run q(3) by (metis option.inject)+
  have "row_ok (renew_peer ch src p b) k" for k
  proof (cases "k = src")
    case True
    then show ?thesis using p run q old by (simp add: row_ok_def update_conv node_of_def)
  next
    case False
    have "row_ok b k" using inv by (simp add: peers_inv_def)
    then show ?thesis using False by (simp add: row_ok_def update_conv cong: option.case_cong)
  qed
  moreover have "length (AList.update src (ap_psk p) (peerPSKs b)) = length (peerPSKs b)"
    using map_of_in_mkeys [of "peerPSKs b" src] old(1) by (simp add: length_update)
  ultimately show ?thesis
    using inv by (simp add: peers_inv_def keys_distinct_def node_ids_def map_ok_def sessions_def distinct_update
        cong: option.case_cong)
qed

section \<open>Completion\<close>

text \<open>The outcomes of a completion, in the order of the code.\<close>

definition fresh_peer :: "chance \<Rightarrow> auth_peer \<Rightarrow> bool" where
  "fresh_peer ch p \<longleftrightarrow> ap_psk p \<noteq> zeros 32 \<and> valid_at (ch_new ch) p"

definition with_route :: "bytes \<Rightarrow> bool \<Rightarrow> backend \<Rightarrow> backend" where
  "with_route src ok b = (if tunnelPeer b then emit (TunnelAdd src ok) b else b)"

lemma with_route_same [simp]: "same_tables b (with_route src ok b)" "same_worker b (with_route src ok b)"
  by (auto simp: with_route_def)

lemma evict_oldest_worker: "same_worker b (evict_oldest ch p b)" "bk_server (evict_oldest ch p b) = bk_server b"
proof -
  have "same_worker b (remove_route ok k (fst (removeAuthenticatedPeer k b)))" for k ok
    using same_worker_trans [OF forget_worker(1) refresh_simps(1), of b "\<lambda>x. x = k"]
      same_worker_trans [OF same_tables_emit(2) remove_route_same(2)]
    by (auto simp: removeAuthenticatedPeer_def intro: same_worker_trans)
  then show "same_worker b (evict_oldest ch p b)" by (simp add: evict_oldest_def split: prod.split)
  show "bk_server (evict_oldest ch p b) = bk_server b"
    by (auto simp: evict_oldest_def remove_route_def removeAuthenticatedPeer_def split: prod.split)
qed

lemma completeBootstrap_cases:
  obtains (closing) "bk_phase b \<noteq> Running" "completeBootstrapLocked ch j b = finish j False b"
  | (answer) "bk_phase b = Running" "j_peer j = None" "completeBootstrapLocked ch j b = send_reply j b"
  | (refused) p where "bk_phase b = Running" "j_peer j = Some p" "completeBootstrapLocked ch j b = finish j False b"
      "\<not> fresh_peer ch p \<or> map_of (peerPSKs b) (j_src j) \<noteq> None \<and> \<not> renewable ch (j_src j) p b"
  | (renewed) p where "bk_phase b = Running" "j_peer j = Some p" "fresh_peer ch p" "map_of (peerPSKs b) (j_src j) \<noteq> None"
      "renewable ch (j_src j) p b"
      "completeBootstrapLocked ch j b = send_reply j (finish j True (renew_peer ch (j_src j) p b))"
  | (full) p where "bk_phase b = Running" "j_peer j = Some p" "fresh_peer ch p" "map_of (peerPSKs b) (j_src j) = None"
      "maxPeers \<le> length (peerPSKs (evict_oldest ch p b))"
      "completeBootstrapLocked ch j b = finish j False (evict_oldest ch p b)"
  | (unrouted) p where "bk_phase b = Running" "j_peer j = Some p" "fresh_peer ch p" "map_of (peerPSKs b) (j_src j) = None"
      "length (peerPSKs (evict_oldest ch p b)) < maxPeers" "tunnelPeer b" "\<not> ch_route ch"
      "completeBootstrapLocked ch j b = finish j False (fst (removeAuthenticatedPeer (j_src j)
         (with_route (j_src j) False (install_peer ch (j_src j) p (evict_oldest ch p b)))))"
  | (added) p where "bk_phase b = Running" "j_peer j = Some p" "fresh_peer ch p" "map_of (peerPSKs b) (j_src j) = None"
      "length (peerPSKs (evict_oldest ch p b)) < maxPeers" "tunnelPeer b \<Longrightarrow> ch_route ch"
      "completeBootstrapLocked ch j b = send_reply j (finish j True
         (with_route (j_src j) True (install_peer ch (j_src j) p (evict_oldest ch p b))))"
proof (cases "bk_phase b = Running")
  case False
  then show thesis by (intro closing) (simp_all add: completeBootstrapLocked_def)
next
  case run: True
  show thesis
  proof (cases "j_peer j")
    case None
    with run show thesis by (intro answer) (simp_all add: completeBootstrapLocked_def)
  next
    case (Some p)
    let ?i = "install_peer ch (j_src j) p (evict_oldest ch p b)"
    have tp: "tunnelPeer ?i = tunnelPeer b"
      using evict_oldest_worker(1) [of b ch p]
      by (simp add: same_worker_def install_peer_def addClientLocked_def setNetworkMapLocked_def set_peers_def Let_def)
    note eq = completeBootstrapLocked_def [of ch j b] Let_def fresh_peer_def map_of_eq_None_iff with_route_def tp run Some
    consider "\<not> fresh_peer ch p \<or> map_of (peerPSKs b) (j_src j) \<noteq> None \<and> \<not> renewable ch (j_src j) p b"
      | "fresh_peer ch p" "map_of (peerPSKs b) (j_src j) \<noteq> None" "renewable ch (j_src j) p b"
      | "fresh_peer ch p" "map_of (peerPSKs b) (j_src j) = None" "maxPeers \<le> length (peerPSKs (evict_oldest ch p b))"
      | "fresh_peer ch p" "map_of (peerPSKs b) (j_src j) = None" "length (peerPSKs (evict_oldest ch p b)) < maxPeers"
          "tunnelPeer b" "\<not> ch_route ch"
      | "fresh_peer ch p" "map_of (peerPSKs b) (j_src j) = None" "length (peerPSKs (evict_oldest ch p b)) < maxPeers"
          "tunnelPeer b \<longrightarrow> ch_route ch"
      by linarith
    then show thesis
    proof cases
      case 1
      then show thesis using run Some by (intro refused) (auto simp: eq)
    next
      case 2
      then show thesis using run Some by (intro renewed) (auto simp: eq)
    next
      case 3
      then show thesis using run Some by (intro full) (auto simp: eq)
    next
      case 4
      then show thesis using run Some by (intro unrouted) (auto simp: eq)
    next
      case 5
      then show thesis using run Some by (intro added) (auto simp: eq)
    qed
  qed
qed

lemma evict_oldest_absent: "map_of (peerPSKs b) k = None \<Longrightarrow> map_of (peerPSKs (evict_oldest ch p b)) k = None"
proof -
  have "peerPSKs (remove_route ok x (fst (removeAuthenticatedPeer x b))) = filter (\<lambda>(k, _). \<not> k = x) (peerPSKs b)" for x ok
    by (simp add: remove_route_def removeAuthenticatedPeer_def forget_def)
  then show "map_of (peerPSKs b) k = None \<Longrightarrow> map_of (peerPSKs (evict_oldest ch p b)) k = None"
    by (simp add: evict_oldest_def map_of_forget split: prod.split)
qed

lemma install_after_evict_inv:
  assumes "peers_inv b" "bk_phase b = Running" "fresh_peer ch p" "ch_now ch \<noteq> 0" "map_of (peerPSKs b) src = None"
    "length (peerPSKs (evict_oldest ch p b)) < maxPeers"
  shows "peers_inv (install_peer ch src p (evict_oldest ch p b))"
  using assms evict_oldest_absent [OF assms(5), of ch p] evict_oldest_worker(1) [of b ch p]
  by (intro install_peer_inv evict_oldest_inv evict_oldest_room) (simp_all add: fresh_peer_def same_worker_def)

lemmas same_inv = finish_same(1) [THEN peers_inv_same] send_reply_same(1) [THEN peers_inv_same]
  remove_route_same(1) [THEN peers_inv_same] with_route_same(1) [THEN peers_inv_same] same_tables_emit(1) [THEN peers_inv_same]
  disconnect_routes_same(1) [THEN peers_inv_same]

lemma completeBootstrap_inv:
  assumes "peers_inv b" "ch_now ch \<noteq> 0"
  shows "peers_inv (completeBootstrapLocked ch j b)"
proof (cases rule: completeBootstrap_cases [of b ch j])
  case (renewed p)
  then have "peers_inv (renew_peer ch (j_src j) p b)"
    using assms by (intro renew_peer_inv) (auto simp: fresh_peer_def)
  then show ?thesis by (simp add: renewed(6) same_inv)
next
  case (full p)
  then show ?thesis using assms by (simp add: same_inv evict_oldest_inv)
next
  case (unrouted p)
  then show ?thesis
    using install_after_evict_inv [OF assms(1) unrouted(1,3) assms(2) unrouted(4,5)]
    by (simp add: same_inv removeAuthenticatedPeer_inv)
next
  case (added p)
  then show ?thesis
    using install_after_evict_inv [OF assms(1) added(1,3) assms(2) added(4,5)] by (simp add: same_inv)
qed (use assms in \<open>simp_all add: same_inv\<close>)

lemma completeBootstrap_worker: "same_worker b (completeBootstrapLocked ch j b)"
proof -
  have rem: "same_worker b (fst (removeAuthenticatedPeer k b))" for k b
    using same_worker_trans [OF forget_worker(1) refresh_simps(1), of b "\<lambda>x. x = k"]
    by (auto simp: removeAuthenticatedPeer_def intro: same_worker_trans)
  have inst: "same_worker b (install_peer ch src p b)" for src p b
    by (auto simp: install_peer_def addClientLocked_def setNetworkMapLocked_def set_peers_def Let_def same_worker_def)
  note step = same_worker_trans [OF _ finish_same(2)] same_worker_trans [OF _ send_reply_same(2)]
    same_worker_trans [OF _ rem] same_worker_trans [OF _ with_route_same(2)] same_worker_trans [OF _ inst]
    evict_oldest_worker(1) renew_peer_simps(9) same_refl(2)
  show ?thesis
    by (cases rule: completeBootstrap_cases [of b ch j]) (simp_all add: step)
qed

section \<open>The worker\<close>

text \<open>
  The counters count what is queued, and the packet that was received and not yet counted down; a source
  has at most four packets there. A job waits for its hook under its own source, at most one per source.
\<close>

definition in_hand :: "bytes \<Rightarrow> hand \<Rightarrow> nat" where
  "in_hand src h = (case h of Taken p \<Rightarrow> if in_src p = src then 1 else 0 | _ \<Rightarrow> 0)"

definition waiting :: "bytes \<Rightarrow> backend \<Rightarrow> nat" where
  "waiting src b = length (filter (\<lambda>p. in_src p = src) (bk_inbox b))"

definition inbox_inv :: "backend \<Rightarrow> bool" where
  "inbox_inv b \<longleftrightarrow> length (bk_inbox b) \<le> inboxSize \<and> mdistinct (bk_queued b) \<and>
     (\<forall>src. queued_of b src = waiting src b + in_hand src (bk_hand b) \<and> queued_of b src \<le> maxQueued) \<and>
     (\<forall>(src, n) \<in> set (bk_queued b). n \<noteq> 0) \<and> (\<forall>p \<in> set (bk_inbox b). ValidFrame (in_packet p))"

definition jobs_inv :: "backend \<Rightarrow> bool" where
  "jobs_inv b \<longleftrightarrow> mdistinct (admissions b) \<and> length (admissions b) \<le> maxPendingAdmissions \<and>
     (\<forall>(k, j) \<in> set (admissions b). j_src j = k \<and> j_peer j \<noteq> None) \<and>
     (admissions b \<noteq> [] \<longrightarrow> working b \<and> allowClient b) \<and> (bk_hand b \<noteq> Idle \<longrightarrow> working b) \<and>
     (\<forall>j. bk_hand b = Answered j \<longrightarrow> j_src j \<notin> mkeys (admissions b))"

definition backend_inv :: "backend \<Rightarrow> bool" where
  "backend_inv b \<longleftrightarrow> peers_inv b \<and> inbox_inv b \<and> jobs_inv b"

lemma same_worker_inv:
  "same_worker b t \<Longrightarrow> inbox_inv t = inbox_inv b" "same_worker b t \<Longrightarrow> jobs_inv t = jobs_inv b"
  by (simp_all add: same_worker_def inbox_inv_def jobs_inv_def queued_of_def waiting_def working_def)

lemma inbox_inv_cong:
  "bk_inbox t = bk_inbox b \<Longrightarrow> bk_queued t = bk_queued b \<Longrightarrow> bk_hand t = bk_hand b \<Longrightarrow> inbox_inv t = inbox_inv b"
  by (simp add: inbox_inv_def queued_of_def waiting_def)

lemma backend_inv_new: "backend_inv (new_backend s tunnel hook)"
  by (simp add: backend_inv_def peers_inv_new)
    (simp add: inbox_inv_def jobs_inv_def new_backend_def queued_of_def waiting_def in_hand_def)

lemma inbox_counts:
  "inbox_inv b \<Longrightarrow> queued_of b src = waiting src b + in_hand src (bk_hand b)" "inbox_inv b \<Longrightarrow> queued_of b src \<le> maxQueued"
  unfolding inbox_inv_def by blast+

lemma inbox_invI:
  assumes "\<And>src. queued_of b src = waiting src b + in_hand src (bk_hand b)" "\<And>src. queued_of b src \<le> maxQueued"
    "length (bk_inbox b) \<le> inboxSize" "mdistinct (bk_queued b)" "\<forall>(src, n) \<in> set (bk_queued b). n \<noteq> 0"
    "\<forall>p \<in> set (bk_inbox b). ValidFrame (in_packet p)"
  shows "inbox_inv b"
  using assms unfolding inbox_inv_def by blast

lemma inbox_shape:
  assumes "inbox_inv b"
  shows "length (bk_inbox b) \<le> inboxSize" "mdistinct (bk_queued b)" "\<forall>(src, n) \<in> set (bk_queued b). n \<noteq> 0"
    "\<forall>p \<in> set (bk_inbox b). ValidFrame (in_packet p)"
  using assms unfolding inbox_inv_def by blast+

lemma queued_update: "queued_of (b\<lparr>bk_queued := AList.update k n m, bk_inbox := i\<rparr>) src = (if src = k then n else
    (case map_of m src of None \<Rightarrow> 0 | Some n \<Rightarrow> n))"
  by (simp add: queued_of_def update_conv)

lemma onDERPRecv_inbox:
  assumes inv: "inbox_inv b"
  shows "inbox_inv (fst (onDERPRecv region src pkt b))"
proof (cases "ValidFrame pkt \<and> \<not> maxQueued \<le> queued_of b src \<and> length (bk_inbox b) < inboxSize")
  case True
  let ?t = "b\<lparr>bk_queued := AList.update src (Suc (queued_of b src)) (bk_queued b),
    bk_inbox := bk_inbox b @ [\<lparr>in_region = region, in_src = src, in_packet = pkt\<rparr>]\<rparr>"
  have q: "queued_of ?t k = (if k = src then Suc (queued_of b k) else queued_of b k)" for k
    by (simp add: queued_update) (simp add: queued_of_def)
  have "waiting k ?t = (if k = src then Suc (waiting k b) else waiting k b)" for k by (simp add: waiting_def)
  with q inbox_counts(1) [OF inv] have "queued_of ?t k = waiting k ?t + in_hand k (bk_hand ?t)" for k by simp
  moreover have "queued_of ?t k \<le> maxQueued" for k
    using q [of k] inbox_counts(2) [OF inv, of k] True by (cases "k = src") simp_all
  moreover
  have "\<forall>(k, n) \<in> set (bk_queued ?t). n \<noteq> 0"
    using inbox_shape(3) [OF inv] set_update_subset [of src "Suc (queued_of b src)" "bk_queued b"] by auto
  ultimately have "inbox_inv ?t"
    using inbox_shape(2,4) [OF inv] True by (intro inbox_invI) (auto simp: distinct_update)
  with inv True show ?thesis by (simp add: onDERPRecv_def)
qed (use inv in \<open>auto simp: onDERPRecv_def\<close>)

lemma onDERPRecv_frame:
  "same_tables b (fst (onDERPRecv region src pkt b))" "admissions (fst (onDERPRecv region src pkt b)) = admissions b"
  "bk_hand (fst (onDERPRecv region src pkt b)) = bk_hand b" "bk_server (fst (onDERPRecv region src pkt b)) = bk_server b"
  "bk_log (fst (onDERPRecv region src pkt b)) = bk_log b" "tunnelPeer (fst (onDERPRecv region src pkt b)) = tunnelPeer b"
  "allowClient (fst (onDERPRecv region src pkt b)) = allowClient b" "bk_phase (fst (onDERPRecv region src pkt b)) = bk_phase b"
  by (auto simp: onDERPRecv_def same_tables_def)

lemma worker_take_inbox:
  assumes inv: "inbox_inv b" and idle: "bk_hand b = Idle"
  shows "inbox_inv (worker_take b)"
proof (cases "bk_inbox b")
  case (Cons p ps)
  let ?t = "b\<lparr>bk_inbox := ps, bk_hand := Taken p\<rparr>"
  have "queued_of ?t k = queued_of b k" for k by (simp add: queued_of_def)
  moreover have "queued_of b k = waiting k ?t + in_hand k (Taken p)" for k
    using inbox_counts(1) [OF inv, of k] Cons idle by (simp add: waiting_def in_hand_def)
  ultimately have "inbox_inv ?t"
    using inbox_counts(2) [OF inv] inbox_shape [OF inv] Cons by (intro inbox_invI) simp_all
  with Cons show ?thesis by (simp add: worker_take_def)
qed (use inv in \<open>simp add: worker_take_def\<close>)

lemma unqueue_inbox:
  assumes inv: "inbox_inv b" and hand: "bk_hand b = Taken p" and h: "\<And>src. in_hand src h = 0"
  shows "inbox_inv ((unqueue (in_src p) b)\<lparr>bk_hand := h\<rparr>)"
proof -
  let ?t = "(unqueue (in_src p) b)\<lparr>bk_hand := h\<rparr>"
  have q: "queued_of b k = waiting k b + in_hand k (Taken p)" "queued_of b k \<le> maxQueued" for k
    using inbox_counts [OF inv, of k] hand by simp_all
  have "queued_of ?t k = (if k = in_src p then queued_of b k - 1 else queued_of b k)" for k
    by (simp add: unqueue_def queued_of_def update_conv delete_conv)
  then have "queued_of ?t k = waiting k b + 0" "queued_of ?t k \<le> maxQueued" for k
    using q [of k] by (simp_all add: in_hand_def split: if_splits)
  moreover have "waiting k ?t = waiting k b" for k by (simp add: waiting_def unqueue_def)
  moreover have "mdistinct (bk_queued ?t)" "\<forall>(src, n) \<in> set (bk_queued ?t). n \<noteq> 0"
    using inbox_shape(2,3) [OF inv] set_update_subset [of "in_src p" "queued_of b (in_src p) - 1" "bk_queued b"]
    by (auto simp: unqueue_def distinct_update distinct_delete set_delete_eq)
  moreover have "bk_inbox ?t = bk_inbox b" by (simp add: unqueue_def)
  ultimately show ?thesis using inbox_shape(1,4) [OF inv] h by (intro inbox_invI) simp_all
qed

text \<open>What an answer does: it counts the packet down, and either drops it or keeps the callback's result.\<close>

lemma worker_answer_cases:
  obtains (pending) "in_src p \<in> mkeys (admissions b)" "worker_answer C fl lt oc now later p b = (unqueue (in_src p) b)\<lparr>bk_hand := Idle\<rparr>"
  | (asked) s reply peer j where "in_src p \<notin> mkeys (admissions b)"
      "Bootstrap C fl lt oc (in_src p) (in_packet p) now later (bk_server b) = (s, reply, peer)"
      "j = \<lparr>j_src = in_src p, j_region = in_region p, j_reply = reply, j_peer = peer, j_cancelled = False\<rparr>"
      "worker_answer C fl lt oc now later p b = emit (Call (EvHandle oc (in_src p) (in_packet p) now))
         ((unqueue (in_src p) b)\<lparr>bk_server := s, bk_hand := Answered j\<rparr>)"
proof (cases "in_src p \<in> mkeys (admissions b)")
  case True
  then show thesis by (intro pending) (simp_all add: worker_answer_def unqueue_def)
next
  case False
  obtain s reply peer where "Bootstrap C fl lt oc (in_src p) (in_packet p) now later (bk_server b) = (s, reply, peer)"
    by (metis prod_cases3)
  with False asked show thesis by (simp add: worker_answer_def unqueue_def Let_def)
qed

lemma unqueue_simps [simp]:
  "same_tables b (unqueue src b)" "admissions (unqueue src b) = admissions b" "bk_server (unqueue src b) = bk_server b"
  "bk_log (unqueue src b) = bk_log b" "bk_phase (unqueue src b) = bk_phase b" "tunnelPeer (unqueue src b) = tunnelPeer b"
  "allowClient (unqueue src b) = allowClient b"
  by (simp_all add: unqueue_def same_tables_def)

lemma worker_answer_inv:
  assumes inv: "backend_inv b" and hand: "bk_hand b = Taken p"
  shows "backend_inv (worker_answer C fl lt oc now later p b)"
proof (cases rule: worker_answer_cases [of p b C fl lt oc now later])
  case pending
  have "same_tables b ((unqueue (in_src p) b)\<lparr>bk_hand := Idle\<rparr>)" by (simp add: same_tables_def unqueue_def)
  with inv hand show ?thesis
    using unqueue_inbox [of b p Idle] peers_inv_same by (auto simp: pending backend_inv_def jobs_inv_def in_hand_def working_def)
next
  case (asked s reply peer j)
  let ?t = "(unqueue (in_src p) b)\<lparr>bk_hand := Answered j\<rparr>" and ?u = "worker_answer C fl lt oc now later p b"
  have "same_worker ?t ?u" "same_tables b ?u"
    by (simp_all add: asked(4) same_worker_def same_tables_def) (simp_all add: unqueue_def)
  moreover have "inbox_inv ?t" using unqueue_inbox [of b p "Answered j"] inv hand by (simp add: backend_inv_def in_hand_def)
  moreover have "jobs_inv ?t" using inv hand asked by (auto simp: backend_inv_def jobs_inv_def working_def)
  ultimately show ?thesis using inv peers_inv_same same_worker_inv by (simp add: backend_inv_def)
qed

text \<open>What a commit does: it ends the job, lets it wait for the hook, or completes it.\<close>

lemma worker_commit_cases:
  obtains (rejected) p where "j_peer j = Some p" "worker_commit ch j b = (finish j False b)\<lparr>bk_hand := Idle\<rparr>"
      "\<not> fresh_peer ch p \<or> maxPendingAdmissions \<le> length (admissions b)"
  | (hooked) p where "j_peer j = Some p" "fresh_peer ch p" "length (admissions b) < maxPendingAdmissions" "allowClient b"
      "worker_commit ch j b = b\<lparr>admissions := AList.update (j_src j) j (admissions b), bk_hand := Idle\<rparr>"
  | (complete) "worker_commit ch j b = (completeBootstrapLocked ch j b)\<lparr>bk_hand := Idle\<rparr>"
proof (cases "j_peer j")
  case (Some p)
  consider "\<not> (j_src j \<notin> mkeys (clients b) \<and> allowClient b)"
    | "j_src j \<notin> mkeys (clients b)" "allowClient b" "\<not> fresh_peer ch p \<or> maxPendingAdmissions \<le> length (admissions b)"
    | "j_src j \<notin> mkeys (clients b)" "allowClient b" "fresh_peer ch p" "length (admissions b) < maxPendingAdmissions"
    by linarith
  then show thesis
  proof cases
    case 1
    then show thesis using Some by (intro complete) (auto simp: worker_commit_def)
  next
    case 2
    then show thesis using Some by (intro rejected) (auto simp: worker_commit_def fresh_peer_def)
  next
    case 3
    then show thesis using Some by (intro hooked) (auto simp: worker_commit_def fresh_peer_def)
  qed
qed (use complete in \<open>simp add: worker_commit_def\<close>)

lemma put_down:
  assumes "peers_inv b" "inbox_inv t" "jobs_inv t" "same_worker t b" "bk_hand t = Answered j"
  shows "backend_inv (b\<lparr>bk_hand := Idle\<rparr>)"
proof -
  have "same_tables b (b\<lparr>bk_hand := Idle\<rparr>)" by (simp add: same_tables_def)
  then have "peers_inv (b\<lparr>bk_hand := Idle\<rparr>)" using assms(1) peers_inv_same by blast
  moreover have "inbox_inv (b\<lparr>bk_hand := Idle\<rparr>)"
    using assms by (intro inbox_invI) (use inbox_counts [OF assms(2)] inbox_shape [OF assms(2)] in
      \<open>simp_all add: same_worker_def queued_of_def waiting_def in_hand_def\<close>)
  moreover have "jobs_inv (b\<lparr>bk_hand := Idle\<rparr>)" using assms by (auto simp: jobs_inv_def same_worker_def working_def)
  ultimately show ?thesis by (simp add: backend_inv_def)
qed

lemma worker_commit_inv:
  assumes inv: "backend_inv b" and hand: "bk_hand b = Answered j" and now: "ch_now ch \<noteq> 0"
  shows "backend_inv (worker_commit ch j b)"
proof -
  have parts: "peers_inv b" "inbox_inv b" "jobs_inv b" using inv by (simp_all add: backend_inv_def)
  note down = put_down [OF _ parts(2,3) _ hand]
  show ?thesis
  proof (cases rule: worker_commit_cases [of j ch b])
    case (hooked p)
    let ?t = "b\<lparr>admissions := AList.update (j_src j) j (admissions b)\<rparr>"
    have "jobs_inv ((?t)\<lparr>bk_hand := Idle\<rparr>)"
      using parts(3) hooked hand length_update_le [of "j_src j" j "admissions b"]
        set_update_subset [of "j_src j" j "admissions b"]
      by (auto simp: jobs_inv_def working_def distinct_update)
    moreover have "backend_inv (b\<lparr>bk_hand := Idle\<rparr>)" by (rule down [OF parts(1)]) simp
    moreover have "same_tables b ((?t)\<lparr>bk_hand := Idle\<rparr>)" by (simp add: same_tables_def)
    moreover have "inbox_inv ((?t)\<lparr>bk_hand := Idle\<rparr>) = inbox_inv (b\<lparr>bk_hand := Idle\<rparr>)"
      by (simp add: inbox_inv_def queued_of_def waiting_def)
    ultimately show ?thesis using parts(1) peers_inv_same hooked(5) by (simp add: backend_inv_def)
  next
    case (rejected p)
    then show ?thesis using down [of "finish j False b"] parts(1) by (simp add: same_inv)
  next
    case complete
    then show ?thesis using down completeBootstrap_inv [OF parts(1) now] completeBootstrap_worker by simp
  qed
qed

lemma backend_inv_same: "backend_inv b \<Longrightarrow> peers_inv t \<Longrightarrow> same_worker b t \<Longrightarrow> backend_inv t"
  using same_worker_inv by (simp add: backend_inv_def)

lemma worker_decided_inv:
  assumes inv: "backend_inv b" and job: "map_of (admissions b) src = Some j" and now: "ch_now ch \<noteq> 0"
  shows "backend_inv (worker_decided ch j allowed b)"
proof -
  let ?t = "b\<lparr>admissions := AList.delete (j_src j) (admissions b)\<rparr>"
  have "same_tables b ?t" by (simp add: same_tables_def)
  then have p: "peers_inv ?t" using inv peers_inv_same by (auto simp: backend_inv_def)
  have "jobs_inv ?t"
    using inv length_delete_le' [of "j_src j" "admissions b"]
    by (auto simp: backend_inv_def jobs_inv_def working_def distinct_delete set_delete_eq)
  moreover have "inbox_inv ?t = inbox_inv b" by (simp add: inbox_inv_def queued_of_def waiting_def)
  ultimately have "backend_inv ?t" using inv p by (simp add: backend_inv_def)
  then show ?thesis
    using completeBootstrap_inv [OF p now] completeBootstrap_worker p backend_inv_same
    by (auto simp: worker_decided_def Let_def same_inv)
qed

lemma worker_tick_inv:
  assumes "backend_inv b"
  shows "backend_inv (worker_tick now view ok b)"
proof -
  define b1 where "b1 = emit (Call (EvExpire now)) (b\<lparr>bk_server := Expire now (bk_server b)\<rparr>)"
  have same: "same_tables b b1" "same_worker b b1" by (simp_all add: b1_def same_tables_def same_worker_def)
  define b3 where "b3 = (if 0 < length (swept view b1) then refresh_network_map (forget (\<lambda>k. k \<in> set (swept view b1)) b1) else b1)"
  have "peers_inv b1" using assms peers_inv_same [OF same(1)] by (simp add: backend_inv_def)
  then have "peers_inv b3" by (simp add: b3_def peers_inv_forget)
  moreover have "same_worker b b3"
    using same(2) same_worker_trans [OF same(2) same_worker_trans [OF forget_worker(1) refresh_simps(1)]] by (simp add: b3_def)
  moreover have "worker_tick now view ok b = fold (disconnect_route ok) (swept view b1) b3"
    by (simp add: worker_tick_def Let_def b1_def b3_def)
  ultimately show ?thesis
    using assms backend_inv_same same_worker_trans [OF _ disconnect_routes_same(2)] by (auto simp: same_inv)
qed

lemma finish_all_same: "same_tables b (fold (\<lambda>(k, j). finish j False) js b) \<and> same_worker b (fold (\<lambda>(k, j). finish j False) js b)"
proof (induction js arbitrary: b)
  case (Cons kj js)
  then show ?case
    by (cases kj) (auto intro: same_tables_trans [OF finish_same(1)] same_worker_trans [OF finish_same(2)])
qed simp

lemma peers_inv_phase:
  assumes "peers_inv b" "bk_phase b \<noteq> Closed" "x \<noteq> Closed"
  shows "peers_inv (b\<lparr>bk_phase := x\<rparr>)"
proof -
  have "row_ok (b\<lparr>bk_phase := x\<rparr>) k = row_ok b k" for k using assms(2,3) by (simp add: row_ok_def cong: option.case_cong)
  with assms(1) show ?thesis
    by (simp add: peers_inv_def keys_distinct_def node_ids_def map_ok_def sessions_def cong: option.case_cong)
qed

lemma worker_stop_inv:
  assumes inv: "backend_inv b" and idle: "bk_hand b = Idle" "bk_phase b = Closing"
  shows "backend_inv (worker_stop b)"
proof -
  let ?f = "fold (\<lambda>(k, j). finish j False) (admissions b) b"
  have f: "same_tables b ?f" "same_worker b ?f" using finish_all_same by auto
  have "peers_inv ?f" using inv peers_inv_same [OF f(1)] by (simp add: backend_inv_def)
  then have "peers_inv (?f\<lparr>bk_phase := Stopped\<rparr>)" using f(1) idle by (intro peers_inv_phase) (simp_all add: same_tables_def)
  moreover have "same_tables (?f\<lparr>bk_phase := Stopped\<rparr>) (worker_stop b)" by (simp add: same_tables_def worker_stop_def)
  ultimately have "peers_inv (worker_stop b)" using peers_inv_same by blast
  moreover have "jobs_inv (worker_stop b)" using f idle by (simp add: worker_stop_def jobs_inv_def same_worker_def)
  moreover have "inbox_inv (worker_stop b) = inbox_inv b"
    using f by (simp add: worker_stop_def inbox_inv_def same_worker_def queued_of_def waiting_def)
  ultimately show ?thesis using inv by (simp add: backend_inv_def)
qed

lemma DisconnectClient_inv:
  assumes inv: "backend_inv b"
  shows "backend_inv (fst (DisconnectClient ok k b))"
proof -
  define b1 where "b1 = (case map_of (admissions b) k of None \<Rightarrow> b
    | Some j \<Rightarrow> b\<lparr>admissions := AList.update k (j\<lparr>j_cancelled := True\<rparr>) (admissions b)\<rparr>)"
  have "same_tables b b1" by (simp add: b1_def same_tables_def split: option.split)
  then have p: "peers_inv b1" using inv peers_inv_same by (auto simp: backend_inv_def)
  have "jobs_inv b1"
  proof (cases "map_of (admissions b) k")
    case (Some j)
    let ?m = "AList.update k (j\<lparr>j_cancelled := True\<rparr>) (admissions b)"
    have kj: "(k, j) \<in> set (admissions b)" using Some by (rule map_of_SomeD)
    then have "k \<in> mkeys (admissions b)" by force
    then have "mkeys ?m = mkeys (admissions b)" "length ?m = length (admissions b)"
      by (simp_all add: dom_update insert_absorb length_update)
    moreover have "\<forall>(i, x) \<in> set ?m. j_src x = i \<and> j_peer x \<noteq> None"
    proof -
      have "\<forall>(i, x) \<in> set (admissions b). j_src x = i \<and> j_peer x \<noteq> None"
        using inv unfolding backend_inv_def jobs_inv_def by blast
      with kj show ?thesis by (auto dest!: set_update_cases)
    qed
    moreover have "jobs_inv b" using inv by (simp add: backend_inv_def)
    then have "mdistinct ?m" "length (admissions b) \<le> maxPendingAdmissions" "working b" "allowClient b"
      "\<forall>i. bk_hand b = Answered i \<longrightarrow> j_src i \<notin> mkeys (admissions b)"
      using kj by (auto simp: jobs_inv_def distinct_update)
    moreover have "admissions b1 = ?m" "bk_hand b1 = bk_hand b" "working b1 = working b" "allowClient b1 = allowClient b"
      by (simp_all add: b1_def Some working_def)
    ultimately show ?thesis unfolding jobs_inv_def by (simp del: split_paired_All)
  qed (use inv in \<open>simp add: b1_def backend_inv_def\<close>)
  moreover have "inbox_inv b1 = inbox_inv b" by (simp add: b1_def inbox_inv_def queued_of_def waiting_def split: option.split)
  ultimately have b1: "backend_inv b1" using inv p by (simp add: backend_inv_def)
  have "same_worker b1 (fst (removeAuthenticatedPeer k b1))"
    using same_worker_trans [OF same_worker_trans [OF forget_worker(1) refresh_simps(1)] same_tables_emit(2)]
    by (simp add: removeAuthenticatedPeer_def)
  with b1 have "backend_inv (fst (removeAuthenticatedPeer k b1))"
    using backend_inv_same removeAuthenticatedPeer_inv p by blast
  then have "backend_inv (remove_route ok k (fst (removeAuthenticatedPeer k b1)))"
    using backend_inv_same [OF _ _ remove_route_same(2)] by (simp add: backend_inv_def same_inv)
  with \<open>backend_inv (fst (removeAuthenticatedPeer k b1))\<close> show ?thesis
    by (auto simp: DisconnectClient_def b1_def [symmetric] Let_def split: prod.splits)
qed

lemma close_end_inv:
  assumes inv: "backend_inv b" and st: "bk_phase b = Stopped"
  shows "backend_inv (close_end b)"
proof -
  have "row_ok (close_end b) k" for k
  proof -
    have "row_ok b k" using inv by (simp add: backend_inv_def peers_inv_def)
    then show ?thesis by (auto simp: row_ok_def close_end_def split: option.splits)
  qed
  then have "peers_inv (close_end b)"
    using inv by (simp add: backend_inv_def peers_inv_def keys_distinct_def node_ids_def map_ok_def sessions_def close_end_def
        cong: option.case_cong)
  moreover have "admissions b = []" "bk_hand b = Idle" using inv st by (auto simp: backend_inv_def jobs_inv_def working_def)
  moreover have "inbox_inv (close_end b) = inbox_inv b" by (rule inbox_inv_cong) (simp_all add: close_end_def)
  ultimately show ?thesis using inv by (simp add: backend_inv_def) (simp add: close_end_def jobs_inv_def)
qed

lemma backend_step_inv: "backend_step C fl lt b e t \<Longrightarrow> backend_inv b \<Longrightarrow> backend_inv t"
proof (induction rule: backend_step.induct)
  case (arrive b region src pkt)
  then show ?case
    using onDERPRecv_inbox peers_inv_same [OF onDERPRecv_frame(1)]
    by (simp add: backend_inv_def jobs_inv_def working_def onDERPRecv_frame)
next
  case (take b)
  have "same_tables b (worker_take b)" "jobs_inv (worker_take b)"
    using take by (auto simp: worker_take_def same_tables_def backend_inv_def jobs_inv_def working_def split: list.split)
  then show ?case using take worker_take_inbox peers_inv_same by (auto simp: backend_inv_def)
next
  case (reauthorize b auth)
  let ?t = "emit (Call (EvReload auth)) (b\<lparr>bk_server := (bk_server b)\<lparr>Authorized := auth\<rparr>\<rparr>)"
  have "same_tables b ?t" "same_worker b ?t" by (simp_all add: same_tables_def same_worker_def)
  then show ?case using reauthorize backend_inv_same [of b ?t] peers_inv_same [of b ?t] by (simp add: backend_inv_def)
next
  case (shut b)
  then have "peers_inv (close_begin b)" unfolding close_begin_def by (intro peers_inv_phase) (simp_all add: backend_inv_def)
  moreover have "inbox_inv (close_begin b) = inbox_inv b" by (rule inbox_inv_cong) (simp_all add: close_begin_def)
  moreover have "jobs_inv (close_begin b)" using shut by (auto simp: backend_inv_def jobs_inv_def close_begin_def working_def)
  ultimately show ?case using shut by (simp add: backend_inv_def)
qed (simp_all add: worker_answer_inv worker_commit_inv worker_decided_inv worker_tick_inv DisconnectClient_inv worker_stop_inv
    close_end_inv)

interpretation peers: invariant_machine "\<lambda>b. \<exists>s tunnel hook. b = new_backend s tunnel hook" "backend_step C fl lt" backend_inv
  for C fl lt
  by unfold_locales (auto intro: backend_inv_new backend_step_inv)

end
