(* ===== verification/Admission_History.thy ===== *)
theory Admission_History
  imports Admission_Safety
begin

text \<open>
  What a run of the admission code has done to its surroundings: the calls into the handshake server are a
  run of that server, every session in the tables comes from one of them, every transcript that is being
  installed has a job that will report, and the routes are those of the connected peers.
\<close>

lemma set_split_key:
  assumes "mdistinct m" "(k, v) \<in> set m"
  shows "set m = insert (k, v) (set (AList.delete k m))"
proof (intro equalityI subsetI)
  fix x
  assume x: "x \<in> set m"
  show "x \<in> insert (k, v) (set (AList.delete k m))"
  proof (cases "fst x = k")
    case True
    then have "snd x = v" using assms x mdistinct_unique by (metis prod.collapse)
    with True show ?thesis by (metis insertI1 prod.collapse)
  qed (use x in \<open>simp add: set_delete_eq\<close>)
qed (use assms(2) in \<open>auto simp: set_delete_eq\<close>)

section \<open>Calls into the handshake server\<close>

fun calls :: "effect list \<Rightarrow> server_event list" where
  "calls [] = []"
| "calls (Call e # xs) = e # calls xs"
| "calls (x # xs) = calls xs"

lemma calls_append [simp]: "calls (xs @ ys) = calls xs @ calls ys"
  by (induction xs rule: calls.induct) auto

fun sends :: "effect list \<Rightarrow> (bytes \<times> nat \<times> bytes) list" where
  "sends [] = []"
| "sends (SendDERPPacketTo k r pkt # xs) = (k, r, pkt) # sends xs"
| "sends (x # xs) = sends xs"

lemma sends_append [simp]: "sends (xs @ ys) = sends xs @ sends ys"
  by (induction xs rule: sends.induct) auto

definition advances :: "crypto \<Rightarrow> rounding \<Rightarrow> backend \<Rightarrow> backend \<Rightarrow> bool" where
  "advances C fl b t \<longleftrightarrow> (\<exists>xs. bk_log t = bk_log b @ xs \<and> runs (server_step C fl) (bk_server b) (calls xs) (bk_server t))"

text \<open>The log grows, the handshake server is not called and nothing is sent.\<close>

definition silent :: "backend \<Rightarrow> backend \<Rightarrow> bool" where
  "silent b t \<longleftrightarrow> bk_server t = bk_server b \<and> (\<exists>xs. bk_log t = bk_log b @ xs \<and> calls xs = [] \<and> sends xs = [])"

lemma silent_refl [simp]: "silent b b"
  by (simp add: silent_def)

lemma silent_trans: "silent a b \<Longrightarrow> silent b c \<Longrightarrow> silent a c"
  by (auto simp: silent_def)

lemma silent_advances: "silent b t \<Longrightarrow> advances C fl b t"
  by (auto simp: silent_def advances_def)

lemma advances_refl [simp]: "advances C fl b b"
  by (auto simp: advances_def)

lemma advances_trans: "advances C fl a b \<Longrightarrow> advances C fl b c \<Longrightarrow> advances C fl a c"
  by (auto simp: advances_def runs_append)

lemma advances_call:
  "server_step C fl (bk_server b) e s \<Longrightarrow> bk_log t = bk_log b @ [Call e] \<Longrightarrow> bk_server t = s \<Longrightarrow> advances C fl b t"
  unfolding advances_def by (intro exI [of _ "[Call e]"]) (simp add: runs_Cons_iff)

lemma calls_silent [simp]:
  "silent b (emit (SyncDevicePeer k) b)" "silent b (emit (SetNetworkMap ns) b)" "silent b (emit (TunnelAdd k ok) b)"
  "silent b (emit (TunnelRemove k ok) b)"
  by (auto simp: silent_def)

lemma helpers_silent [simp]:
  "silent b (remove_route ok k b)" "silent b (with_route k ok b)"
  "silent b (forget gone b)" "silent b (set_peers ns b)" "silent b (refresh_network_map b)"
  by (auto simp: remove_route_def with_route_def set_peers_def refresh_network_map_def silent_def split: option.split)

lemma operations_silent [simp]:
  "silent b (fst (removeAuthenticatedPeer k b))" "silent b (renew_peer ch k p b)" "silent b (disconnect_route ok k b)"
  "silent b (install_peer ch k p b)"
proof -
  show "silent b (fst (removeAuthenticatedPeer k b))"
    using silent_trans [OF helpers_silent(3) silent_trans [OF helpers_silent(5) calls_silent(1)]]
    by (simp add: removeAuthenticatedPeer_def)
  show "silent b (renew_peer ch k p b)" by (auto simp: renew_peer_def silent_def)
  show "silent b (disconnect_route ok k b)"
    using silent_trans [OF calls_silent(1) helpers_silent(1)] by (simp add: disconnect_route_def)
  show "silent b (install_peer ch k p b)"
    by (auto simp: install_peer_def addClientLocked_def setNetworkMapLocked_def set_peers_def Let_def silent_def)
qed

lemma evict_oldest_silent [simp]: "silent b (evict_oldest ch p b)"
  using silent_trans [OF operations_silent(1) helpers_silent(1)] by (auto simp: evict_oldest_def split: prod.split)

lemma disconnect_routes_silent [simp]: "silent b (fold (disconnect_route ok) ks b)"
proof (induction ks arbitrary: b)
  case (Cons k ks)
  then show ?case using silent_trans [OF operations_silent(3) Cons] by simp
qed simp

definition job_handle :: "bootstrapAdmission \<Rightarrow> (bytes \<times> nat) option" where
  "job_handle j = (case j_peer j of None \<Rightarrow> None | Some p \<Rightarrow> ap_installed p)"

lemma finish_server:
  "bk_server (finish j ok b) = (case job_handle j of None \<Rightarrow> bk_server b | Some cl \<Rightarrow> installed (bk_server b) cl ok)"
  by (auto simp: finish_def job_handle_def split: option.splits)

lemma finish_advances [simp]: "advances C fl b (finish j ok b)"
proof (cases "job_handle j")
  case None
  then show ?thesis by (auto simp: finish_def job_handle_def split: option.splits)
next
  case (Some cl)
  obtain h ref where cl: "cl = (h, ref)" by fastforce
  have "server_step C fl (bk_server b) (EvInstalled h ref ok) (installed (bk_server b) (h, ref) ok)" by (rule step_installed)
  moreover have "bk_log (finish j ok b) = bk_log b @ [Call (EvInstalled h ref ok)]"
    "bk_server (finish j ok b) = installed (bk_server b) (h, ref) ok"
    using Some cl by (auto simp: finish_def job_handle_def split: option.splits)
  ultimately show ?thesis by (rule advances_call)
qed

lemma send_reply_server [simp]: "bk_server (send_reply j b) = bk_server b"
  by (simp add: send_reply_def)

lemma send_reply_log: "bk_log (send_reply j b) = bk_log b @ (if j_reply j = [] then [] else [SendDERPPacketTo (j_src j) (j_region j) (j_reply j)])"
  by (simp add: send_reply_def)

lemma send_reply_advances: "advances C fl b (send_reply j b)"
  unfolding advances_def by (intro exI conjI, rule send_reply_log) simp

text \<open>A completion prepares the tables, reports the outcome to the handshake once, and may send the reply.\<close>

lemma completeBootstrap_parts:
  obtains t ok where "silent b t" "j_peer j \<noteq> None" "completeBootstrapLocked ch j b = (if ok then send_reply j (finish j ok t) else finish j ok t)"
  | "j_peer j = None" "completeBootstrapLocked ch j b \<in> {b, send_reply j b}"
proof (cases rule: completeBootstrap_cases [of b ch j])
  case closing
  show thesis
  proof (cases "j_peer j")
    case None
    then show thesis using closing by (intro that(2)) (simp_all add: finish_def)
  qed (use closing in \<open>intro that(1) [of b False], simp_all\<close>)
next
  case answer
  then show thesis by (intro that(2)) simp_all
next
  case (refused p)
  then show thesis by (intro that(1) [of b False]) simp_all
next
  case (renewed p)
  then show thesis by (intro that(1) [of "renew_peer ch (j_src j) p b" True]) simp_all
next
  case (full p)
  then show thesis by (intro that(1) [of "evict_oldest ch p b" False]) simp_all
next
  case (unrouted p)
  let ?t = "fst (removeAuthenticatedPeer (j_src j) (with_route (j_src j) False (install_peer ch (j_src j) p (evict_oldest ch p b))))"
  have "silent b ?t"
    by (meson evict_oldest_silent helpers_silent(2) operations_silent(1,4) silent_trans)
  with unrouted show thesis by (intro that(1) [of ?t False]) simp_all
next
  case (added p)
  have "silent b (with_route (j_src j) True (install_peer ch (j_src j) p (evict_oldest ch p b)))"
    by (meson evict_oldest_silent helpers_silent(2) operations_silent(4) silent_trans)
  with added show thesis by (intro that(1) [of _ True]) simp_all
qed

lemma completeBootstrap_advances: "advances C fl b (completeBootstrapLocked ch j b)"
proof (cases rule: completeBootstrap_parts [of b j ch])
  case (1 t ok)
  have "advances C fl b (finish j ok t)" using 1(1) silent_advances advances_trans finish_advances by blast
  then show ?thesis using 1(3) advances_trans [OF _ send_reply_advances] by (cases ok) simp_all
next
  case 2
  then show ?thesis using send_reply_advances by auto
qed

lemma finish_all_advances: "advances C fl b (fold (\<lambda>(k, j). finish j False) js b)"
proof (induction js arbitrary: b)
  case (Cons kj js)
  then show ?case using advances_trans [OF finish_advances Cons] by (cases kj) simp
qed simp

lemma advances_cong:
  "advances C fl b t \<Longrightarrow> bk_log u = bk_log t \<Longrightarrow> bk_server u = bk_server t \<Longrightarrow> advances C fl b u"
  "advances C fl b t \<Longrightarrow> bk_log b = bk_log a \<Longrightarrow> bk_server b = bk_server a \<Longrightarrow> advances C fl a t"
  by (simp_all add: advances_def)

lemma worker_tick_eq:
  defines "cleaned now b \<equiv> emit (Call (EvExpire now)) (b\<lparr>bk_server := Expire now (bk_server b)\<rparr>)"
  shows "worker_tick now view ok b =
     fold (disconnect_route ok) (swept view b)
       (if swept view b = [] then cleaned now b
        else refresh_network_map (forget (\<lambda>k. k \<in> set (swept view b)) (cleaned now b)))"
proof -
  have "swept view (cleaned now b) = swept view b" by (simp add: cleaned_def swept_def)
  then show ?thesis by (simp add: worker_tick_def Let_def cleaned_def)
qed

lemma worker_tick_advances: "advances C fl b (worker_tick now view ok b)"
proof -
  define c where "c = emit (Call (EvExpire now)) (b\<lparr>bk_server := Expire now (bk_server b)\<rparr>)"
  have "advances C fl b c" by (rule advances_call [OF step_expire, of _ _ now]) (simp_all add: c_def)
  moreover have "silent c (if swept view b = [] then c else refresh_network_map (forget (\<lambda>k. k \<in> set (swept view b)) c))"
    using silent_trans [OF helpers_silent(3,5)] by simp
  ultimately show ?thesis
    unfolding worker_tick_eq c_def [symmetric]
    by (meson silent_advances advances_trans silent_trans disconnect_routes_silent)
qed

lemma DisconnectClient_eq:
  defines "cancelled k b \<equiv> (case map_of (admissions b) k of None \<Rightarrow> b
     | Some j \<Rightarrow> b\<lparr>admissions := AList.update k (j\<lparr>j_cancelled := True\<rparr>) (admissions b)\<rparr>)"
  shows "fst (DisconnectClient ok k b) =
     (if map_of (clients b) k = None then fst (removeAuthenticatedPeer k (cancelled k b))
      else remove_route ok k (fst (removeAuthenticatedPeer k (cancelled k b))))"
proof -
  have "clients (cancelled k b) = clients b" by (simp add: cancelled_def split: option.split)
  then show ?thesis
    by (simp add: DisconnectClient_def removeAuthenticatedPeer_def Let_def map_of_eq_None_iff cancelled_def [symmetric])
qed

lemma DisconnectClient_silent: "silent b (fst (DisconnectClient ok k b))"
proof -
  define c where "c = (case map_of (admissions b) k of None \<Rightarrow> b
     | Some j \<Rightarrow> b\<lparr>admissions := AList.update k (j\<lparr>j_cancelled := True\<rparr>) (admissions b)\<rparr>)"
  have "silent b c" by (auto simp: c_def silent_def split: option.split)
  then show ?thesis
    using silent_trans [OF \<open>silent b c\<close> operations_silent(1) [of c k]] silent_trans [OF _ helpers_silent(1)]
    by (auto simp: DisconnectClient_eq c_def [symmetric])
qed

lemma Bootstrap_server: "Bootstrap C fl lt oc src pkt now later s = (s', reply, peer) \<Longrightarrow>
    \<exists>ses. Handle C fl oc src pkt now s = (s', reply, ses) \<and> (peer = None \<longleftrightarrow> ses = None)"
  by (auto simp: Bootstrap_def split: prod.splits option.splits)

lemma worker_answer_advances: "now \<noteq> 0 \<Longrightarrow> advances C fl b (worker_answer C fl lt oc now later p b)"
proof (cases rule: worker_answer_cases [of p b C fl lt oc now later])
  case pending
  then show ?thesis by (simp add: advances_cong(1) [OF advances_refl])
next
  case (asked s reply peer j)
  assume "now \<noteq> 0"
  moreover obtain ses where "Handle C fl oc (in_src p) (in_packet p) now (bk_server b) = (s, reply, ses)"
    using Bootstrap_server [OF asked(2)] by blast
  ultimately have "server_step C fl (bk_server b) (EvHandle oc (in_src p) (in_packet p) now) s" by (rule step_handle)
  then show ?thesis by (rule advances_call) (simp_all add: asked(4))
qed

lemma backend_step_advances: "backend_step C fl lt b e t \<Longrightarrow> advances C fl b t"
proof (induction rule: backend_step.induct)
  case (arrive b region src pkt)
  then show ?case by (simp add: advances_cong(1) [OF advances_refl] onDERPRecv_frame)
next
  case (take b)
  then show ?case by (intro advances_cong(1) [OF advances_refl]) (auto simp: worker_take_def split: list.split)
next
  case (commit b j ch)
  have "advances C fl b (finish j False b)" "advances C fl b (completeBootstrapLocked ch j b)"
    by (simp_all add: completeBootstrap_advances)
  note ends = this [THEN advances_cong(1)]
  show ?case
    by (cases rule: worker_commit_cases [of j ch b]) (simp_all add: ends advances_cong(1) [OF advances_refl])
next
  case (decided b src j ch allowed)
  let ?t = "b\<lparr>admissions := AList.delete (j_src j) (admissions b)\<rparr>"
  have "advances C fl ?t (finish j False ?t)" "advances C fl ?t (completeBootstrapLocked ch j ?t)"
    by (simp_all add: completeBootstrap_advances)
  from advances_cong(2) [OF this(1), of b] advances_cong(2) [OF this(2), of b]
  show ?case by (simp add: worker_decided_def Let_def)
next
  case (reauthorize b auth)
  show ?case by (rule advances_call [OF step_reload, of _ _ auth]) simp_all
next
  case (stop b)
  show ?case using finish_all_advances by (rule advances_cong(1)) (simp_all add: worker_stop_def)
next
  case (finalize b)
  show ?case by (rule advances_call [OF step_close]) (simp_all add: close_end_def)
qed (simp_all add: worker_answer_advances worker_tick_advances silent_advances DisconnectClient_silent close_begin_def
    advances_cong(1) [OF advances_refl])

text \<open>The calls of a run are a run of the handshake server.\<close>

lemma run_advances: "runs (backend_step C fl lt) b es t \<Longrightarrow> advances C fl b t"
  by (induction rule: runs.induct) (auto intro: backend_step_advances advances_trans)

lemma run_calls:
  assumes "runs (backend_step C fl lt) (new_backend s tunnel hook) es b"
  shows "runs (server_step C fl) s (calls (bk_log b)) (bk_server b)"
  using run_advances [OF assms] by (auto simp: advances_def new_backend_def)

section \<open>Where sessions come from\<close>

text \<open>The jobs that have not reported: the one in hand and those waiting for a hook.\<close>

definition jobs :: "backend \<Rightarrow> bootstrapAdmission set" where
  "jobs b = (case bk_hand b of Answered j \<Rightarrow> {j} | _ \<Rightarrow> {}) \<union> snd ` set (admissions b)"

definition made_from :: "session \<Rightarrow> auth_peer \<Rightarrow> bool" where
  "made_from ses p \<longleftrightarrow> Peer ses = ap_identity p \<and> PSK ses = ap_psk p \<and> Disco (Keys ses) = ap_disco p \<and> Installed ses = ap_installed p"

text \<open>A peer is backed for a source by a session that the handshake server handed out for that source.\<close>

definition backed :: "crypto \<Rightarrow> rounding \<Rightarrow> server \<Rightarrow> server_event list \<Rightarrow> bytes \<Rightarrow> auth_peer \<Rightarrow> bool" where
  "backed C fl s0 es k p \<longleftrightarrow>
     (\<exists>es1 oc pkt now es2 s t out ses. es = es1 @ EvHandle oc k pkt now # es2 \<and> runs (server_step C fl) s0 es1 s \<and>
        Handle C fl oc k pkt now s = (t, out, Some ses) \<and> made_from ses p)"

lemma backed_append: "backed C fl s0 es k p \<Longrightarrow> backed C fl s0 (es @ fs) k p"
  unfolding backed_def by (metis append.assoc append_Cons)

definition backed_inv :: "crypto \<Rightarrow> rounding \<Rightarrow> server \<Rightarrow> backend \<Rightarrow> bool" where
  "backed_inv C fl s0 b \<longleftrightarrow> runs (server_step C fl) s0 (calls (bk_log b)) (bk_server b) \<and>
     (\<forall>k p. map_of (peerValid b) k = Some p \<longrightarrow> backed C fl s0 (calls (bk_log b)) k p) \<and>
     (\<forall>j p. j \<in> jobs b \<longrightarrow> j_peer j = Some p \<longrightarrow> backed C fl s0 (calls (bk_log b)) (j_src j) p)"

text \<open>New entries of the table come from a job.\<close>

lemma forget_valid: "map_of (peerValid (forget gone b)) k = (if gone k then None else map_of (peerValid b) k)"
  by (simp add: forget_def map_of_forget)

lemma remove_valid: "peerValid (fst (removeAuthenticatedPeer k b)) = peerValid (forget (\<lambda>x. x = k) b)"
  by (simp add: removeAuthenticatedPeer_def)

lemma evict_valid: "map_of (peerValid (evict_oldest ch p b)) k = Some q \<Longrightarrow> map_of (peerValid b) k = Some q"
proof -
  have "peerValid (remove_route ok x c) = peerValid c" for ok x c by (simp add: remove_route_def)
  then show "map_of (peerValid (evict_oldest ch p b)) k = Some q \<Longrightarrow> map_of (peerValid b) k = Some q"
    by (auto simp: evict_oldest_def remove_valid forget_valid split: prod.splits if_splits)
qed

lemma install_valid: "peerValid (install_peer ch src p b) = AList.update src p (peerValid b)"
  by (simp add: install_peer_def addClientLocked_def setNetworkMapLocked_def Let_def)

lemma same_valid [simp]:
  "peerValid (finish j ok b) = peerValid b" "peerValid (send_reply j b) = peerValid b" "peerValid (with_route k ok b) = peerValid b"
  "peerValid (remove_route ok k b) = peerValid b"
  by (auto simp: finish_def send_reply_def with_route_def remove_route_def split: option.splits)

lemma completeBootstrap_valid:
  assumes "map_of (peerValid (completeBootstrapLocked ch j b)) k = Some p"
  shows "map_of (peerValid b) k = Some p \<or> k = j_src j \<and> j_peer j = Some p"
proof (cases rule: completeBootstrap_cases [of b ch j])
  case (renewed p')
  then show ?thesis using assms by (auto simp: update_conv split: if_splits)
next
  case (full p')
  then show ?thesis using assms by (auto dest: evict_valid)
next
  case (unrouted p')
  then show ?thesis using assms by (auto simp: remove_valid forget_valid install_valid update_conv split: if_splits dest: evict_valid)
next
  case (added p')
  then show ?thesis using assms by (auto simp: install_valid update_conv split: if_splits dest: evict_valid)
qed (use assms in simp_all)

lemma backed_invI:
  assumes inv: "backed_inv C fl s0 b" and ext: "advances C fl b t"
    and valid: "\<And>k p. map_of (peerValid t) k = Some p \<Longrightarrow> map_of (peerValid b) k = Some p \<or> (\<exists>j \<in> jobs b. k = j_src j \<and> j_peer j = Some p)"
    and jobs: "\<And>j. j \<in> jobs t \<Longrightarrow> \<exists>i \<in> jobs b. j_src i = j_src j \<and> j_peer i = j_peer j"
  shows "backed_inv C fl s0 t"
proof -
  obtain xs where xs: "bk_log t = bk_log b @ xs" "runs (server_step C fl) (bk_server b) (calls xs) (bk_server t)"
    using ext by (auto simp: advances_def)
  have "runs (server_step C fl) s0 (calls (bk_log t)) (bk_server t)"
    using inv xs by (auto simp: backed_inv_def runs_append)
  moreover have "backed C fl s0 (calls (bk_log t)) k p" if "map_of (peerValid t) k = Some p" for k p
    using valid [OF that] inv xs(1) backed_append by (auto simp: backed_inv_def)
  moreover have "backed C fl s0 (calls (bk_log t)) (j_src j) p" if j: "j \<in> jobs t" "j_peer j = Some p" for j p
  proof -
    obtain i where "i \<in> jobs b" "j_src i = j_src j" "j_peer i = Some p" using jobs [OF j(1)] j(2) by auto
    then show ?thesis using inv xs(1) backed_append unfolding backed_inv_def by (metis calls_append)
  qed
  ultimately show ?thesis by (simp add: backed_inv_def)
qed

lemma worker_answer_backed:
  assumes inv: "backed_inv C fl s0 b" and hand: "bk_hand b = Taken q" and now: "now \<noteq> 0"
  shows "backed_inv C fl s0 (worker_answer C fl lt oc now later q b)"
proof (cases rule: worker_answer_cases [of q b C fl lt oc now later])
  case pending
  have "advances C fl b (worker_answer C fl lt oc now later q b)" using now by (rule worker_answer_advances)
  with inv show ?thesis
    by (rule backed_invI) (auto simp: pending jobs_def hand unqueue_def split: if_splits)
next
  case (asked s reply peer j)
  let ?t = "worker_answer C fl lt oc now later q b"
  have log: "calls (bk_log ?t) = calls (bk_log b) @ [EvHandle oc (in_src q) (in_packet q) now]" by (simp add: asked(4))
  have valid: "peerValid ?t = peerValid b" by (simp add: asked(4)) (simp add: unqueue_def)
  have js: "jobs ?t = insert j (jobs b)" by (auto simp: asked(4) jobs_def hand)
  have run: "runs (server_step C fl) s0 (calls (bk_log b)) (bk_server b)" using inv by (simp add: backed_inv_def)
  have new: "backed C fl s0 (calls (bk_log ?t)) (in_src q) p" if peer: "peer = Some p" for p
  proof -
    obtain ses where "Handle C fl oc (in_src q) (in_packet q) now (bk_server b) = (s, reply, Some ses)" "made_from ses p"
      using asked(2) peer by (auto simp: Bootstrap_def made_from_def split: prod.splits option.splits)
    with run show ?thesis unfolding backed_def log by (metis append_Nil2)
  qed
  have "runs (server_step C fl) s0 (calls (bk_log ?t)) (bk_server ?t)"
    using run worker_answer_advances [OF now, of C fl b lt oc later q]
    by (auto simp: advances_def runs_append)
  with inv new show ?thesis
    unfolding backed_inv_def valid js log using asked(3) backed_append [of C fl s0 "calls (bk_log b)"] by auto
qed

lemma jobs_cong: "same_worker b t \<Longrightarrow> jobs t = jobs b"
  by (simp add: jobs_def same_worker_def)

lemma worker_commit_valid:
  assumes "map_of (peerValid (worker_commit ch j b)) k = Some p"
  shows "map_of (peerValid b) k = Some p \<or> k = j_src j \<and> j_peer j = Some p"
  using assms by (cases rule: worker_commit_cases [of j ch b]) (auto dest: completeBootstrap_valid)

lemma worker_decided_valid:
  assumes "map_of (peerValid (worker_decided ch j allowed b)) k = Some p"
  shows "map_of (peerValid b) k = Some p \<or> k = j_src j \<and> j_peer j = Some p"
  using assms by (auto simp: worker_decided_def Let_def split: if_splits dest: completeBootstrap_valid)

lemma worker_tick_valid:
  "map_of (peerValid (worker_tick now view ok b)) k = (if k \<in> set (swept view b) then None else map_of (peerValid b) k)"
proof -
  have "peerValid (fold (disconnect_route ok) ks c) = peerValid c" for ks c
    using disconnect_routes_same(1) by (simp add: same_tables_def)
  then show ?thesis by (simp add: worker_tick_eq forget_valid)
qed

lemma DisconnectClient_valid:
  "map_of (peerValid (fst (DisconnectClient ok x b))) k = (if k = x then None else map_of (peerValid b) k)"
  by (simp add: DisconnectClient_eq remove_valid forget_valid split: option.split)

lemma worker_commit_jobs: "jobs (worker_commit ch j b) \<subseteq> insert j (jobs b)"
proof (cases rule: worker_commit_cases [of j ch b])
  case (rejected p)
  have "admissions (finish j False b) = admissions b" using finish_same(2) by (simp add: same_worker_def)
  with rejected show ?thesis by (auto simp: jobs_def)
next
  case (hooked p)
  then show ?thesis by (auto simp: jobs_def dest!: set_update_cases)
next
  case complete
  have "admissions (completeBootstrapLocked ch j b) = admissions b" using completeBootstrap_worker by (simp add: same_worker_def)
  with complete show ?thesis by (auto simp: jobs_def)
qed

lemma worker_decided_jobs: "jobs (worker_decided ch j allowed b) \<subseteq> jobs b"
proof -
  let ?t = "b\<lparr>admissions := AList.delete (j_src j) (admissions b)\<rparr>"
  have "same_worker ?t (worker_decided ch j allowed b)"
    using completeBootstrap_worker by (simp add: worker_decided_def Let_def)
  then have "jobs (worker_decided ch j allowed b) = jobs ?t" by (rule jobs_cong)
  then show ?thesis by (auto simp: jobs_def set_delete_eq)
qed

lemma worker_tick_worker: "same_worker b (worker_tick now view ok b)"
proof -
  define c where "c = emit (Call (EvExpire now)) (b\<lparr>bk_server := Expire now (bk_server b)\<rparr>)"
  have "same_worker b c" by (simp add: c_def same_worker_def)
  moreover have "same_worker c (if swept view b = [] then c else refresh_network_map (forget (\<lambda>k. k \<in> set (swept view b)) c))"
    using same_worker_trans [OF forget_worker(1) refresh_simps(1)] by simp
  ultimately show ?thesis
    unfolding worker_tick_eq c_def [symmetric] by (meson same_worker_trans disconnect_routes_same(2))
qed

lemma DisconnectClient_worker:
  "jobs (fst (DisconnectClient ok k b)) =
     (case bk_hand b of Answered j \<Rightarrow> {j} | _ \<Rightarrow> {}) \<union>
     snd ` set (case map_of (admissions b) k of None \<Rightarrow> admissions b
       | Some j \<Rightarrow> AList.update k (j\<lparr>j_cancelled := True\<rparr>) (admissions b))"
proof -
  define c where "c = (case map_of (admissions b) k of None \<Rightarrow> b
     | Some j \<Rightarrow> b\<lparr>admissions := AList.update k (j\<lparr>j_cancelled := True\<rparr>) (admissions b)\<rparr>)"
  have rem: "same_worker c (fst (removeAuthenticatedPeer k c))"
    using same_worker_trans [OF same_worker_trans [OF forget_worker(1) refresh_simps(1)] same_tables_emit(2)]
    by (simp add: removeAuthenticatedPeer_def)
  have "same_worker c (fst (DisconnectClient ok k b))"
    using rem same_worker_trans [OF rem remove_route_same(2)] by (simp add: DisconnectClient_eq c_def [symmetric])
  then have "jobs (fst (DisconnectClient ok k b)) = jobs c" by (rule jobs_cong)
  then show ?thesis by (simp add: c_def jobs_def split: option.split)
qed

lemma DisconnectClient_jobs:
  assumes "j \<in> jobs (fst (DisconnectClient ok k b))"
  shows "\<exists>i \<in> jobs b. j_src i = j_src j \<and> j_peer i = j_peer j"
proof (cases "map_of (admissions b) k")
  case (Some i)
  then have "i \<in> jobs b" using map_of_SomeD by (force simp: jobs_def)
  moreover have "j = i\<lparr>j_cancelled := True\<rparr> \<or> j \<in> jobs b"
    using assms Some by (auto simp: DisconnectClient_worker jobs_def [of b] image_iff dest!: set_update_cases)
  ultimately show ?thesis by auto
qed (use assms in \<open>auto simp: DisconnectClient_worker jobs_def [of b]\<close>)

lemma backend_step_backed: "backend_step C fl lt b e t \<Longrightarrow> backed_inv C fl s0 b \<Longrightarrow> backed_inv C fl s0 t"
proof -
  assume step: "backend_step C fl lt b e t" and inv: "backed_inv C fl s0 b"
  note intro = backed_invI [OF inv backend_step_advances [OF step]]
  from step show "backed_inv C fl s0 t"
  proof (cases rule: backend_step.cases)
    case (arrive region src pkt)
    have "peerValid t = peerValid b" "jobs t = jobs b"
      using onDERPRecv_frame(1) [of b region src pkt] by (simp_all add: arrive same_tables_def jobs_def onDERPRecv_frame)
    then show ?thesis by (intro intro) auto
  next
    case take
    then show ?thesis by (intro intro) (auto simp: worker_take_def jobs_def split: list.splits)
  next
    case (answer p now oc later)
    then show ?thesis using worker_answer_backed inv by blast
  next
    case (commit j ch)
    then have "j \<in> jobs b" by (simp add: jobs_def)
    then show ?thesis
      using worker_commit_valid [of ch j b] worker_commit_jobs [of ch j b] commit(2) by (intro intro) blast+
  next
    case (decided src j ch allowed)
    then have "j \<in> jobs b" using map_of_SomeD by (force simp: jobs_def)
    then show ?thesis
      using worker_decided_valid [of ch j allowed b] worker_decided_jobs [of ch j allowed b] decided(2) by (intro intro) blast+
  next
    case (sweep now view ok)
    have "jobs t = jobs b" using jobs_cong [OF worker_tick_worker] by (simp add: sweep)
    then show ?thesis by (intro intro) (auto simp: sweep worker_tick_valid split: if_splits)
  next
    case (disconnect k ok)
    then show ?thesis using DisconnectClient_jobs by (intro intro) (auto simp: DisconnectClient_valid split: if_splits)
  next
    case stop
    have "peerValid t = peerValid b" "bk_hand t = bk_hand b"
      using finish_all_same [of b "admissions b"] by (simp_all add: stop same_tables_def same_worker_def worker_stop_def)
    moreover have "jobs t \<subseteq> jobs b" using calculation(2) by (auto simp: jobs_def stop worker_stop_def)
    ultimately show ?thesis by (intro intro) auto
  qed (rule intro; auto simp: jobs_def close_begin_def close_end_def)+
qed

lemma backed_new: "backed_inv C fl s (new_backend s tunnel hook)"
  by (simp add: backed_inv_def new_backend_def jobs_def)

interpretation origins: invariant_machine "\<lambda>b. \<exists>tunnel hook. b = new_backend s0 tunnel hook" "backend_step C fl lt" "backed_inv C fl s0"
  for C fl lt s0
  by unfold_locales (auto intro: backed_new backend_step_backed)

section \<open>Every installation reports\<close>

text \<open>
  A transcript that is being installed has a job that has not reported yet; one whose report has been made
  never comes back.
\<close>

definition owns :: "server \<Rightarrow> bytes \<times> nat \<Rightarrow> bool" where
  "owns s cl \<longleftrightarrow> snd cl < next_ref s \<and> (\<forall>h q. (h, q) \<in> set (pendings s) \<longrightarrow> p_ref q = snd cl \<longrightarrow> h = fst cl \<and> p_installing q)"

definition reports :: "server \<Rightarrow> (bytes \<times> nat) set \<Rightarrow> bool" where
  "reports s H \<longleftrightarrow> server_inv s \<and>
     (\<forall>h q. (h, q) \<in> set (pendings s) \<longrightarrow> outstanding q \<longrightarrow> p_ref q \<notin> set (once_done s) \<and> (h, p_ref q) \<in> H) \<and>
     (\<forall>ref \<in> set (once_done s). spent ref s) \<and> (\<forall>cl \<in> H. owns s cl)"

definition handles :: "backend \<Rightarrow> (bytes \<times> nat) set" where
  "handles b = {cl. \<exists>j \<in> jobs b. job_handle j = Some cl}"

lemma owns_spent: "owns s (h, ref) \<Longrightarrow> spent ref s"
  by (auto simp: owns_def spent_def)

lemma owns_serve:
  assumes "owns s cl"
  shows "owns (serve C fl s e) cl"
proof -
  have "h = fst cl \<and> p_installing q" if q: "(h, q) \<in> set (pendings (serve C fl s e))" "p_ref q = snd cl" for h q
    using q(1)
  proof (cases rule: serve_entries)
    case (old p)
    then show ?thesis using assms q(2) by (auto simp: owns_def continues_def)
  next
    case (new oc src pkt now b pid pub)
    then show ?thesis using assms q(2) admits_signed(4) [OF new(2)] by (simp add: owns_def)
  qed
  then show ?thesis using assms next_ref_serve [of s C fl e] by (auto simp: owns_def)
qed

lemma owns_run: "runs (server_step C fl) s es t \<Longrightarrow> owns s cl \<Longrightarrow> owns t cl"
  by (induction rule: runs.induct) (auto simp: server_step_iff owns_serve)

lemma reports_mono: "reports s H \<Longrightarrow> H \<subseteq> H' \<Longrightarrow> (\<And>cl. cl \<in> H' \<Longrightarrow> owns s cl) \<Longrightarrow> reports s H'"
  by (auto simp: reports_def)

text \<open>Steps of the handshake server that start no installation.\<close>

lemma reports_quiet:
  assumes "reports s H" "ieee fl" "server_step C fl s e t" "once_done t = once_done s"
    "\<And>h q. (h, q) \<in> set (pendings t) \<Longrightarrow> outstanding q \<Longrightarrow> (h, q) \<in> set (pendings s)"
  shows "reports t H"
proof -
  have t: "t = serve C fl s e" using assms(3) by (simp add: server_step_iff)
  have "server_inv t" using server_inv_step assms(1-3) by (auto simp: reports_def)
  moreover have "spent ref t" if "ref \<in> set (once_done t)" for ref
    using assms(1,4) that spent_serve by (auto simp: reports_def t)
  moreover have "owns t cl" if "cl \<in> H" for cl
    using assms(1) that owns_serve by (auto simp: reports_def t)
  moreover have "p_ref q \<notin> set (once_done t) \<and> (h, p_ref q) \<in> H" if "(h, q) \<in> set (pendings t)" "outstanding q" for h q
    using assms(1,4) assms(5) [OF that] that(2) by (simp add: reports_def)
  ultimately show ?thesis unfolding reports_def by blast
qed

lemma Handle_installing:
  assumes "Handle C fl oc src pkt now s = (t, out, None)" "(h, q) \<in> set (pendings t)" "p_installing q"
  shows "(h, q) \<in> set (pendings s)"
  using assms(1)
proof (cases rule: Handle_cases)
  case (finish b)
  from finish(2) show ?thesis by (cases rule: handle_finish_cases) (use assms(2) in auto)
next
  case (hello b)
  then show ?thesis
  proof (cases rule: handle_hello_admits)
    case kept
    then show ?thesis using assms(2) by (auto simp: same_core_def)
  next
    case (stored pid pub q')
    have "\<not> p_installing q'" using admits_signed(5) [OF stored(1)] .
    with stored(4) assms(2,3) show ?thesis by (auto simp: hello_stored_def dest!: set_update_cases)
  qed
qed (use assms(2) in auto)

lemma Handle_once [simp]: "once_done (fst (Handle C fl oc src pkt now s)) = once_done s"
proof -
  obtain t out ses where res: "Handle C fl oc src pkt now s = (t, out, ses)" by (metis prod_cases3)
  then have "once_done t = once_done s"
  proof (cases rule: Handle_cases)
    case (finish b)
    from finish(2) show ?thesis by (cases rule: handle_finish_cases) auto
  next
    case (hello b)
    then show ?thesis by (cases rule: handle_hello_admits) (auto simp: same_core_def hello_stored_def charged_def)
  qed auto
  with res show ?thesis by simp
qed

lemma reports_session:
  assumes rep: "reports s H" and "ieee fl" "now \<noteq> 0" and res: "Handle C fl oc src pkt now s = (t, out, Some ses)"
  shows "\<exists>cl. Installed ses = Some cl \<and> reports t (insert cl H)"
proof -
  have inv: "server_inv s" using rep by (simp add: reports_def)
  have pk: "pend_ok (next_ref s) (pendings s)" using inv by (simp add: inv_defs)
  obtain b p where p: "finish_ok C src b (Expire now s) p" "\<not> p_accepted p" "\<not> p_installing p"
    "ses = (p_session p)\<lparr>Installed := Some (take hashSize b, p_ref p)\<rparr>"
    and t: "t = (Expire now s)\<lparr>pendings := AList.update (take hashSize b) (p\<lparr>p_installing := True\<rparr>)
           (filter (\<lambda>e. \<not> rival p src e) (pendings (Expire now s)))\<rparr>"
    using res by (rule Handle_session)
  let ?h = "take hashSize b" and ?cl = "(take hashSize b, p_ref p)"
  have mem: "(?h, p) \<in> set (pendings s)" using finish_ok_member [OF p(1)] by simp
  have step: "server_step C fl s (EvHandle oc src pkt now) t" using assms(3) res by (rule step_handle)
  then have serve: "t = serve C fl s (EvHandle oc src pkt now)" by (simp only: server_step_iff)
  have inv': "server_inv t" using server_inv_step [OF assms(2) inv step] .
  have "mdistinct (filter (\<lambda>e. \<not> rival p src e) (pendings (Expire now s)))"
    using pk by (simp add: pend_ok_def pendings_Expire mdistinct_filter)
  then have entry: "(h, q) = (?h, p\<lparr>p_installing := True\<rparr>) \<or> (h, q) \<in> set (pendings s) \<and> h \<noteq> ?h"
    if "(h, q) \<in> set (pendings t)" for h q
    using that by (auto simp: t set_update_distinct)
  have fresh: "p_ref p \<notin> set (once_done s)"
  proof
    assume "p_ref p \<in> set (once_done s)"
    then have "spent (p_ref p) s" using rep by (simp add: reports_def)
    with mem p(3) show False by (force simp: spent_def)
  qed
  have ref: "h = ?h \<and> p_installing q" if q: "(h, q) \<in> set (pendings t)" "p_ref q = p_ref p" for h q
    using entry [OF q(1)] pend_ok_ref_key [OF pk mem, of "(h, q)"] q(2) by auto
  have "next_ref t = next_ref s" "once_done t = once_done s" by (simp_all add: t)
  moreover have "p_ref p < next_ref s" using pk mem by (auto simp: pend_ok_def set_refs)
  ultimately have own: "owns t ?cl" using ref by (auto simp: owns_def)
  have "p_ref q \<notin> set (once_done t) \<and> (h, p_ref q) \<in> insert ?cl H"
    if q: "(h, q) \<in> set (pendings t)" "outstanding q" for h q
    using entry [OF q(1)] q(2) rep fresh \<open>once_done t = once_done s\<close> by (auto simp: reports_def)
  moreover have "spent ref t" if "ref \<in> set (once_done t)" for ref
  proof -
    have "spent ref s" using rep that \<open>once_done t = once_done s\<close> by (simp add: reports_def)
    then show ?thesis unfolding serve by (rule spent_serve)
  qed
  moreover have "owns t cl" if "cl \<in> H" for cl
  proof -
    have "owns s cl" using rep that unfolding reports_def by blast
    then show ?thesis unfolding serve by (rule owns_serve)
  qed
  ultimately have "reports t (insert ?cl H)" using inv' own by (auto simp: reports_def)
  then show ?thesis using p(4) by simp
qed

lemma once_done_installed: "once_done (installed s (h, ref) ok) = (if ref \<in> set (once_done s) then once_done s else ref # once_done s)"
  by (auto simp: installed_def Let_def split: option.splits)

lemma installed_resolves:
  assumes "server_inv s" "owns s (h0, ref)" "(h, q) \<in> set (pendings (installed s (h0, ref) ok))" "outstanding q"
    "ref \<notin> set (once_done s)"
  shows "(h, q) \<in> set (pendings s) \<and> p_ref q \<noteq> ref"
proof -
  have d: "mdistinct (pendings s)" using assms(1) by (simp add: inv_defs pend_ok_def)
  show ?thesis
  proof (cases "map_of (pendings s) h0")
    case None
    then have mem: "(h, q) \<in> set (pendings s)" using assms(3,5) by (simp add: installed_def)
    moreover have "p_ref q \<noteq> ref"
    proof
      assume "p_ref q = ref"
      with assms(2) mem have "h = h0" unfolding owns_def by (metis fst_conv snd_conv)
      with mem None show False by (force simp: map_of_eq_None_iff)
    qed
    ultimately show ?thesis by simp
  next
    case (Some p)
    let ?acc = "p\<lparr>p_session := (p_session p)\<lparr>PSK := zeros 32\<rparr>, p_accepted := True\<rparr>"
    have gone: "(h, q) \<in> set (pendings s) \<and> (p_ref p = ref \<longrightarrow> h \<noteq> h0)"
      using assms(3-5) Some d
      by (auto simp: installed_def Let_def set_update_distinct set_delete_eq outstanding_def split: if_splits)
    moreover have "p_ref q \<noteq> ref"
    proof
      assume "p_ref q = ref"
      with assms(2) gone have "h = h0" unfolding owns_def by (metis fst_conv snd_conv)
      with gone d Some have "q = p" by (metis map_of_is_SomeI option.inject)
      with gone \<open>p_ref q = ref\<close> \<open>h = h0\<close> show False by simp
    qed
    ultimately show ?thesis by simp
  qed
qed

lemma installed_reports:
  assumes rep: "reports s H" and own: "owns s cl"
  shows "reports (installed s cl ok) (H - {cl})"
proof -
  obtain h0 ref where cl: "cl = (h0, ref)" by fastforce
  let ?t = "installed s cl ok"
  have t: "?t = serve undefined undefined s (EvInstalled h0 ref ok)" by (simp add: cl)
  have inv: "server_inv s" using rep by (simp add: reports_def)
  have "server_inv ?t" using server_inv_installed [OF inv] by (simp add: cl)
  moreover have "spent r ?t" if "r \<in> set (once_done ?t)" for r
  proof -
    have "r \<in> set (once_done s) \<or> r = ref" using that by (auto simp: cl once_done_installed split: if_splits)
    then have "spent r s" using rep own owns_spent by (auto simp: reports_def cl)
    then show ?thesis unfolding t by (rule spent_serve)
  qed
  moreover have "owns ?t x" if "x \<in> H" for x
  proof -
    have "owns s x" using rep that by (simp add: reports_def)
    then show ?thesis unfolding t by (rule owns_serve)
  qed
  moreover have "p_ref q \<notin> set (once_done ?t) \<and> (h, p_ref q) \<in> H - {cl}"
    if q: "(h, q) \<in> set (pendings ?t)" "outstanding q" for h q
  proof (cases "ref \<in> set (once_done s)")
    case True
    then have "?t = s" by (simp add: cl installed_def)
    then show ?thesis using q rep True by (auto simp: reports_def cl)
  next
    case False
    then show ?thesis
      using installed_resolves [OF inv own [unfolded cl] q(1) [unfolded cl] q(2)] q(2) rep
      by (auto simp: reports_def cl once_done_installed)
  qed
  ultimately show ?thesis unfolding reports_def by blast
qed

lemma finish_reports:
  assumes "reports (bk_server b) H" "\<And>cl. job_handle j = Some cl \<Longrightarrow> owns (bk_server b) cl"
  shows "reports (bk_server (finish j ok b)) (H - set_option (job_handle j))"
  using assms installed_reports by (cases "job_handle j") (auto simp: finish_server)

lemma advances_owns: "advances C fl b t \<Longrightarrow> owns (bk_server b) cl \<Longrightarrow> owns (bk_server t) cl"
  unfolding advances_def using owns_run by blast

lemmas finish_owns = advances_owns [OF finish_advances]

lemma finish_all_reports:
  assumes "reports (bk_server b) H" "\<And>k j cl. (k, j) \<in> set js \<Longrightarrow> job_handle j = Some cl \<Longrightarrow> owns (bk_server b) cl"
  shows "reports (bk_server (fold (\<lambda>(k, j). finish j False) js b)) (H - {cl. \<exists>(k, j) \<in> set js. job_handle j = Some cl})"
  using assms
proof (induction js arbitrary: b H)
  case (Cons kj js)
  obtain k j where kj: "kj = (k, j)" by fastforce
  have "reports (bk_server (finish j False b)) (H - set_option (job_handle j))"
    using Cons.prems(1) by (rule finish_reports) (use Cons.prems(2) kj in auto)
  moreover have "owns (bk_server (finish j False b)) cl" if "(i, x) \<in> set js" "job_handle x = Some cl" for i x cl
    using Cons.prems(2) [of i x cl] that finish_owns by auto
  ultimately have "reports (bk_server (fold (\<lambda>(k, j). finish j False) js (finish j False b)))
      (H - set_option (job_handle j) - {cl. \<exists>(k, j) \<in> set js. job_handle j = Some cl})"
    using Cons.IH by blast
  moreover have "H - set_option (job_handle j) - {cl. \<exists>(k, j) \<in> set js. job_handle j = Some cl} =
      H - {cl. \<exists>(k, j) \<in> set (kj # js). job_handle j = Some cl}" by (auto simp: kj)
  ultimately show ?case by (simp add: kj)
qed simp

definition reports_inv :: "backend \<Rightarrow> bool" where
  "reports_inv b \<longleftrightarrow> reports (bk_server b) (handles b)"

lemma completeBootstrap_reports:
  assumes rep: "reports (bk_server b) H" and own: "\<And>cl. job_handle j = Some cl \<Longrightarrow> owns (bk_server b) cl"
  shows "reports (bk_server (completeBootstrapLocked ch j b)) (H - set_option (job_handle j))"
proof (cases rule: completeBootstrap_parts [of b j ch])
  case (1 t ok)
  have "bk_server t = bk_server b" using 1(1) by (simp add: silent_def)
  then have "reports (bk_server (finish j ok t)) (H - set_option (job_handle j))"
    using rep own by (intro finish_reports) simp_all
  then show ?thesis using 1(3) by (cases ok) simp_all
next
  case 2
  then have "set_option (job_handle j) = {}" "bk_server (completeBootstrapLocked ch j b) = bk_server b"
    by (auto simp: job_handle_def)
  with rep show ?thesis by simp
qed

lemma reports_shrink:
  assumes "reports s (H - set_option (job_handle j))" "H \<subseteq> handles t \<union> set_option (job_handle j)" "\<And>cl. cl \<in> handles t \<Longrightarrow> owns s cl"
    "bk_server t = s"
  shows "reports_inv t"
  unfolding reports_inv_def assms(4) by (rule reports_mono [OF assms(1)]) (use assms(2,3) in auto)

lemma handles_owned:
  assumes "reports_inv b" "advances C fl b t" "cl \<in> handles b"
  shows "owns (bk_server t) cl"
proof -
  have "owns (bk_server b) cl" using assms(1,3) unfolding reports_inv_def reports_def by blast
  with assms(2) show ?thesis by (rule advances_owns)
qed

lemma handles_cong: "jobs t = jobs b \<Longrightarrow> handles t = handles b"
  by (simp add: handles_def)

lemma reports_quiet_step:
  assumes "reports_inv b" "ieee fl" "server_step C fl (bk_server b) e (bk_server t)" "handles t = handles b"
    "once_done (bk_server t) = once_done (bk_server b)" "set (pendings (bk_server t)) \<subseteq> set (pendings (bk_server b))"
  shows "reports_inv t"
  unfolding reports_inv_def assms(4)
  using reports_quiet [OF assms(1) [unfolded reports_inv_def] assms(2,3,5)] assms(6) by blast

lemma worker_answer_reports:
  assumes rep: "reports_inv b" and fl: "ieee fl" and hand: "bk_hand b = Taken q" and now: "now \<noteq> 0"
  shows "reports_inv (worker_answer C fl lt oc now later q b)"
proof (cases rule: worker_answer_cases [of q b C fl lt oc now later])
  case pending
  have "handles ((unqueue (in_src q) b)\<lparr>bk_hand := Idle\<rparr>) = handles b" by (rule handles_cong) (simp add: jobs_def hand)
  with rep show ?thesis by (simp add: pending reports_inv_def)
next
  case (asked s reply peer j)
  let ?t = "worker_answer C fl lt oc now later q b"
  have js: "jobs ?t = insert j (jobs b)" by (auto simp: asked(4) jobs_def hand)
  have h: "handles ?t = handles b \<union> set_option (job_handle j)" by (auto simp: handles_def js)
  obtain ses where ses: "Handle C fl oc (in_src q) (in_packet q) now (bk_server b) = (s, reply, ses)"
    and none: "peer = None \<longleftrightarrow> ses = None"
    using Bootstrap_server [OF asked(2)] by blast
  have s: "bk_server ?t = s" by (simp add: asked(4))
  show ?thesis
  proof (cases ses)
    case None
    then have "job_handle j = None" using none by (simp add: asked(3) job_handle_def)
    moreover have "reports s (handles b)"
    proof (rule reports_quiet [OF rep [unfolded reports_inv_def] fl step_handle [OF now ses]])
      show "once_done s = once_done (bk_server b)" using Handle_once [of C fl oc "in_src q" "in_packet q" now "bk_server b"] ses by simp
      show "(h, x) \<in> set (pendings (bk_server b))" if "(h, x) \<in> set (pendings s)" "outstanding x" for h x
        using Handle_installing [OF ses [unfolded None] that(1)] that(2) by (simp add: outstanding_def)
    qed
    ultimately show ?thesis by (simp add: reports_inv_def h s)
  next
    case (Some se)
    obtain cl where cl: "Installed se = Some cl" "reports s (insert cl (handles b))"
      using reports_session [OF rep [unfolded reports_inv_def] fl now ses [unfolded Some]] by blast
    have "job_handle j = Some cl"
      using asked(2) ses Some cl(1) by (auto simp: asked(3) job_handle_def Bootstrap_def)
    with cl(2) show ?thesis by (simp add: reports_inv_def h s)
  qed
qed

lemma worker_commit_reports:
  assumes rep: "reports_inv b" and hand: "bk_hand b = Answered j" and new: "j_src j \<notin> mkeys (admissions b)"
  shows "reports_inv (worker_commit ch j b)"
proof -
  have j: "j \<in> jobs b" by (simp add: jobs_def hand)
  have own: "owns (bk_server b) cl" if "job_handle j = Some cl" for cl
    by (rule handles_owned [OF rep advances_refl]) (use j that in \<open>auto simp: handles_def\<close>)
  have rep': "reports (bk_server b) (handles b)" using rep by (simp add: reports_inv_def)
  have jobs: "jobs b = insert j (snd ` set (admissions b))" by (simp add: jobs_def hand)
  have ends: "reports_inv (t\<lparr>bk_hand := Idle\<rparr>)"
    if t: "reports (bk_server t) (handles b - set_option (job_handle j))" "same_worker b t"
      "advances undefined undefined b t" for t
  proof (rule reports_shrink [OF t(1)])
    let ?t = "t\<lparr>bk_hand := Idle\<rparr>"
    have "jobs ?t = snd ` set (admissions b)" using t(2) by (simp add: jobs_def same_worker_def)
    then show "handles b \<subseteq> handles ?t \<union> set_option (job_handle j)" "\<And>cl. cl \<in> handles ?t \<Longrightarrow> owns (bk_server t) cl"
      using handles_owned [OF rep t(3)] by (auto simp: handles_def jobs)
  qed simp
  show ?thesis
  proof (cases rule: worker_commit_cases [of j ch b])
    case (rejected p)
    then show ?thesis using ends [OF finish_reports [OF rep' own]] by simp
  next
    case (hooked p)
    have "set (AList.update (j_src j) j (admissions b)) = insert (j_src j, j) (set (admissions b))"
      by (simp add: update_fresh [OF new])
    then have "jobs (worker_commit ch j b) = jobs b" by (auto simp: hooked(5) jobs_def hand)
    from handles_cong [OF this] show ?thesis using rep by (simp add: hooked(5) reports_inv_def)
  next
    case complete
    then show ?thesis
      using ends [OF completeBootstrap_reports [OF rep' own]] completeBootstrap_worker completeBootstrap_advances by simp
  qed
qed

lemma worker_decided_reports:
  assumes rep: "reports_inv b" and inv: "jobs_inv b" and job: "map_of (admissions b) src = Some j"
  shows "reports_inv (worker_decided ch j allowed b)"
proof -
  let ?c = "b\<lparr>admissions := AList.delete (j_src j) (admissions b)\<rparr>" and ?t = "worker_decided ch j allowed b"
  have sj: "(src, j) \<in> set (admissions b)" using job by (rule map_of_SomeD)
  then have src: "j_src j = src" using inv by (auto simp: jobs_inv_def)
  have d: "mdistinct (admissions b)" using inv by (simp add: jobs_inv_def)
  have j: "j \<in> jobs b" using sj by (force simp: jobs_def)
  have "set (admissions b) = insert (src, j) (set (AList.delete src (admissions b)))" using d sj by (rule set_split_key)
  then have "snd ` set (admissions b) = snd ` insert (src, j) (set (AList.delete src (admissions b)))" by (rule arg_cong)
  also have "\<dots> = insert j (snd ` set (admissions ?c))" by (simp add: src)
  finally have "snd ` set (admissions b) = insert j (snd ` set (admissions ?c))" .
  then have "jobs b = insert j (jobs ?c)" by (auto simp: jobs_def)
  then have h: "handles b = handles ?c \<union> set_option (job_handle j)" by (auto simp: handles_def)
  have own: "owns (bk_server ?c) cl" if "job_handle j = Some cl" for cl
    using handles_owned [OF rep advances_refl, of cl] that by (simp add: h)
  have "reports (bk_server ?t) (handles b - set_option (job_handle j))"
    using finish_reports [of ?c "handles b" j False] completeBootstrap_reports [of ?c "handles b" j ch] own rep
    by (simp add: worker_decided_def Let_def reports_inv_def)
  then show ?thesis
  proof (rule reports_shrink)
    have "same_worker ?c ?t" using completeBootstrap_worker by (simp add: worker_decided_def Let_def)
    then have t: "handles ?t = handles ?c" using jobs_cong handles_cong by blast
    show "handles b \<subseteq> handles ?t \<union> set_option (job_handle j)" by (simp add: t h)
    have "advances undefined undefined ?c ?t" using completeBootstrap_advances by (simp add: worker_decided_def Let_def)
    then have "advances undefined undefined b ?t" by (rule advances_cong(2)) simp_all
    then show "owns (bk_server ?t) cl" if "cl \<in> handles ?t" for cl
      using handles_owned [OF rep] that by (simp add: t h)
  qed simp
qed

lemma DisconnectClient_handles:
  assumes "mdistinct (admissions b)"
  shows "handles (fst (DisconnectClient ok k b)) = handles b"
proof (cases "map_of (admissions b) k")
  case None
  then show ?thesis by (simp add: handles_def DisconnectClient_worker jobs_def [of b])
next
  case (Some i)
  let ?i = "i\<lparr>j_cancelled := True\<rparr>"
  have "set (admissions b) = insert (k, i) {x \<in> set (admissions b). fst x \<noteq> k}"
    using set_split_key [OF assms map_of_SomeD [OF Some]] by (simp only: set_delete_eq)
  from arg_cong [OF this, of "(`) snd"]
  have "snd ` set (admissions b) = insert i (snd ` {x \<in> set (admissions b). fst x \<noteq> k})" by (simp only: image_insert snd_conv)
  then have "jobs b = (case bk_hand b of Answered j \<Rightarrow> {j} | _ \<Rightarrow> {}) \<union> insert i (snd ` {x \<in> set (admissions b). fst x \<noteq> k})"
    by (simp only: jobs_def)
  moreover have "jobs (fst (DisconnectClient ok k b)) =
      (case bk_hand b of Answered j \<Rightarrow> {j} | _ \<Rightarrow> {}) \<union> insert ?i (snd ` {x \<in> set (admissions b). fst x \<noteq> k})"
    by (simp add: DisconnectClient_worker Some set_update_distinct [OF assms])
  moreover have "job_handle ?i = job_handle i" by (simp add: job_handle_def)
  ultimately show ?thesis by (simp add: handles_def)
qed

lemma worker_tick_reports:
  assumes rep: "reports_inv b" and fl: "ieee fl"
  shows "reports_inv (worker_tick now view ok b)"
proof -
  have t: "bk_server (worker_tick now view ok b) = Expire now (bk_server b)"
    using disconnect_routes_silent unfolding worker_tick_eq by (simp add: silent_def)
  show ?thesis
  proof (rule reports_quiet_step [OF rep fl])
    show "server_step C fl (bk_server b) (EvExpire now) (bk_server (worker_tick now view ok b))" for C unfolding t by (rule step_expire)
    show "handles (worker_tick now view ok b) = handles b" using jobs_cong [OF worker_tick_worker] by (simp add: handles_def)
  qed (auto simp: t)
qed

lemma worker_stop_reports:
  assumes rep: "reports_inv b" and hand: "bk_hand b = Idle"
  shows "reports_inv (worker_stop b)"
proof -
  have h: "handles b = {cl. \<exists>(k, j) \<in> set (admissions b). job_handle j = Some cl}"
    using hand by (force simp: handles_def jobs_def)
  have "reports (bk_server (worker_stop b)) (handles b - handles b)"
    unfolding worker_stop_def h
    using finish_all_reports [of b "handles b" "admissions b"] rep handles_owned [OF rep advances_refl]
    by (auto simp: h reports_inv_def)
  moreover have "handles (worker_stop b) = {}"
    using finish_all_same [of b "admissions b"] hand by (auto simp: worker_stop_def handles_def jobs_def same_worker_def)
  ultimately show ?thesis by (simp add: reports_inv_def)
qed

lemma reports_step:
  assumes step: "backend_step C fl lt b e t" and rep: "reports_inv b" and inv: "jobs_inv b" and fl: "ieee fl"
  shows "reports_inv t"
  using step
proof (cases rule: backend_step.cases)
  case (arrive region src pkt)
  have "jobs t = jobs b" "bk_server t = bk_server b" by (simp_all add: arrive jobs_def onDERPRecv_frame)
  then show ?thesis using rep by (simp add: reports_inv_def handles_def)
next
  case take
  then have "jobs t = jobs b" "bk_server t = bk_server b" by (auto simp: worker_take_def jobs_def split: list.splits)
  then show ?thesis using rep by (simp add: reports_inv_def handles_def)
next
  case (answer p now oc later)
  then show ?thesis using worker_answer_reports rep fl by blast
next
  case (commit j ch)
  then show ?thesis using worker_commit_reports rep inv by (auto simp: jobs_inv_def)
next
  case (decided src j ch allowed)
  then show ?thesis using worker_decided_reports rep inv by blast
next
  case (sweep now view ok)
  then show ?thesis using worker_tick_reports [OF rep fl] by simp
next
  case (disconnect k ok)
  have s: "bk_server t = bk_server b" using DisconnectClient_silent [of b ok k] by (simp add: disconnect silent_def)
  have "mdistinct (admissions b)" using inv by (simp add: jobs_inv_def)
  then have "handles t = handles b" using disconnect by (simp add: DisconnectClient_handles)
  then show ?thesis using rep s by (simp add: reports_inv_def)
next
  case (reauthorize auth)
  show ?thesis
  proof (rule reports_quiet_step [OF rep fl])
    show "server_step C fl (bk_server b) (EvReload auth) (bk_server t)" unfolding reauthorize by (simp add: step_reload)
  qed (simp_all add: reauthorize handles_def jobs_def)
next
  case shut
  then show ?thesis using rep by (simp add: close_begin_def reports_inv_def handles_def jobs_def)
next
  case stop
  then show ?thesis using worker_stop_reports [OF rep] by simp
next
  case finalize
  show ?thesis
  proof (rule reports_quiet_step [OF rep fl])
    show "server_step C fl (bk_server b) EvClose (bk_server t)" unfolding finalize by (simp add: close_end_def step_close)
  qed (simp_all add: finalize close_end_def handles_def jobs_def Close_def)
qed

end
