(* ===== verification/Admission_Props.thy ===== *)
theory Admission_Props
  imports Admission_History
begin

text \<open>
  The properties of the admission of peers: who gets a configuration, what ends a session, what a failure
  leaves behind, and that the tables, the routes and the handshake server stay in step.
\<close>

section \<open>Routes\<close>

text \<open>The last request about the route of a source: whether it was an addition, and whether it was granted.\<close>

fun asked :: "bytes \<Rightarrow> effect \<Rightarrow> (bool \<times> bool) option \<Rightarrow> (bool \<times> bool) option" where
  "asked k (TunnelAdd x ok) r = (if x = k then Some (True, ok) else r)"
| "asked k (TunnelRemove x ok) r = (if x = k then Some (False, ok) else r)"
| "asked k _ r = r"

definition last_asked :: "effect list \<Rightarrow> bytes \<Rightarrow> (bool \<times> bool) option" where
  "last_asked xs k = fold (asked k) xs None"

text \<open>The sources whose last request was an addition that was granted, as a set that the requests change.\<close>

fun route_after :: "effect \<Rightarrow> bytes set \<Rightarrow> bytes set" where
  "route_after (TunnelAdd k ok) R = (if ok then insert k R else R - {k})"
| "route_after (TunnelRemove k ok) R = R - {k}"
| "route_after _ R = R"

definition routes :: "effect list \<Rightarrow> bytes set" where
  "routes xs = fold route_after xs {}"

lemma routes_append [simp]: "routes (xs @ ys) = fold route_after ys (routes xs)"
  by (simp add: routes_def)

lemma routes_iff: "k \<in> routes xs \<longleftrightarrow> last_asked xs k = Some (True, True)"
proof (induction xs rule: rev_induct)
  case Nil
  then show ?case by (simp add: routes_def last_asked_def)
next
  case (snoc x xs)
  then show ?case by (cases x) (auto simp: last_asked_def)
qed

definition routes_inv :: "backend \<Rightarrow> bool" where
  "routes_inv b \<longleftrightarrow> routes (bk_log b) = (if tunnelPeer b then mkeys (clients b) else {})"

lemma routes_emit: "routes (bk_log (emit x b)) = route_after x (routes (bk_log b))"
  by simp

lemma routes_helpers [simp]:
  "routes (bk_log (finish j ok b)) = routes (bk_log b)" "routes (bk_log (send_reply j b)) = routes (bk_log b)"
  "routes (bk_log (set_peers ns b)) = routes (bk_log b)" "routes (bk_log (refresh_network_map b)) = routes (bk_log b)"
  "routes (bk_log (remove_route ok k b)) = (if tunnelPeer b then routes (bk_log b) - {k} else routes (bk_log b))"
  "routes (bk_log (with_route k ok b)) = (if tunnelPeer b then route_after (TunnelAdd k ok) (routes (bk_log b)) else routes (bk_log b))"
  "routes (bk_log (renew_peer ch k p b)) = routes (bk_log b)"
  "routes (bk_log (fst (removeAuthenticatedPeer k b))) = routes (bk_log b)"
  "routes (bk_log (install_peer ch k p b)) = routes (bk_log b)"
  by (cases ok; auto simp: finish_def send_reply_def set_peers_def refresh_network_map_def remove_route_def with_route_def
      renew_peer_def removeAuthenticatedPeer_def install_peer_def addClientLocked_def setNetworkMapLocked_def Let_def
      split: option.splits)+

lemma tunnelPeer_same: "same_worker b t \<Longrightarrow> tunnelPeer t = tunnelPeer b"
  by (simp add: same_worker_def)

lemma routes_disconnect:
  "routes (bk_log (fold (disconnect_route ok) ks b)) = (if tunnelPeer b then routes (bk_log b) - set ks else routes (bk_log b))"
proof (induction ks arbitrary: b)
  case (Cons k ks)
  have "tunnelPeer (disconnect_route ok k b) = tunnelPeer b"
    "routes (bk_log (disconnect_route ok k b)) = (if tunnelPeer b then routes (bk_log b) - {k} else routes (bk_log b))"
    by (simp_all add: disconnect_route_def remove_route_def)
  with Cons show ?case by auto
qed simp

lemma clients_helpers [simp]:
  "clients (finish j ok b) = clients b" "clients (send_reply j b) = clients b" "clients (remove_route ok k b) = clients b"
  "clients (with_route k ok b) = clients b"
  "clients (fst (removeAuthenticatedPeer k b)) = filter (\<lambda>(x, _). x \<noteq> k) (clients b)"
  by (auto simp: finish_def send_reply_def remove_route_def with_route_def removeAuthenticatedPeer_def forget_def split: option.splits)

lemma mkeys_forget: "mkeys (filter (\<lambda>(x, _). \<not> gone x) m) = {k \<in> mkeys m. \<not> gone k}"
  by force

lemma remove_keys: "mkeys (clients (fst (removeAuthenticatedPeer k b))) = mkeys (clients b) - {k}"
  by force

lemma remove_worker: "same_worker b (fst (removeAuthenticatedPeer k b))"
  using same_worker_trans [OF same_worker_trans [OF forget_worker(1) refresh_simps(1)] same_tables_emit(2)]
  by (simp add: removeAuthenticatedPeer_def)

lemma evict_oldest_routes:
  assumes "peers_inv b" "routes_inv b"
  shows "routes_inv (evict_oldest ch p b)"
  using assms(1)
proof (cases rule: evict_oldest_cases [of b ch p])
  case (evicted k)
  have "tunnelPeer (remove_route (ch_unroute ch) k (fst (removeAuthenticatedPeer k b))) = tunnelPeer b"
    "tunnelPeer (fst (removeAuthenticatedPeer k b)) = tunnelPeer b"
    using remove_worker same_worker_trans [OF remove_worker remove_route_same(2)] tunnelPeer_same by blast+
  then show ?thesis using assms(2) evicted(1) remove_keys by (simp add: routes_inv_def)
qed (use assms(2) in simp)

lemma install_keys:
  assumes "map_of (clients b) src = None"
  shows "mkeys (clients (install_peer ch src p b)) = insert src (mkeys (clients b))"
  using install_peer_simps(5) [OF assms] by simp

lemma completeBootstrap_routes:
  assumes inv: "peers_inv b" and rts: "routes_inv b"
  shows "routes_inv (completeBootstrapLocked ch j b)"
proof -
  have tp: "tunnelPeer (completeBootstrapLocked ch j b) = tunnelPeer b"
    using completeBootstrap_worker by (rule tunnelPeer_same)
  note evict = evict_oldest_routes [OF inv rts] tunnelPeer_same [OF evict_oldest_worker(1)]
  have absent: "map_of (clients (evict_oldest ch p b)) (j_src j) = None"
    if "map_of (peerPSKs b) (j_src j) = None" "bk_phase b = Running" for p
    using row_absent(4) [OF evict_oldest_inv [OF inv] _ evict_oldest_absent [OF that(1)]] that(2) evict_oldest_worker(1) [of b ch p]
    by (simp add: same_worker_def)
  show ?thesis
  proof (cases rule: completeBootstrap_cases [of b ch j])
    case (renewed p)
    then show ?thesis using rts tp by (simp add: routes_inv_def)
  next
    case (full p)
    then show ?thesis using evict tp by (simp add: routes_inv_def)
  next
    case (unrouted p)
    let ?i = "install_peer ch (j_src j) p (evict_oldest ch p b)"
    note a = absent [OF unrouted(4,1), of p]
    have "mkeys (clients (completeBootstrapLocked ch j b)) = mkeys (clients (evict_oldest ch p b))"
      using remove_keys [of "j_src j" "with_route (j_src j) False ?i"] install_keys [OF a] a
      by (simp add: unrouted(8) map_of_eq_None_iff)
    moreover have "mkeys (clients (evict_oldest ch p b)) - {j_src j} = mkeys (clients (evict_oldest ch p b))"
      using a by (simp add: map_of_eq_None_iff)
    ultimately show ?thesis using evict tp unrouted(8) by (simp add: routes_inv_def)
  next
    case (added p)
    let ?i = "install_peer ch (j_src j) p (evict_oldest ch p b)"
    note a = absent [OF added(4,1), of p]
    have "tunnelPeer ?i = tunnelPeer b" using tunnelPeer_same [OF install_peer_simps(9) [OF a]] evict(2) by simp
    then show ?thesis using evict tp added(7) install_keys [OF a] by (simp add: routes_inv_def)
  qed (use rts tp in \<open>simp_all add: routes_inv_def\<close>)
qed

lemma worker_commit_routes:
  assumes "peers_inv b" and rts: "routes_inv b"
  shows "routes_inv (worker_commit ch j b)"
proof -
  have hand: "routes_inv (x\<lparr>bk_hand := Idle\<rparr>) = routes_inv x" for x by (simp add: routes_inv_def)
  have "routes_inv (finish j False b)" using rts tunnelPeer_same [OF finish_same(2)] by (simp add: routes_inv_def)
  moreover have "routes_inv (b\<lparr>admissions := x, bk_hand := Idle\<rparr>)" for x using rts by (simp add: routes_inv_def)
  ultimately show ?thesis
    using completeBootstrap_routes [OF assms] by (cases rule: worker_commit_cases [of j ch b]) (simp_all add: hand)
qed

lemma worker_decided_routes:
  assumes "peers_inv b" "routes_inv b"
  shows "routes_inv (worker_decided ch j allowed b)"
proof -
  let ?c = "b\<lparr>admissions := AList.delete (j_src j) (admissions b)\<rparr>"
  have "same_tables b ?c" by (simp add: same_tables_def)
  then have c: "peers_inv ?c" "routes_inv ?c" using assms peers_inv_same by (simp_all add: routes_inv_def)
  then show ?thesis
    using completeBootstrap_routes [OF c] tunnelPeer_same [OF finish_same(2)]
    by (simp add: worker_decided_def Let_def) (simp add: routes_inv_def)
qed

lemma worker_tick_routes:
  assumes "routes_inv b"
  shows "routes_inv (worker_tick now view ok b)"
proof -
  define c where "c = emit (Call (EvExpire now)) (b\<lparr>bk_server := Expire now (bk_server b)\<rparr>)"
  define d where "d = (if swept view b = [] then c else refresh_network_map (forget (\<lambda>k. k \<in> set (swept view b)) c))"
  have t: "worker_tick now view ok b = fold (disconnect_route ok) (swept view b) d" by (simp add: worker_tick_eq d_def c_def)
  have d: "tunnelPeer d = tunnelPeer b" "routes (bk_log d) = routes (bk_log b)"
    "mkeys (clients d) = mkeys (clients b) - set (swept view b)"
    using mkeys_forget [of "\<lambda>k. k \<in> set (swept view b)" "clients b"]
    by (auto simp: d_def c_def refresh_network_map_def forget_def set_peers_def split: option.split)
  have "tunnelPeer (worker_tick now view ok b) = tunnelPeer d" "clients (worker_tick now view ok b) = clients d"
    using disconnect_routes_same [of d ok "swept view b"] by (simp_all add: t same_worker_def same_tables_def)
  then show ?thesis using assms d by (simp add: routes_inv_def t routes_disconnect)
qed

lemma DisconnectClient_routes:
  assumes "routes_inv b"
  shows "routes_inv (fst (DisconnectClient ok k b))"
proof -
  define c where "c = (case map_of (admissions b) k of None \<Rightarrow> b
     | Some j \<Rightarrow> b\<lparr>admissions := AList.update k (j\<lparr>j_cancelled := True\<rparr>) (admissions b)\<rparr>)"
  have c: "tunnelPeer c = tunnelPeer b" "clients c = clients b" "bk_log c = bk_log b" by (simp_all add: c_def split: option.split)
  have tp: "tunnelPeer (fst (removeAuthenticatedPeer k c)) = tunnelPeer b"
    using tunnelPeer_same [OF remove_worker] c(1) by simp
  show ?thesis
    unfolding DisconnectClient_eq c_def [symmetric]
    using assms tp c remove_keys [of k c] tunnelPeer_same [OF remove_route_same(2)]
    by (auto simp: routes_inv_def map_of_eq_None_iff)
qed

lemma worker_stop_routes:
  assumes "routes_inv b"
  shows "routes_inv (worker_stop b)"
proof -
  have log: "routes (bk_log (fold (\<lambda>(k, j). finish j False) js x)) = routes (bk_log x)" for js x
    by (induction js arbitrary: x) (auto simp: split_def)
  show ?thesis
    using assms finish_all_same [of b "admissions b"]
    by (simp add: worker_stop_def routes_inv_def same_tables_def same_worker_def log)
qed

lemmas operations_routes = worker_commit_routes worker_decided_routes worker_tick_routes DisconnectClient_routes worker_stop_routes

lemma backend_step_routes:
  assumes step: "backend_step C fl lt b e t" and inv: "peers_inv b" and rts: "routes_inv b"
  shows "routes_inv t"
  using step
proof (cases rule: backend_step.cases)
  case (arrive region src pkt)
  then show ?thesis using rts onDERPRecv_frame(1) [of b region src pkt] by (simp add: routes_inv_def onDERPRecv_frame same_tables_def)
next
  case take
  then show ?thesis using rts by (auto simp: worker_take_def routes_inv_def split: list.splits)
next
  case (answer p now oc later)
  have "clients (unqueue (in_src p) b) = clients b" by (simp add: unqueue_def)
  then show ?thesis
    using rts unfolding answer
    by (cases rule: worker_answer_cases [of p b C fl lt oc now later]) (simp_all add: routes_inv_def)
qed (use inv rts in \<open>simp_all add: operations_routes\<close>, use rts in \<open>simp_all add: routes_inv_def close_begin_def close_end_def\<close>)

section \<open>The state of a running server\<close>

text \<open>Everything that holds of a server after a run from its start.\<close>

definition serving_inv :: "crypto \<Rightarrow> rounding \<Rightarrow> server \<Rightarrow> backend \<Rightarrow> bool" where
  "serving_inv C fl s0 b \<longleftrightarrow> backend_inv b \<and> backed_inv C fl s0 b \<and> routes_inv b \<and> (ieee fl \<longrightarrow> reports_inv b)"

lemma serving_inv_new: "server_inv s \<Longrightarrow> pendings s = [] \<Longrightarrow> once_done s = [] \<Longrightarrow> serving_inv C fl s (new_backend s tunnel hook)"
  by (simp add: serving_inv_def backend_inv_new backed_new)
    (simp add: new_backend_def routes_inv_def routes_def reports_inv_def reports_def handles_def jobs_def)

lemma serving_inv_step:
  assumes "serving_inv C fl s0 b" "backend_step C fl lt b e t"
  shows "serving_inv C fl s0 t"
proof -
  have b: "backend_inv b" "peers_inv b" "jobs_inv b" "backed_inv C fl s0 b" "routes_inv b" "ieee fl \<Longrightarrow> reports_inv b"
    using assms(1) by (simp_all add: serving_inv_def backend_inv_def)
  show ?thesis
    using backend_step_inv [OF assms(2) b(1)] backend_step_backed [OF assms(2) b(4)] backend_step_routes [OF assms(2) b(2,5)]
      reports_step [OF assms(2) b(6) b(3)]
    by (simp add: serving_inv_def)
qed

lemma serving_inv_start: "serving_inv C fl (new_server pub ks auth) (new_backend (new_server pub ks auth) tunnel hook)"
  using server_inv_new by (rule serving_inv_new) (simp_all add: new_server_def)

interpretation server: invariant_machine
  "\<lambda>b. \<exists>pub ks auth tunnel hook. s0 = new_server pub ks auth \<and> b = new_backend s0 tunnel hook" "backend_step C fl lt" "serving_inv C fl s0"
  for C fl lt s0
  by unfold_locales (auto intro: serving_inv_step serving_inv_start)

lemma run_serving_inv:
  assumes "runs (backend_step C fl lt) (new_backend (new_server pub ks auth) tunnel hook) es b"
  shows "serving_inv C fl (new_server pub ks auth) b"
  using assms by (rule server.run_start_inv) blast

section \<open>What a completion leaves\<close>

text \<open>The tables at one source.\<close>

definition row :: "backend \<Rightarrow> bytes \<Rightarrow> bytes option \<times> auth_peer option \<times> bytes option \<times> gotime option \<times> node option" where
  "row b k = (map_of (peerPSKs b) k, map_of (peerValid b) k, map_of (peerOwners b) k, map_of (peerInstalled b) k, map_of (clients b) k)"

lemma row_same: "same_tables b t \<Longrightarrow> row t k = row b k"
  by (simp add: row_def same_tables_def)

lemmas row_helpers [simp] = finish_same(1) [THEN row_same] send_reply_same(1) [THEN row_same] remove_route_same(1) [THEN row_same]
  with_route_same(1) [THEN row_same]

lemma row_remove: "row (fst (removeAuthenticatedPeer x b)) k = (if k = x then (None, None, None, None, None) else row b k)"
  by (simp add: row_def removeAuthenticatedPeer_def forget_def map_of_forget)

lemma row_install:
  assumes "map_of (clients b) src = None" "k \<noteq> src"
  shows "row (install_peer ch src p b) k = row b k"
  using assms(2) by (simp add: row_def install_peer_simps [OF assms(1)] update_conv map_add_def split: option.split)

lemma row_none: "peers_inv b \<Longrightarrow> bk_phase b \<noteq> Closed \<Longrightarrow> map_of (peerPSKs b) k = None \<Longrightarrow> row b k = (None, None, None, None, None)"
  using row_absent by (simp add: row_def)

text \<open>The row that an eviction removes is the oldest of the identity, which has all the sessions it may have.\<close>

definition evictable :: "backend \<Rightarrow> auth_peer \<Rightarrow> bytes \<Rightarrow> bool" where
  "evictable b p k \<longleftrightarrow> sessions (ap_identity p) b = maxSessionsPerIdentity \<and> map_of (peerOwners b) k = Some (ap_identity p) \<and>
     (\<forall>k'. map_of (peerOwners b) k' = Some (ap_identity p) \<longrightarrow> time_of (peerInstalled b) k \<le> time_of (peerInstalled b) k')"

lemma row_evict:
  assumes "peers_inv b"
  shows "row (evict_oldest ch p b) k = row b k \<or> evictable b p k \<and> row (evict_oldest ch p b) k = (None, None, None, None, None)"
proof (cases "sessions (ap_identity p) b < maxSessionsPerIdentity")
  case True
  then have "evict_oldest ch p b = b"
    using oldestSession_spec(1) [OF _ peers_inv_times [OF assms]]
    by (auto simp: evict_oldest_def sessions_def split: prod.split)
  then show ?thesis by simp
next
  case False
  then have full: "sessions (ap_identity p) b = maxSessionsPerIdentity" using assms by (simp add: peers_inv_def le_antisym)
  from assms show ?thesis
  proof (cases rule: evict_oldest_cases [of b ch p])
    case (evicted x)
    then show ?thesis using full by (auto simp: row_remove evictable_def)
  qed simp
qed

text \<open>
  The two ways a completion can end for a job with a peer. Installed: the row of its source is the peer's,
  the handshake is told so, and then the reply is sent. Refused: the row of its source is as it was, the
  handshake is told so, and nothing is sent.
\<close>

definition row_of :: "chance \<Rightarrow> bytes \<Rightarrow> auth_peer \<Rightarrow> backend \<Rightarrow> bool" where
  "row_of ch src p b \<longleftrightarrow> map_of (peerPSKs b) src = Some (ap_psk p) \<and> map_of (peerValid b) src = Some p \<and>
     map_of (peerOwners b) src = Some (ap_identity p) \<and> map_of (peerInstalled b) src = Some (ch_now ch) \<and>
     (\<exists>n. map_of (clients b) src = Some n \<and> node_of (nextClientID b) src p n)"

lemma row_of_same: "same_tables b t \<Longrightarrow> row_of ch src p t = row_of ch src p b"
  by (simp add: row_of_def same_tables_def)

lemma row_of_install:
  assumes "map_of (clients b) src = None"
  shows "row_of ch src p (install_peer ch src p b)"
  using assms by (simp add: row_of_def install_peer_simps [OF assms] update_conv map_add_def node_of_def)

lemma row_of_renew:
  assumes "peers_inv b" "renewable ch src p b"
  shows "row_of ch src p (renew_peer ch src p b)"
proof -
  obtain q n where q: "map_of (peerValid b) src = Some q" "ap_identity q = ap_identity p"
    "map_of (clients b) src = Some n" "n_Disco n = ap_disco p"
    using assms by (rule renewable_row)
  have "map_of (peerOwners b) src = Some (ap_identity q)" "node_of (nextClientID b) src q n"
    using row_present [OF assms(1) q(1)] q(3) by (metis option.inject)+
  with q show ?thesis by (simp add: row_of_def update_conv node_of_def)
qed

definition reported :: "bootstrapAdmission \<Rightarrow> bool \<Rightarrow> server_event list" where
  "reported j ok = (case job_handle j of None \<Rightarrow> [] | Some (h, ref) \<Rightarrow> [EvInstalled h ref ok])"

definition replied :: "bootstrapAdmission \<Rightarrow> (bytes \<times> nat \<times> bytes) list" where
  "replied j = (if j_reply j = [] then [] else [(j_src j, j_region j, j_reply j)])"

lemma finish_log: "bk_log (finish j ok b) = bk_log b @ map Call (reported j ok)"
  by (auto simp: finish_def reported_def job_handle_def split: option.splits)

lemma calls_Call [simp]: "calls (map Call es) = es" "sends (map Call es) = []"
  by (induction es) auto

definition completes ::
  "chance \<Rightarrow> bootstrapAdmission \<Rightarrow> auth_peer \<Rightarrow> backend \<Rightarrow> backend \<Rightarrow> effect list \<Rightarrow> bool" where
  "completes ch j p b t xs \<longleftrightarrow> bk_phase b = Running \<and> fresh_peer ch p \<and> row_of ch (j_src j) p t \<and>
     calls xs = reported j True \<and> sends xs = replied j"

definition refuses :: "bootstrapAdmission \<Rightarrow> backend \<Rightarrow> backend \<Rightarrow> effect list \<Rightarrow> bool" where
  "refuses j b t xs \<longleftrightarrow> row t (j_src j) = row b (j_src j) \<and> calls xs = reported j False \<and> sends xs = []"

lemma completes_log:
  assumes "silent b u" "t = send_reply j (finish j True u)" "bk_phase b = Running" "fresh_peer ch p" "row_of ch (j_src j) p u"
  shows "\<exists>xs. bk_log t = bk_log b @ xs \<and> completes ch j p b t xs"
proof -
  obtain ys where ys: "bk_log u = bk_log b @ ys" "calls ys = []" "sends ys = []" using assms(1) by (auto simp: silent_def)
  define xs where "xs = ys @ map Call (reported j True) @ map (\<lambda>(k, r, pkt). SendDERPPacketTo k r pkt) (replied j)"
  have "bk_log t = bk_log b @ xs"
    using ys(1) by (simp add: xs_def assms(2) send_reply_log finish_log replied_def)
  moreover have "row_of ch (j_src j) p t"
    using assms(5) row_of_same [OF finish_same(1)] row_of_same [OF send_reply_same(1)] by (simp add: assms(2))
  moreover have "calls xs = reported j True" "sends xs = replied j" using ys(2,3) by (simp_all add: xs_def replied_def)
  ultimately show ?thesis using assms(3,4) by (auto simp: completes_def)
qed

lemma refuses_log:
  assumes "silent b u" "t = finish j False u" "row u (j_src j) = row b (j_src j)"
  shows "\<exists>xs. bk_log t = bk_log b @ xs \<and> refuses j b t xs"
proof -
  obtain ys where ys: "bk_log u = bk_log b @ ys" "calls ys = []" "sends ys = []" using assms(1) by (auto simp: silent_def)
  have "bk_log t = bk_log b @ (ys @ map Call (reported j False))" using ys(1) by (simp add: assms(2) finish_log)
  moreover have "refuses j b t (ys @ map Call (reported j False))" using ys(2,3) assms(2,3) by (simp add: refuses_def)
  ultimately show ?thesis by blast
qed

lemma completion_outcome:
  assumes inv: "peers_inv b" and peer: "j_peer j = Some p"
  shows "\<exists>xs. bk_log (completeBootstrapLocked ch j b) = bk_log b @ xs \<and>
    (completes ch j p b (completeBootstrapLocked ch j b) xs \<or> refuses j b (completeBootstrapLocked ch j b) xs)"
proof -
  let ?t = "completeBootstrapLocked ch j b" and ?e = "evict_oldest ch p b"
  have rejects: ?thesis if "silent b u" "?t = finish j False u" "row u (j_src j) = row b (j_src j)" for u
    using refuses_log [OF that] by blast
  have ends: ?thesis if "silent b u" "?t = send_reply j (finish j True u)" "bk_phase b = Running" "fresh_peer ch p" "row_of ch (j_src j) p u" for u
    using completes_log [OF that] by blast
  have new: "row b (j_src j) = (None, None, None, None, None)" "row ?e (j_src j) = (None, None, None, None, None)"
    if "bk_phase b = Running" "map_of (peerPSKs b) (j_src j) = None"
  proof -
    show "row b (j_src j) = (None, None, None, None, None)" using row_none [OF inv _ that(2)] that(1) by simp
    then show "row ?e (j_src j) = (None, None, None, None, None)" using row_evict [OF inv, of ch p "j_src j"] by auto
  qed
  show ?thesis
  proof (cases rule: completeBootstrap_cases [of b ch j])
    case closing
    then show ?thesis using rejects [OF silent_refl] by blast
  next
    case answer
    with peer show ?thesis by simp
  next
    case (refused p')
    then show ?thesis using rejects [OF silent_refl] by blast
  next
    case (renewed p')
    with peer have p: "p' = p" by simp
    show ?thesis
      using ends [OF operations_silent(2) renewed(6) renewed(1) renewed(3) [unfolded p]] row_of_renew [OF inv renewed(5)]
      by (simp add: p)
  next
    case (full p')
    with peer have p: "p' = p" by simp
    show ?thesis using rejects [OF evict_oldest_silent full(6)] new [OF full(1,4)] by (simp add: p)
  next
    case (unrouted p')
    with peer have p: "p' = p" by simp
    let ?u = "fst (removeAuthenticatedPeer (j_src j) (with_route (j_src j) False (install_peer ch (j_src j) p ?e)))"
    have "silent b ?u" by (meson evict_oldest_silent helpers_silent(2) operations_silent(1,4) silent_trans)
    then show ?thesis using refuses_log [of b ?u ?t j] unrouted(8) new [OF unrouted(1,4)] by (auto simp: p row_remove)
  next
    case (added p')
    with peer have p: "p' = p" by simp
    let ?u = "with_route (j_src j) True (install_peer ch (j_src j) p ?e)"
    have "silent b ?u" by (meson evict_oldest_silent helpers_silent(2) operations_silent(4) silent_trans)
    moreover have "row_of ch (j_src j) p ?u"
      using row_of_install [of ?e "j_src j" ch p] row_of_same [OF with_route_same(1)] new(2) [OF added(1,4)] by (simp add: row_def)
    ultimately show ?thesis using ends added(1,3,7) by (simp add: p)
  qed
qed

lemma completion_displaces:
  assumes inv: "peers_inv b" and n: "map_of (clients b) k = Some n"
  shows "map_of (clients (completeBootstrapLocked ch j b)) k = Some n \<and>
      map_of (peerOwners (completeBootstrapLocked ch j b)) k = map_of (peerOwners b) k \<or>
    map_of (clients (completeBootstrapLocked ch j b)) k = None \<and> (\<exists>p. j_peer j = Some p \<and> j_src j \<noteq> k \<and> evictable b p k)"
proof -
  let ?t = "completeBootstrapLocked ch j b"
  have kept: ?thesis if "row ?t k = row b k" using that n by (simp add: row_def)
  have src: "j_src j \<noteq> k" if "bk_phase b = Running" "map_of (peerPSKs b) (j_src j) = None"
    using row_absent(4) [OF inv _ that(2)] that(1) n by auto
  have evict: "row (evict_oldest ch p b) k = row b k \<or> evictable b p k \<and> row (evict_oldest ch p b) k = (None, None, None, None, None)" for p
    by (rule row_evict [OF inv])
  have absent: "map_of (clients (evict_oldest ch p b)) (j_src j) = None" if "bk_phase b = Running" "map_of (peerPSKs b) (j_src j) = None" for p
    using row_absent(4) [OF evict_oldest_inv [OF inv], of ch p] evict_oldest_absent [OF that(2), of ch p] that(1) evict_oldest_worker(1) [of b ch p]
    by (simp add: same_worker_def)
  have ends: ?thesis if "j_peer j = Some p" "j_src j \<noteq> k" "row ?t k = row (evict_oldest ch p b) k" for p
    using evict [of p] kept that by (auto simp: row_def)
  show ?thesis
  proof (cases rule: completeBootstrap_cases [of b ch j])
    case (renewed p)
    then have "clients ?t = clients b" "peerOwners ?t = peerOwners b"
      using finish_same(1) send_reply_same(1) by (simp_all add: same_tables_def)
    then show ?thesis using n by simp
  next
    case (full p)
    then show ?thesis using src ends [of p] by simp
  next
    case (unrouted p)
    then show ?thesis using src [OF unrouted(1,4)] ends [of p] row_install [OF absent [OF unrouted(1,4)]] by (simp add: row_remove)
  next
    case (added p)
    then show ?thesis using src [OF added(1,4)] ends [of p] row_install [OF absent [OF added(1,4)]] by simp
  qed (use kept in simp_all)
qed

text \<open>A node before and after the worker acted on a job: kept, or displaced by a session of its own identity.\<close>

definition displaced :: "bytes \<Rightarrow> node \<Rightarrow> bootstrapAdmission \<Rightarrow> backend \<Rightarrow> backend \<Rightarrow> bool" where
  "displaced k n j b t \<longleftrightarrow>
     map_of (clients t) k = Some n \<and> map_of (peerOwners t) k = map_of (peerOwners b) k \<or>
     map_of (clients t) k = None \<and> (\<exists>p. j_peer j = Some p \<and> j_src j \<noteq> k \<and> evictable b p k)"

lemma displaced_same: "same_tables b t \<Longrightarrow> map_of (clients b) k = Some n \<Longrightarrow> displaced k n j b t"
  by (simp add: displaced_def same_tables_def)

lemma commit_displaces:
  assumes "peers_inv b" "map_of (clients b) k = Some n"
  shows "displaced k n j b (worker_commit ch j b)"
proof (cases rule: worker_commit_cases [of j ch b])
  case complete
  then show ?thesis using completion_displaces [OF assms, of ch j] by (simp add: displaced_def)
qed (use finish_same(1) [of b j False] assms(2) in \<open>simp_all add: displaced_def same_tables_def\<close>)

lemma decided_displaces:
  assumes "peers_inv b" "map_of (clients b) k = Some n"
  shows "displaced k n j b (worker_decided ch j allowed b)"
proof -
  let ?c = "b\<lparr>admissions := AList.delete (j_src j) (admissions b)\<rparr>"
  have c: "same_tables b ?c" by (simp add: same_tables_def)
  then have "peers_inv ?c" using assms(1) peers_inv_same by blast
  then have "displaced k n j b (completeBootstrapLocked ch j ?c)"
    using completion_displaces [of ?c k n ch j] assms(2) by (simp add: displaced_def evictable_def sessions_def)
  moreover have "displaced k n j b (finish j False ?c)"
    using same_tables_trans [OF c finish_same(1)] assms(2) by (rule displaced_same)
  ultimately show ?thesis by (simp add: worker_decided_def Let_def)
qed

section \<open>An example\<close>

text \<open>A packet that finds the worker idle: it is queued, taken and answered, and then acted on.\<close>

lemma deliver:
  assumes idle: "bk_phase b = Running" "bk_hand b = Idle" "bk_inbox b = []" "bk_queued b = []" "admissions b = []"
    and pkt: "4 \<le> length pkt" "take 4 pkt = bytes_of ''QCAT''" "ValidFrame pkt" and clock: "now \<noteq> 0"
    and boot: "Bootstrap C fl lt oc src pkt now later (bk_server b) = (s, reply, peer)"
    and j_def: "j = \<lparr>j_src = src, j_region = r, j_reply = reply, j_peer = peer, j_cancelled = False\<rparr>"
  shows "runs (backend_step C fl lt) b [Arrive r src pkt, Take, Answer oc now later]
    (emit (Call (EvHandle oc src pkt now)) (b\<lparr>bk_server := s, bk_hand := Answered j\<rparr>))"
proof -
  let ?in = "\<lparr>in_region = r, in_src = src, in_packet = pkt\<rparr>"
  define b1 where "b1 = b\<lparr>bk_queued := [(src, 1)], bk_inbox := [?in]\<rparr>"
  define b2 where "b2 = b1\<lparr>bk_inbox := [], bk_hand := Taken ?in\<rparr>"
  define b3 where "b3 = emit (Call (EvHandle oc src pkt now)) (b\<lparr>bk_server := s, bk_hand := Answered j\<rparr>)"
  have "fst (onDERPRecv r src pkt b) = b1"
    using idle pkt by (simp add: onDERPRecv_def b1_def queued_of_def maxQueued_def inboxSize_def)
  then have s1: "backend_step C fl lt b (Arrive r src pkt) b1" using arrive [of b C fl lt r src pkt] idle(1) by simp
  have "worker_take b1 = b2" by (simp add: worker_take_def b1_def b2_def)
  then have s2: "backend_step C fl lt b1 Take b2" using take [of b1] idle by (simp add: b1_def working_def)
  have "b2\<lparr>bk_queued := []\<rparr> = b\<lparr>bk_hand := Taken ?in\<rparr>" using idle by (simp add: b2_def b1_def)
  then have "worker_answer C fl lt oc now later ?in b2 = b3"
    using boot idle by (simp add: worker_answer_def unqueue_def queued_of_def b2_def b1_def b3_def j_def Let_def)
  then have s3: "backend_step C fl lt b2 (Answer oc now later) b3"
    using answer [of b2 ?in now C fl lt oc later] clock idle by (simp add: b2_def b1_def working_def)
  show ?thesis unfolding b3_def [symmetric] using s1 s2 s3 by (auto simp: runs_Cons_iff)
qed

lemma runs_commit:
  assumes "runs (backend_step C fl lt) b es c" "bk_hand c = Answered j" "bk_phase c = Running" "ch_now ch \<noteq> 0"
  shows "runs (backend_step C fl lt) b (es @ [Commit ch]) (worker_commit ch j c)"
  unfolding runs_snoc using assms commit [of c j ch C fl lt] by (auto simp: working_def)

lemma runs_join: "runs step a es b \<Longrightarrow> runs step b fs c \<Longrightarrow> runs step a (es @ fs) c"
  by (auto simp: runs_append)

lemma Bootstrap_None:
  "Handle C fl oc src pkt now s = (t, out, None) \<Longrightarrow> Bootstrap C fl lt oc src pkt now later s = (t, out, None)"
  by (simp add: Bootstrap_def)

lemma frame_magic: "4 \<le> length (frame k q)" "take 4 (frame k q) = bytes_of ''QCAT''"
  by (simp_all add: frame_parts)

text \<open>An idle worker: nothing in hand, queued or waiting.\<close>

definition idle :: "backend \<Rightarrow> bool" where
  "idle b \<longleftrightarrow> bk_phase b = Running \<and> bk_hand b = Idle \<and> bk_inbox b = [] \<and> bk_queued b = [] \<and> admissions b = []"

text \<open>The packets of an honest client and what the worker does with them.\<close>

definition connect_events ::
  "crypto \<Rightarrow> server \<Rightarrow> draws \<Rightarrow> draws \<Rightarrow> peer \<Rightarrow> nat \<Rightarrow> gotime \<Rightarrow> gotime \<Rightarrow> gotime \<Rightarrow> chance \<Rightarrow> backend_event list" where
  "connect_events C s oc oc' P r now now' later ch =
     [Arrive r (WG (h_local P)) (the_packet C P (Public s)), Take, Answer oc now now, Commit ch,
      Arrive r (WG (h_local P)) (the_finish C s oc P), Take, Answer oc' now' later, Commit ch]"

lemma Handle_session_frame: "Handle C fl oc source packet now s = (t, out, Some ses) \<Longrightarrow> ValidFrame packet"
  by (rule Handle_session) (auto simp: Parse_def split: if_splits)

lemma honest_answered:
  assumes idle: "idle b"
    and C: "crypto_ok C" "honest_client C P" "honest_server C (bk_server b) oc P" "server_inv (bk_server b)"
      "room C fl now (bk_server b) P" "\<bar>unix (h_time P) - unix now\<bar> \<le> 120"
    and clock: "now \<le> now'" "now' < now + 30 * second" "now \<noteq> 0" "now' \<noteq> 0" "ch_now ch \<noteq> 0"
  obtains c j p u where "runs (backend_step C fl lt) b (butlast (connect_events C (bk_server b) oc oc' P r now now' later ch)) c"
    "bk_hand c = Answered j" "j_peer j = Some p" "j_src j = WG (h_local P)" "j_region j = r" "j_reply j = the_ack C (bk_server b) oc P"
    "ap_psk p = fst (the_secrets C (bk_server b) oc P)" "ap_pinned p = Lookup (Authorized (bk_server b)) (ap_identity p)"
    "ap_pinned p \<noteq> []" "ap_expires p = later + lt" "same_tables b c" "allowClient c = allowClient b" "tunnelPeer c = tunnelPeer b"
    "sends (bk_log c) = sends (bk_log b) @ [(WG (h_local P), r, the_response C (bk_server b) oc P)]"
    "Handle C fl oc' (WG (h_local P)) (the_finish C (bk_server b) oc P) now' (after_hello C fl (bk_server b) oc P now) =
      (bk_server c, the_ack C (bk_server b) oc P, Some u)"
proof -
  let ?s = "bk_server b" and ?src = "WG (h_local P)" and ?step = "backend_step C fl lt"
  let ?hello = "the_packet C P (Public ?s)" and ?fin = "the_finish C ?s oc P" and ?t = "after_hello C fl ?s oc P now"
  note h1 = Handle_hello_honest [OF C(1-3,5,6)]
  obtain u where h2: "Handle C fl oc' ?src ?fin now' ?t =
      (u, the_ack C ?s oc P, Some \<lparr>Peer = ID C (h_pub P), Keys = h_local P, PSK = fst (the_secrets C ?s oc P),
           Installed = Some (the_hash C ?s oc P, next_ref ?s)\<rparr>)" (is "_ = (u, _, Some ?ses)")
    using Handle_finish_honest [OF C(1-3,5) clock(2,1) C(4)] by blast
  have valid: "ValidFrame ?hello" "ValidFrame ?fin"
    using Parse_the_packet [OF C(1,2), of "Public ?s"] Handle_session_frame [OF h2] by (auto simp: Parse_def split: if_splits)
  have magic: "4 \<le> length ?hello" "take 4 ?hello = bytes_of ''QCAT''" "4 \<le> length ?fin" "take 4 ?fin = bytes_of ''QCAT''"
    by (simp_all add: the_packet_def the_finish_def frame_magic)
  have b: "bk_phase b = Running" "bk_hand b = Idle" "bk_inbox b = []" "bk_queued b = []" "admissions b = []"
    using idle by (simp_all add: idle_def)
  define j1 where "j1 = \<lparr>j_src = ?src, j_region = r, j_reply = the_response C ?s oc P, j_peer = None, j_cancelled = False\<rparr>"
  define c1 where "c1 = emit (Call (EvHandle oc ?src ?hello now)) (b\<lparr>bk_server := ?t, bk_hand := Answered j1\<rparr>)"
  define b1 where "b1 = worker_commit ch j1 c1"
  have "runs ?step b [Arrive r ?src ?hello, Take, Answer oc now now] c1"
    unfolding c1_def by (rule deliver [OF b magic(1,2) valid(1) clock(3) Bootstrap_None [OF h1] j1_def])
  then have r1: "runs ?step b ([Arrive r ?src ?hello, Take, Answer oc now now] @ [Commit ch]) b1"
    unfolding b1_def by (rule runs_commit) (simp_all add: c1_def b clock)
  have b1: "b1 = (send_reply j1 c1)\<lparr>bk_hand := Idle\<rparr>"
    by (simp add: b1_def worker_commit_def j1_def completeBootstrapLocked_def) (simp add: c1_def b)
  have "same_tables c1 (send_reply j1 c1)" "same_worker c1 (send_reply j1 c1)" by simp_all
  then have f1: "bk_phase b1 = Running" "bk_hand b1 = Idle" "bk_inbox b1 = []" "bk_queued b1 = []" "admissions b1 = []"
    "bk_server b1 = ?t" "same_tables b b1" "allowClient b1 = allowClient b" "tunnelPeer b1 = tunnelPeer b"
    by (simp_all add: b1 c1_def same_worker_def same_tables_def b)
  have "0 < length (the_response C ?s oc P)" by (simp add: the_response_def server_hello_def frame_def)
  then have log: "sends (bk_log b1) = sends (bk_log b) @ [(?src, r, the_response C ?s oc P)]"
    by (simp add: b1 send_reply_log j1_def c1_def)
  obtain p where boot: "Bootstrap C fl lt oc' ?src ?fin now' later ?t = (u, the_ack C ?s oc P, Some p)"
    using h2 by (simp add: Bootstrap_def)
  then obtain ses' where p: "Handle C fl oc' ?src ?fin now' ?t = (u, the_ack C ?s oc P, Some ses')" "PSK ses' = ap_psk p"
    "ap_pinned p = Lookup (Authorized ?t) (ap_identity p)" "ap_pinned p \<noteq> []" "ap_expires p = later + lt"
    by (rule Bootstrap_peer)
  have psk: "ap_psk p = fst (the_secrets C ?s oc P)" using p(1,2) h2 by auto
  have auth: "Authorized ?t = Authorized ?s" by (simp add: after_hello_def hello_stored_def charged_def)
  define j2 where "j2 = \<lparr>j_src = ?src, j_region = r, j_reply = the_ack C ?s oc P, j_peer = Some p, j_cancelled = False\<rparr>"
  define c where "c = emit (Call (EvHandle oc' ?src ?fin now')) (b1\<lparr>bk_server := u, bk_hand := Answered j2\<rparr>)"
  have "runs ?step b1 [Arrive r ?src ?fin, Take, Answer oc' now' later] c"
    unfolding c_def
    by (rule deliver [OF f1(1-5) magic(3,4) valid(2) clock(4) boot [folded f1(6)] j2_def])
  from runs_join [OF r1 this] have run: "runs ?step b (butlast (connect_events C ?s oc oc' P r now now' later ch)) c"
    by (simp add: connect_events_def)
  show thesis
    by (rule that [OF run, of j2 p ?ses])
      (use f1 log psk p(3-5) auth h2 in \<open>simp_all add: c_def j2_def same_tables_def\<close>)
qed

text \<open>With room in the tables and a route, the client is installed with the key of the handshake.\<close>

lemma honest_installed:
  assumes inv: "peers_inv b" and idle: "idle b"
    and C: "crypto_ok C" "honest_client C P" "honest_server C (bk_server b) oc P" "server_inv (bk_server b)"
      "room C fl now (bk_server b) P" "\<bar>unix (h_time P) - unix now\<bar> \<le> 120"
    and clock: "now \<le> now'" "now' < now + 30 * second" "now \<noteq> 0" "now' \<noteq> 0" "ch_now ch \<noteq> 0"
    and new: "map_of (peerPSKs b) (WG (h_local P)) = None" "length (peerPSKs b) < maxPeers" "\<not> allowClient b" "tunnelPeer b \<longrightarrow> ch_route ch"
    and fresh: "fst (the_secrets C (bk_server b) oc P) \<noteq> zeros 32" "fst (ch_new ch) < later + lt" "snd (ch_new ch) = Authorized (bk_server b)"
  obtains t p where "runs (backend_step C fl lt) b (connect_events C (bk_server b) oc oc' P r now now' later ch) t"
    "row_of ch (WG (h_local P)) p t" "ap_psk p = fst (the_secrets C (bk_server b) oc P)" "valid_at (ch_new ch) p" "bk_phase t = Running"
    "tunnelPeer t = tunnelPeer b"
    "sends (bk_log t) = sends (bk_log b) @ [(WG (h_local P), r, the_response C (bk_server b) oc P), (WG (h_local P), r, the_ack C (bk_server b) oc P)]"
proof -
  let ?src = "WG (h_local P)" and ?ack = "the_ack C (bk_server b) oc P"
  let ?es = "connect_events C (bk_server b) oc oc' P r now now' later ch"
  obtain c j p where c: "runs (backend_step C fl lt) b (butlast ?es) c"
    "bk_hand c = Answered j" "j_peer j = Some p" "j_src j = ?src" "j_region j = r" "j_reply j = ?ack"
    "ap_psk p = fst (the_secrets C (bk_server b) oc P)" "ap_pinned p = Lookup (Authorized (bk_server b)) (ap_identity p)"
    "ap_pinned p \<noteq> []" "ap_expires p = later + lt" "same_tables b c" "allowClient c = allowClient b" "tunnelPeer c = tunnelPeer b"
    "sends (bk_log c) = sends (bk_log b) @ [(?src, r, the_response C (bk_server b) oc P)]"
    by (rule honest_answered [OF idle C clock])
  let ?t = "completeBootstrapLocked ch j c" and ?w = "worker_commit ch j c"
  have cinv: "peers_inv c" using inv peers_inv_same [OF c(11)] by simp
  have cf: "bk_phase c = Running" "peerPSKs c = peerPSKs b" using c(11) idle by (simp_all add: same_tables_def idle_def)
  have valid: "valid_at (ch_new ch) p" using c(8-10) fresh by (simp add: valid_at_def Valid_def)
  then have fp: "fresh_peer ch p" using c(7) fresh(1) by (simp add: fresh_peer_def)
  have "butlast ?es @ [Commit ch] = ?es" by (simp add: connect_events_def)
  then have run: "runs (backend_step C fl lt) b ?es ?w" using runs_commit [OF c(1,2) cf(1) clock(5)] by simp
  have len: "length (peerPSKs (evict_oldest ch p c)) < maxPeers"
  proof -
    have "length (peerPSKs (evict_oldest ch p c)) \<le> length (peerPSKs c)"
      by (auto simp: evict_oldest_def remove_route_def removeAuthenticatedPeer_def forget_def split: prod.split)
    then show ?thesis using new(2) cf(2) by simp
  qed
  have "\<exists>xs. bk_log ?t = bk_log c @ xs \<and> completes ch j p c ?t xs"
  proof (cases rule: completeBootstrap_cases [of c ch j])
    case (added p')
    have "p' = p" using added(2) c(3) by simp
    moreover have "map_of (clients (evict_oldest ch p c)) ?src = None"
      using row_absent(4) [OF evict_oldest_inv [OF cinv], of ch p] evict_oldest_absent [of c ?src ch p] evict_oldest_worker(1) [of c ch p] new(1) cf
      by (simp add: same_worker_def)
    ultimately have "row_of ch ?src p (with_route ?src True (install_peer ch ?src p (evict_oldest ch p c)))"
      using row_of_same [OF with_route_same(1)] row_of_install by simp
    moreover have "silent c (with_route ?src True (install_peer ch ?src p (evict_oldest ch p c)))"
      by (meson evict_oldest_silent helpers_silent(2) operations_silent(4) silent_trans)
    ultimately show ?thesis using completes_log [of c _ ?t j ch p] added(7) cf(1) fp \<open>p' = p\<close> c(4) by simp
  qed (use c(3,4,13) cf new fp len in auto)
  then obtain xs where xs: "bk_log ?t = bk_log c @ xs" "row_of ch ?src p ?t" "sends xs = replied j"
    by (auto simp: completes_def c(4))
  have eq: "?w = ?t\<lparr>bk_hand := Idle\<rparr>" using c(3,12) new(3) by (simp add: worker_commit_def)
  have "same_worker c ?t" by (rule completeBootstrap_worker)
  then have "bk_phase ?w = Running" "tunnelPeer ?w = tunnelPeer b" using cf c(13) by (simp_all add: eq same_worker_def)
  moreover have "0 < length ?ack" by (simp add: the_ack_def)
  then have "sends (bk_log ?w) = sends (bk_log b) @ [(?src, r, the_response C (bk_server b) oc P), (?src, r, ?ack)]"
    using xs(1,3) c by (simp add: eq replied_def)
  moreover have "row_of ch ?src p ?w" using xs(2) by (simp add: eq row_of_def)
  ultimately show thesis using run c(7) valid by (intro that)
qed

definition demo_reading :: reading where
  "demo_reading = (4 * second, Some [(ID demo (h_pub demo_peer), h_pub demo_peer)])"

definition demo_chance :: chance where
  "demo_chance = \<lparr>ch_new = demo_reading, ch_old = demo_reading, ch_now = 4 * second, ch_route = True, ch_unroute = True\<rparr>"

definition demo_events :: "backend_event list" where
  "demo_events = connect_events demo demo_start demo_draws demo_draws demo_peer 1 second (2 * second) (3 * second) demo_chance"

lemma demo_backend:
  "bk_server (new_backend demo_start tunnel hook) = demo_start" "idle (new_backend demo_start tunnel hook)"
  "map_of (peerPSKs (new_backend demo_start tunnel hook)) k = None" "length (peerPSKs (new_backend demo_start tunnel hook)) < maxPeers"
  "allowClient (new_backend demo_start tunnel hook) = hook" "tunnelPeer (new_backend demo_start tunnel hook) = tunnel"
  "\<bar>unix (h_time demo_peer) - unix second\<bar> \<le> 120" "second \<le> 2 * second" "2 * second < second + 30 * second"
  "second \<noteq> 0" "2 * second \<noteq> 0" "ch_now demo_chance \<noteq> 0" "ch_route demo_chance"
  "fst (ch_new demo_chance) < 3 * second + SessionLifetime" "snd (ch_new demo_chance) = Authorized demo_start"
  by (simp_all add: new_backend_def idle_def maxPeers_def demo_peer_def second_def demo_chance_def demo_reading_def SessionLifetime_def
      demo_start_def new_server_def)

lemma demo_answered:
  obtains c j u where "runs (backend_step demo fixed_point SessionLifetime) (new_backend demo_start tunnel False) (butlast demo_events) c"
    "bk_hand c = Answered j" "allowClient c = False"
    "Handle demo fixed_point demo_draws demo_source demo_finish (2 * second) demo_server =
      (bk_server c, the_ack demo demo_start demo_draws demo_peer, Some u)"
proof -
  let ?b = "new_backend demo_start tunnel False"
  have b: "honest_server demo (bk_server ?b) demo_draws demo_peer" "server_inv (bk_server ?b)"
    "room demo fixed_point second (bk_server ?b) demo_peer"
    by (simp_all add: demo_backend demo_facts)
  obtain c j p u where c: "runs (backend_step demo fixed_point SessionLifetime) ?b
      (butlast (connect_events demo (bk_server ?b) demo_draws demo_draws demo_peer 1 second (2 * second) (3 * second) demo_chance)) c"
    "bk_hand c = Answered j" "allowClient c = allowClient ?b" "Handle demo fixed_point demo_draws demo_source
      (the_finish demo (bk_server ?b) demo_draws demo_peer) (2 * second) (after_hello demo fixed_point (bk_server ?b) demo_draws demo_peer second) =
      (bk_server c, the_ack demo (bk_server ?b) demo_draws demo_peer, Some u)"
    by (rule honest_answered [OF demo_backend(2) demo_facts(1,2) b demo_backend(7-12)])
  then show thesis using that by (simp add: demo_backend demo_events_def)
qed

lemma demo_connected:
  obtains b p where "runs (backend_step demo fixed_point SessionLifetime) (new_backend demo_start tunnel False) demo_events b"
    "row_of demo_chance demo_source p b" "valid_at demo_reading p" "bk_phase b = Running" "tunnelPeer b = tunnel"
proof -
  let ?b = "new_backend demo_start tunnel False"
  have b: "honest_server demo (bk_server ?b) demo_draws demo_peer" "server_inv (bk_server ?b)"
    "room demo fixed_point second (bk_server ?b) demo_peer" "\<not> allowClient ?b" "tunnelPeer ?b \<longrightarrow> ch_route demo_chance"
    "fst (the_secrets demo (bk_server ?b) demo_draws demo_peer) \<noteq> zeros 32" "snd (ch_new demo_chance) = Authorized (bk_server ?b)"
    by (simp_all add: demo_backend demo_facts demo_psk)
  obtain t p where "runs (backend_step demo fixed_point SessionLifetime) ?b
      (connect_events demo (bk_server ?b) demo_draws demo_draws demo_peer 1 second (2 * second) (3 * second) demo_chance) t"
    "row_of demo_chance demo_source p t" "valid_at (ch_new demo_chance) p" "bk_phase t = Running" "tunnelPeer t = tunnelPeer ?b"
    by (rule honest_installed [OF peers_inv_new demo_backend(2) demo_facts(1,2) b(1-3) demo_backend(7-12) demo_backend(3,4) b(4-6)
        demo_backend(14) b(7)])
  then show thesis by (intro that) (simp_all add: demo_backend demo_events_def, simp add: demo_chance_def)
qed

section \<open>Ticks\<close>

lemma swept_iff:
  assumes "mdistinct (peerValid b)"
  shows "k \<in> set (swept view b) \<longleftrightarrow> (\<exists>p. map_of (peerValid b) k = Some p \<and> \<not> valid_at (view k) p)"
  using assms by (force simp: swept_def)

lemma tick_row: "row (worker_tick now view ok b) k = (if k \<in> set (swept view b) then (None, None, None, None, None) else row b k)"
proof -
  have "row (fold (disconnect_route ok) ks c) k = row c k" for ks c using disconnect_routes_same(1) by (rule row_same)
  then show ?thesis by (simp add: worker_tick_eq row_def forget_def map_of_forget)
qed

lemma disconnect_syncs: "k \<in> set ks \<Longrightarrow> \<exists>xs. bk_log (fold (disconnect_route ok) ks b) = bk_log b @ xs \<and> SyncDevicePeer k \<in> set xs"
proof (induction ks arbitrary: b)
  case (Cons x ks)
  obtain ys where ys: "bk_log (fold (disconnect_route ok) ks (disconnect_route ok x b)) = bk_log (disconnect_route ok x b) @ ys"
    using disconnect_routes_silent [of "disconnect_route ok x b" ok ks] by (auto simp: silent_def)
  have zs: "bk_log (disconnect_route ok x b) = bk_log b @ SyncDevicePeer x # (if tunnelPeer b then [TunnelRemove x (ok x)] else [])"
    by (simp add: disconnect_route_def remove_route_def)
  show ?case
  proof (cases "k = x")
    case True
    then show ?thesis using ys zs by simp
  next
    case False
    with Cons obtain xs where "bk_log (fold (disconnect_route ok) ks (disconnect_route ok x b)) = bk_log (disconnect_route ok x b) @ xs"
      "SyncDevicePeer k \<in> set xs" by fastforce
    with zs show ?thesis by simp
  qed
qed simp

lemma disconnect_asked:
  "k \<in> set ks \<Longrightarrow> tunnelPeer b \<Longrightarrow> last_asked (bk_log (fold (disconnect_route ok) ks b)) k = Some (False, ok k)"
proof (induction ks rule: rev_induct)
  case (snoc x ks)
  let ?c = "fold (disconnect_route ok) ks b"
  have "tunnelPeer ?c" using tunnelPeer_same [OF disconnect_routes_same(2)] snoc.prems(2) by simp
  then have "last_asked (bk_log (disconnect_route ok x ?c)) k = (if x = k then Some (False, ok x) else last_asked (bk_log ?c) k)"
    by (simp add: disconnect_route_def remove_route_def last_asked_def)
  with snoc show ?case by auto
qed simp

lemma tick_syncs:
  assumes "k \<in> set (swept view b)"
  shows "\<exists>xs. bk_log (worker_tick now view ok b) = bk_log b @ xs \<and> SyncDevicePeer k \<in> set xs"
proof -
  define c where "c = emit (Call (EvExpire now)) (b\<lparr>bk_server := Expire now (bk_server b)\<rparr>)"
  define d where "d = refresh_network_map (forget (\<lambda>k. k \<in> set (swept view b)) c)"
  have t: "worker_tick now view ok b = fold (disconnect_route ok) (swept view b) d"
    using assms by (auto simp: worker_tick_eq c_def d_def)
  have "silent c d" unfolding d_def by (rule silent_trans [OF helpers_silent(3,5)])
  then obtain ys where "bk_log d = bk_log b @ ys" by (auto simp: silent_def c_def)
  then show ?thesis using disconnect_syncs [OF assms, of ok d] by (auto simp: t)
qed

text \<open>No node of the network map belongs to a source that has no session.\<close>

lemma map_shows_no_other:
  assumes "peers_inv b" "peers_inv t" "map_of (clients b) k = Some n" "map_of (clients t) k = None" "nm_Peers t = Some ns"
    "\<And>k'. map_of (clients t) k' \<noteq> None \<Longrightarrow> map_of (clients t) k' = map_of (clients b) k'"
  shows "n \<notin> set ns"
proof
  assume "n \<in> set ns"
  moreover have "mset ns = mset (map snd (clients t))" using assms(2,5) by (simp add: peers_inv_def map_ok_def)
  then have "set ns = snd ` set (clients t)" by (metis set_mset_mset list.set_map)
  ultimately obtain k' where k': "(k', n) \<in> set (clients t)" by auto
  then have "map_of (clients t) k' = Some n" using assms(2) by (simp add: peers_inv_def keys_distinct_def)
  then have "map_of (clients b) k' = Some n" using assms(6) [of k'] by simp
  then have mem: "(k', n) \<in> set (clients b)" "(k, n) \<in> set (clients b)" using assms(3) by (auto dest: map_of_SomeD)
  have "inj_on (n_ID \<circ> snd) (set (clients b))" using assms(1) by (simp add: peers_inv_def node_ids_def distinct_map)
  from inj_onD [OF this, of "(k', n)" "(k, n)"] mem have "k' = k" by simp
  with \<open>map_of (clients t) k' = Some n\<close> assms(4) show False by simp
qed

text \<open>What a tick does to a session.\<close>

lemma tick_session:
  assumes inv: "backend_inv b" and p: "map_of (peerValid b) k = Some p"
  shows "valid_at (view k) p \<Longrightarrow> row (worker_tick now view ok b) k = row b k"
    "\<not> valid_at (view k) p \<Longrightarrow> row (worker_tick now view ok b) k = (None, None, None, None, None)"
    "\<not> valid_at (view k) p \<Longrightarrow> tunnelPeer b \<Longrightarrow> last_asked (bk_log (worker_tick now view ok b)) k = Some (False, ok k)"
    "\<not> valid_at (view k) p \<Longrightarrow> map_of (clients b) k = Some n \<Longrightarrow> nm_Peers (worker_tick now view ok b) = Some ns \<Longrightarrow> n \<notin> set ns"
    "\<not> valid_at (view k) p \<Longrightarrow> \<exists>xs. bk_log (worker_tick now view ok b) = bk_log b @ xs \<and> SyncDevicePeer k \<in> set xs"
proof -
  let ?t = "worker_tick now view ok b"
  have peers: "peers_inv b" "peers_inv ?t" using inv worker_tick_inv [OF inv] by (simp_all add: backend_inv_def)
  have swept: "k \<in> set (swept view b) \<longleftrightarrow> \<not> valid_at (view k) p"
    using swept_iff [of b k view] p peers(1) by (simp add: peers_inv_def keys_distinct_def)
  have "tunnelPeer (refresh_network_map (forget gone (emit x (b\<lparr>bk_server := y\<rparr>)))) = tunnelPeer b" for gone x y
    by (simp add: forget_def refresh_network_map_def set_peers_def split: option.split)
  then show "last_asked (bk_log ?t) k = Some (False, ok k)" if "\<not> valid_at (view k) p" "tunnelPeer b"
    using that swept by (auto simp: worker_tick_eq intro!: disconnect_asked)
  have client: "map_of (clients ?t) x = (if x \<in> set (swept view b) then None else map_of (clients b) x)" for x
    using tick_row [of now view ok b x] by (simp add: row_def split: if_splits)
  show "n \<notin> set ns" if "\<not> valid_at (view k) p" "map_of (clients b) k = Some n" "nm_Peers ?t = Some ns"
    by (rule map_shows_no_other [OF peers that(2) _ that(3)]) (use that(1) swept client in \<open>simp_all split: if_splits\<close>)
qed (use p inv swept_iff [of b k view] tick_row [of now view ok b k] tick_syncs [of k view b now ok] in
    \<open>simp_all add: backend_inv_def peers_inv_def keys_distinct_def\<close>)

lemma no_row_no_config: "row b k = (None, None, None, None, None) \<Longrightarrow> peerConfig r k b = None"
  by (simp add: row_def peerConfig_def)

section \<open>Properties\<close>

text \<open>
  C13. The tables of the running server are of one piece. For every source either all five tables hold a
  session or none does; its owner is the identity that its validity is bound to, its key is that session's
  key and not the zero key, its node has the discovery key and the address of the source. Node IDs are at
  least 2 and not shared, the network map lists exactly the nodes, there are at most 4096 sessions and at
  most 16 of one identity.
\<close>

theorem tables_of_one_piece:
  assumes "runs (backend_step C fl lt) (new_backend (new_server spub ks auth) tunnel hook) es b" "bk_phase b \<noteq> Closed"
  shows "(\<forall>k. row b k = (None, None, None, None, None) \<or>
      (\<exists>p t n. row b k = (Some (ap_psk p), Some p, Some (ap_identity p), Some t, Some n) \<and> ap_psk p \<noteq> zeros 32 \<and>
         n_Disco n = ap_disco p \<and> n_Addresses n = [pfxOf (tcAddrForKey k)] \<and> n_AllowedIPs n = [pfxOf (tcAddrForKey k)] \<and> 2 \<le> n_ID n)) \<and>
    distinct (map n_ID (map snd (clients b))) \<and>
    (\<forall>ns. nm_Peers b = Some ns \<longrightarrow> mset ns = mset (map snd (clients b))) \<and> (nm_Peers b = None \<longrightarrow> clients b = []) \<and>
    length (peerPSKs b) \<le> 4096 \<and> (\<forall>i. length (filter (\<lambda>(k, x). x = i) (peerOwners b)) \<le> 16)"
proof -
  have inv: "peers_inv b" using run_serving_inv [OF assms(1)] by (simp add: serving_inv_def backend_inv_def)
  have "row b k = (None, None, None, None, None) \<or>
      (\<exists>p t n. row b k = (Some (ap_psk p), Some p, Some (ap_identity p), Some t, Some n) \<and> ap_psk p \<noteq> zeros 32 \<and>
         n_Disco n = ap_disco p \<and> n_Addresses n = [pfxOf (tcAddrForKey k)] \<and> n_AllowedIPs n = [pfxOf (tcAddrForKey k)] \<and> 2 \<le> n_ID n)" for k
  proof (cases "map_of (peerValid b) k")
    case None
    moreover have "row_ok b k" using inv by (simp add: peers_inv_def)
    ultimately show ?thesis by (simp add: row_ok_def row_def)
  next
    case (Some p)
    with inv show ?thesis by (rule row_present) (use Some assms(2) in \<open>simp add: row_def node_of_def\<close>)
  qed
  moreover have "map_ok b" using inv by (simp add: peers_inv_def)
  then have "\<forall>ns. nm_Peers b = Some ns \<longrightarrow> mset ns = mset (map snd (clients b))" "nm_Peers b = None \<longrightarrow> clients b = []"
    by (auto simp: map_ok_def split: option.splits)
  ultimately show ?thesis
    using inv by (simp add: peers_inv_def node_ids_def sessions_def maxPeers_def maxSessionsPerIdentity_def)
qed

theorem tables_of_one_piece_witness:
  "\<exists>b. runs (backend_step demo fixed_point SessionLifetime) (new_backend demo_start False False) demo_events b \<and>
     length (peerPSKs b) \<le> 4096 \<and> length (peerPSKs b) \<noteq> 0"
proof -
  obtain b p where b: "runs (backend_step demo fixed_point SessionLifetime) (new_backend demo_start False False) demo_events b"
    "row_of demo_chance demo_source p b" "bk_phase b = Running"
    by (rule demo_connected [of False])
  have "length (peerPSKs b) \<le> 4096"
    using tables_of_one_piece [OF b(1) [unfolded demo_start_def]] b(3) by simp
  then show ?thesis using b by (auto simp: row_of_def)
qed

text \<open>
  C4. Only authenticated peers get into the network. If the WireGuard device is given a configuration for
  a source, then it allows that source its own address only, and its pre-shared key is the one of a session
  that the handshake server handed out for a finish from this source, after a hello from this source that an
  authorized peer had signed, with these keys; and that peer is still authorized.
\<close>

theorem config_is_authentic:
  assumes run: "runs (backend_step C fl lt) (new_backend (new_server spub ks auth) tunnel hook) es b"
    and cfg: "peerConfig r k b = Some (ips, psk)" and phase: "bk_phase b \<noteq> Closed"
  shows "ips = [pfxOf (tcAddrForKey k)] \<and> psk \<noteq> zeros 32 \<and>
    (\<exists>es1 oc1 hello t0 es2 oc2 fin t1 es3 s t out ses.
       calls (bk_log b) = es1 @ EvHandle oc1 k hello t0 # es2 @ EvHandle oc2 k fin t1 # es3 \<and>
       signed_hello C spub (auth_after auth es1) k hello t0 (Peer ses) (Keys ses) \<and> t1 < t0 + 30 * second \<and>
       runs (server_step C fl) (new_server spub ks auth) (es1 @ EvHandle oc1 k hello t0 # es2) s \<and>
       Handle C fl oc2 k fin t1 s = (t, out, Some ses) \<and> PSK ses = psk \<and> Lookup (snd r) (Peer ses) \<noteq> [])"
proof -
  have inv: "peers_inv b" "backed_inv C fl (new_server spub ks auth) b"
    using run_serving_inv [OF run] by (simp_all add: serving_inv_def backend_inv_def)
  obtain n p where n: "map_of (clients b) k = Some n" "map_of (peerValid b) k = Some p" "valid_at r p" "ips = n_AllowedIPs n"
    "psk = (case map_of (peerPSKs b) k of None \<Rightarrow> zeros 32 | Some psk \<Rightarrow> psk)"
    using cfg by (auto simp: peerConfig_def split: option.splits if_splits)
  obtain n' where n': "map_of (clients b) k = Some n'" "node_of (nextClientID b) k p n'" "ap_psk p \<noteq> zeros 32"
    "map_of (peerPSKs b) k = (if bk_phase b = Closed then None else Some (ap_psk p))"
    using inv(1) n(2) by (rule row_present)
  then have row: "node_of (nextClientID b) k p n" "psk = ap_psk p" "psk \<noteq> zeros 32" using n(1,5) phase by simp_all
  obtain e1 oc2 fin t1 es3 s t out ses where s: "calls (bk_log b) = e1 @ EvHandle oc2 k fin t1 # es3"
    "runs (server_step C fl) (new_server spub ks auth) e1 s" "Handle C fl oc2 k fin t1 s = (t, out, Some ses)" "made_from ses p"
  proof -
    have "backed C fl (new_server spub ks auth) (calls (bk_log b)) k p" using inv(2) n(2) by (simp add: backed_inv_def)
    then show thesis unfolding backed_def by (elim exE conjE) (rule that)
  qed
  obtain q where q: "origin C spub auth e1 q" "p_source q = k" "t1 < p_expires q" "Peer (p_session q) = Peer ses"
    "Keys (p_session q) = Keys ses"
    using s(2,3) by (rule session_origin)
  obtain es1 oc1 hello t0 es2 where h: "e1 = es1 @ EvHandle oc1 k hello t0 # es2"
    "signed_hello C spub (auth_after auth es1) k hello t0 (Peer ses) (Keys ses)" "p_expires q = t0 + 30 * second"
    using q unfolding origin_def by auto
  have live: "Lookup (snd r) (Peer ses) \<noteq> []" "PSK ses = psk"
    using n(3) s(4) row(2) by (auto simp: valid_at_def Valid_def made_from_def)
  have split: "calls (bk_log b) = es1 @ EvHandle oc1 k hello t0 # es2 @ EvHandle oc2 k fin t1 # es3"
    using s(1) by (simp add: h(1))
  have "ips = [pfxOf (tcAddrForKey k)]" using row(1) n(4) by (simp add: node_of_def)
  moreover have "t1 < t0 + 30 * second" using q(3) h(3) by simp
  ultimately show ?thesis using row(3) split h(2) s(2) [unfolded h(1)] s(3) live by (intro conjI exI)
qed

lemma demo_config:
  assumes "row_of demo_chance demo_source p b" "valid_at demo_reading p"
  shows "\<exists>ips. peerConfig demo_reading demo_source b = Some (ips, ap_psk p)"
  using assms by (auto simp: peerConfig_def row_of_def)

theorem config_is_authentic_witness:
  "\<exists>b ips psk. runs (backend_step demo fixed_point SessionLifetime) (new_backend demo_start False False) demo_events b \<and>
     peerConfig demo_reading demo_source b = Some (ips, psk) \<and> ips = [pfxOf (tcAddrForKey demo_source)]"
proof -
  obtain b p where b: "runs (backend_step demo fixed_point SessionLifetime) (new_backend demo_start False False) demo_events b"
    "row_of demo_chance demo_source p b" "valid_at demo_reading p" "bk_phase b = Running"
    by (rule demo_connected [of False])
  obtain ips where cfg: "peerConfig demo_reading demo_source b = Some (ips, ap_psk p)" using demo_config [OF b(2,3)] by blast
  have "ips = [pfxOf (tcAddrForKey demo_source)]"
    using config_is_authentic [OF b(1) [unfolded demo_start_def] cfg] b(4) by simp
  with b(1) cfg show ?thesis by blast
qed

text \<open>
  C7. An installation is done or undone, never half done. When the worker completes a job with a peer,
  either the source has exactly the peer's session in all tables, the handshake is told that it is
  installed and only then the acknowledgement is sent; or, whatever the reason (the server is closing, the
  peer is no longer valid, the tables are full, another identity holds the source, the route cannot be
  added), the tables hold for the source what they held before, the handshake is told that the
  installation failed, and nothing is sent.
\<close>

theorem installation_all_or_nothing:
  assumes "runs (backend_step C fl lt) (new_backend (new_server spub ks auth) tunnel hook) es b" "j_peer j = Some p"
    "ap_installed p = Some (h, ref)"
  shows "\<exists>xs. bk_log (completeBootstrapLocked ch j b) = bk_log b @ xs \<and>
    (bk_phase b = Running \<and> ap_psk p \<noteq> zeros 32 \<and> valid_at (ch_new ch) p \<and>
       (\<exists>n. row (completeBootstrapLocked ch j b) (j_src j) =
          (Some (ap_psk p), Some p, Some (ap_identity p), Some (ch_now ch), Some n) \<and> n_Disco n = ap_disco p) \<and>
       calls xs = [EvInstalled h ref True] \<and> sends xs = (if j_reply j = [] then [] else [(j_src j, j_region j, j_reply j)]) \<or>
     row (completeBootstrapLocked ch j b) (j_src j) = row b (j_src j) \<and> calls xs = [EvInstalled h ref False] \<and> sends xs = [])"
proof -
  have inv: "peers_inv b" using run_serving_inv [OF assms(1)] by (simp add: serving_inv_def backend_inv_def)
  have "reported j ok = [EvInstalled h ref ok]" for ok using assms(2,3) by (simp add: reported_def job_handle_def)
  with completion_outcome [OF inv assms(2), of ch] show ?thesis
    by (auto simp: completes_def refuses_def fresh_peer_def replied_def row_of_def row_def node_of_def)
qed

definition demo_stale :: auth_peer where
  "demo_stale = \<lparr>ap_identity = [], ap_disco = [], ap_psk = [3], ap_installed = Some ([4], 0), ap_pinned = [], ap_expires = 0\<rparr>"

definition demo_job :: bootstrapAdmission where
  "demo_job = \<lparr>j_src = [1], j_region = 0, j_reply = [2], j_peer = Some demo_stale, j_cancelled = False\<rparr>"

theorem installation_all_or_nothing_witness:
  "\<exists>xs. bk_log (completeBootstrapLocked demo_chance demo_job (new_backend demo_start True False)) = xs \<and>
     calls xs = [EvInstalled [4] 0 False] \<and> sends xs = []"
proof -
  have run: "runs (backend_step demo fixed_point 0) (new_backend (new_server (replicate 2592 5) \<lparr>WG = replicate 32 6, Disco = replicate 32 7\<rparr>
     (Some [(ID demo (h_pub demo_peer), h_pub demo_peer)])) True False) [] (new_backend demo_start True False)"
    by (simp add: demo_start_def)
  have "\<not> valid_at (ch_new demo_chance) demo_stale" by (simp add: valid_at_def Valid_def demo_stale_def)
  moreover have "j_peer demo_job = Some demo_stale" "ap_installed demo_stale = Some ([4], 0)" by (simp_all add: demo_job_def demo_stale_def)
  ultimately show ?thesis using installation_all_or_nothing [OF run] by (fastforce simp: new_backend_def)
qed

text \<open>
  C27. A tick keeps the valid sessions and ends all others at once: whoever is expired, revoked or re-keyed
  loses key, node and network map entry, the WireGuard device is told to look again, no reading gives a
  configuration any more, and the tunnel device, if there is one, is asked to remove the route, whether or
  not it does; the sessions that are valid keep everything.
\<close>

theorem sweep_ends_invalid_sessions:
  assumes run: "runs (backend_step C fl lt) (new_backend (new_server spub ks auth) tunnel hook) es b"
    and p: "map_of (peerValid b) k = Some p"
  shows "if valid_at (view k) p then row (worker_tick now view ok b) k = row b k
    else row (worker_tick now view ok b) k = (None, None, None, None, None) \<and> (\<forall>r. peerConfig r k (worker_tick now view ok b) = None) \<and>
      (tunnelPeer b \<longrightarrow> last_asked (bk_log (worker_tick now view ok b)) k = Some (False, ok k)) \<and>
      (\<forall>n ns. map_of (clients b) k = Some n \<longrightarrow> nm_Peers (worker_tick now view ok b) = Some ns \<longrightarrow> n \<notin> set ns) \<and>
      (\<exists>xs. bk_log (worker_tick now view ok b) = bk_log b @ xs \<and> SyncDevicePeer k \<in> set xs)"
proof -
  have inv: "backend_inv b" using run_serving_inv [OF run] by (simp add: serving_inv_def)
  show ?thesis
    using tick_session [OF inv p, where view = view and now = now and ok = ok] no_row_no_config [of "worker_tick now view ok b" k]
    by (cases "valid_at (view k) p") auto
qed

theorem sweep_ends_invalid_sessions_witness:
  "\<exists>b. runs (backend_step demo fixed_point SessionLifetime) (new_backend demo_start True False) demo_events b \<and>
     peerConfig demo_reading demo_source b \<noteq> None \<and>
     peerConfig demo_reading demo_source (worker_tick 0 (\<lambda>_. (0, None)) (\<lambda>_. False) b) = None \<and>
     last_asked (bk_log (worker_tick 0 (\<lambda>_. (0, None)) (\<lambda>_. False) b)) demo_source = Some (False, False)"
proof -
  obtain b p where b: "runs (backend_step demo fixed_point SessionLifetime) (new_backend demo_start True False) demo_events b"
    "row_of demo_chance demo_source p b" "valid_at demo_reading p" "tunnelPeer b = True"
    by (rule demo_connected [of True])
  have "map_of (peerValid b) demo_source = Some p" using b(2) by (simp add: row_of_def)
  moreover have bad: "\<not> valid_at (0, None) p" by (auto simp: valid_at_def Valid_def Lookup_def)
  moreover note sweep_ends_invalid_sessions [OF b(1) [unfolded demo_start_def], of demo_source p "\<lambda>_. (0, None)" 0 "\<lambda>_. False"]
  ultimately have "(\<forall>r. peerConfig r demo_source (worker_tick 0 (\<lambda>_. (0, None)) (\<lambda>_. False) b) = None) \<and>
    last_asked (bk_log (worker_tick 0 (\<lambda>_. (0, None)) (\<lambda>_. False) b)) demo_source = Some (False, False)"
    using b(4) by (simp only: if_False simp_thms)
  then have t: "peerConfig demo_reading demo_source (worker_tick 0 (\<lambda>_. (0, None)) (\<lambda>_. False) b) = None"
    "last_asked (bk_log (worker_tick 0 (\<lambda>_. (0, None)) (\<lambda>_. False) b)) demo_source = Some (False, False)" by blast+
  have "peerConfig demo_reading demo_source b \<noteq> None" using demo_config [OF b(2,3)] by auto
  with b(1) t show ?thesis by (intro exI [of _ b] conjI)
qed

text \<open>
  C8. A session ends for a reason, and not because of another identity. Whatever a running server does
  next, a connected source stays connected with the same node (ID, address, discovery key) and the same
  owner, except that a tick found its session no longer valid, that it was disconnected by name, or that a
  new session of its own identity was installed from another source while the identity had 16 sessions, of
  which this one was installed first.
\<close>

theorem session_ends_for_a_reason:
  assumes run: "runs (backend_step C fl lt) (new_backend (new_server spub ks auth) tunnel hook) es b"
    and step: "backend_step C fl lt b e t" and n: "map_of (clients b) k = Some n"
  shows "map_of (clients t) k = Some n \<and> map_of (peerOwners t) k = map_of (peerOwners b) k \<or>
    map_of (clients t) k = None \<and>
    ((\<exists>now view ok p. e = Sweep now view ok \<and> map_of (peerValid b) k = Some p \<and> \<not> valid_at (view k) p) \<or> (\<exists>ok. e = Disconnect k ok) \<or>
     ((\<exists>ch. e = Commit ch) \<or> (\<exists>src allowed ch. e = Decided src allowed ch)) \<and>
       (\<exists>j p. j \<in> jobs b \<and> j_peer j = Some p \<and> j_src j \<noteq> k \<and> evictable b p k))"
proof -
  have inv: "peers_inv b" using run_serving_inv [OF run] by (simp add: serving_inv_def backend_inv_def)
  have same: ?thesis if "clients t = clients b" "peerOwners t = peerOwners b" using that n by simp
  from step show ?thesis
  proof (cases rule: backend_step.cases)
    case (arrive region src pkt)
    then show ?thesis using same onDERPRecv_frame(1) [of b region src pkt] by (simp add: same_tables_def)
  next
    case take
    then show ?thesis using same by (auto simp: worker_take_def split: list.splits)
  next
    case (answer p now oc later)
    have "clients (unqueue (in_src p) b) = clients b" "peerOwners (unqueue (in_src p) b) = peerOwners b" by (simp_all add: unqueue_def)
    then show ?thesis
      using same unfolding answer by (cases rule: worker_answer_cases [of p b C fl lt oc now later]) simp_all
  next
    case (commit j ch)
    then show ?thesis using commit_displaces [OF inv n, of j ch] by (auto simp: displaced_def jobs_def)
  next
    case (decided src j ch allowed)
    have "j \<in> jobs b" using decided map_of_SomeD by (force simp: jobs_def)
    then show ?thesis using decided_displaces [OF inv n, of j ch allowed] decided(1,2) by (auto simp: displaced_def)
  next
    case (sweep now view ok)
    have "k \<in> set (swept view b) \<longleftrightarrow> (\<exists>p. map_of (peerValid b) k = Some p \<and> \<not> valid_at (view k) p)"
      using inv by (intro swept_iff) (simp add: peers_inv_def keys_distinct_def)
    then show ?thesis using tick_row [of now view ok b k] n sweep by (auto simp: row_def split: if_splits)
  next
    case (disconnect x ok)
    have "row t k = (if k = x then (None, None, None, None, None) else row b k)"
      unfolding disconnect DisconnectClient_eq by (simp add: row_remove) (simp add: row_def split: option.split)
    then show ?thesis using n disconnect by (auto simp: row_def split: if_splits)
  next
    case stop
    then show ?thesis using same finish_all_same [of b "admissions b"] by (simp add: worker_stop_def same_tables_def)
  qed (use same in \<open>simp_all add: close_begin_def close_end_def\<close>)
qed

theorem session_ends_for_a_reason_witness:
  "\<exists>b n. runs (backend_step demo fixed_point SessionLifetime) (new_backend demo_start False False) demo_events b \<and>
     map_of (clients b) demo_source = Some n \<and> map_of (clients (close_begin b)) demo_source = Some n"
proof -
  obtain b p where b: "runs (backend_step demo fixed_point SessionLifetime) (new_backend demo_start False False) demo_events b"
    "row_of demo_chance demo_source p b" "bk_phase b = Running"
    by (rule demo_connected [of False])
  then obtain n where n: "map_of (clients b) demo_source = Some n" by (auto simp: row_of_def)
  have "backend_step demo fixed_point SessionLifetime b Shut (close_begin b)" using b(3) by (rule shut)
  from session_ends_for_a_reason [OF b(1) [unfolded demo_start_def] this n] have "map_of (clients (close_begin b)) demo_source = Some n" by simp
  with b(1) n show ?thesis by blast
qed

text \<open>
  C12. No installation is left hanging. In every state of the server, a transcript of the handshake that is
  being installed belongs to a job that the worker has in hand or that waits for its hook, and whose report
  will settle it. So a server without a hook has none between two packets, and a server whose worker has
  stopped has none at all; no source is ever locked out by an installation that nobody completes.
\<close>

theorem no_installation_left_hanging:
  assumes run: "runs (backend_step C fl lt) (new_backend (new_server spub ks auth) tunnel hook) es b" and fl: "ieee fl"
    and q: "(h, q) \<in> set (pendings (bk_server b))" "p_installing q" "\<not> p_accepted q"
  shows "\<exists>j \<in> jobs b. \<exists>p. j_peer j = Some p \<and> ap_installed p = Some (h, p_ref q) \<and>
    ((\<exists>h' s'. bk_server (finish j True b) = s' \<and> (h, h') \<in> set (pendings s') \<and> p_ref h' = p_ref q \<and> p_accepted h') \<and>
     (\<forall>x. (h, x) \<in> set (pendings (bk_server (finish j False b))) \<longrightarrow> p_ref x \<noteq> p_ref q)) \<and>
    (bk_phase b = Running \<or> bk_phase b = Closing) \<and> (allowClient b \<or> bk_hand b = Answered j)"
proof -
  have inv: "jobs_inv b" "reports (bk_server b) (handles b)"
    using run_serving_inv [OF run] fl by (simp_all add: serving_inv_def backend_inv_def reports_inv_def)
  have fresh: "p_ref q \<notin> set (once_done (bk_server b))" and "(h, p_ref q) \<in> handles b"
    using inv(2) q by (auto simp: reports_def outstanding_def)
  then obtain j where j: "j \<in> jobs b" "job_handle j = Some (h, p_ref q)" by (auto simp: handles_def)
  then obtain p where p: "j_peer j = Some p" "ap_installed p = Some (h, p_ref q)" by (auto simp: job_handle_def split: option.splits)
  have d: "mdistinct (pendings (bk_server b))" using inv(2) by (simp add: reports_def inv_defs pend_ok_def)
  then have m: "map_of (pendings (bk_server b)) h = Some q" using q(1) by simp
  have s: "bk_server (finish j ok b) = installed (bk_server b) (h, p_ref q) ok" for ok by (simp add: finish_server j(2))
  let ?acc = "q\<lparr>p_session := (p_session q)\<lparr>PSK := zeros 32\<rparr>, p_accepted := True\<rparr>"
  have "(h, ?acc) \<in> set (pendings (bk_server (finish j True b)))"
    using m fresh d by (simp add: s installed_def Let_def set_update_distinct)
  moreover have "\<forall>x. (h, x) \<in> set (pendings (bk_server (finish j False b))) \<longrightarrow> p_ref x \<noteq> p_ref q"
    using m fresh by (simp add: s installed_def Let_def set_delete_eq)
  moreover have "working b \<and> (allowClient b \<or> bk_hand b = Answered j)"
    using j(1) inv(1) by (cases "admissions b = []") (auto simp: jobs_def jobs_inv_def split: hand.splits)
  ultimately show ?thesis using j(1) p by (intro bexI [of _ j] exI [of _ p] conjI) (auto simp: working_def intro!: exI [of _ ?acc])
qed

theorem no_installation_left_hanging_witness:
  "\<exists>c h q. runs (backend_step demo fixed_point SessionLifetime) (new_backend demo_start False False) (butlast demo_events) c \<and>
     (h, q) \<in> set (pendings (bk_server c)) \<and> p_installing q \<and> (\<exists>j. bk_hand c = Answered j)"
proof -
  obtain c u where c: "runs (backend_step demo fixed_point SessionLifetime) (new_backend demo_start False False) (butlast demo_events) c"
    "allowClient c = False" "Handle demo fixed_point demo_draws demo_source demo_finish (2 * second) demo_server =
      (bk_server c, the_ack demo demo_start demo_draws demo_peer, Some u)"
    by (rule demo_answered [of False])
  from c(3) obtain x p where p: "\<not> p_accepted p" "bk_server c = (Expire (2 * second) demo_server)\<lparr>pendings :=
      AList.update (take hashSize x) (p\<lparr>p_installing := True\<rparr>)
        (filter (\<lambda>e. \<not> rival p demo_source e) (pendings (Expire (2 * second) demo_server)))\<rparr>"
    by (rule Handle_session)
  let ?q = "p\<lparr>p_installing := True\<rparr>"
  have "(k, v) \<in> set (AList.update k v m)" for k v and m :: "(bytes, pending) gomap" by (induction m) auto
  then have q: "(take hashSize x, ?q) \<in> set (pendings (bk_server c))" by (simp add: p(2))
  from no_installation_left_hanging [OF c(1) [unfolded demo_start_def] ieee_fixed_point q] p(1) c(2)
  have "\<exists>j. bk_hand c = Answered j" by auto
  with c(1) q show ?thesis by (intro exI [of _ c] exI [of _ "take hashSize x"] exI [of _ ?q]) simp
qed

text \<open>
  C14. The server asks for routes in step with its peers. After every step the sources for which the last
  request to the tunnel device was to add a route, and was granted, are exactly the connected sources, and
  without a device there are no requests. So for a source that is not connected the last request, if there
  was one, was to remove its route, or it was an addition that failed: a route can outlive its peer only
  where the device reported a failure.
\<close>

theorem routes_follow_peers:
  assumes "runs (backend_step C fl lt) (new_backend (new_server spub ks auth) tunnel hook) es b"
  shows "last_asked (bk_log b) k = Some (True, True) \<longleftrightarrow> tunnelPeer b \<and> k \<in> mkeys (clients b)"
  using run_serving_inv [OF assms] by (simp add: serving_inv_def routes_inv_def flip: routes_iff)

theorem routes_follow_peers_witness:
  "\<exists>b. runs (backend_step demo fixed_point SessionLifetime) (new_backend demo_start True False) demo_events b \<and>
     last_asked (bk_log b) demo_source = Some (True, True)"
proof -
  obtain b p where b: "runs (backend_step demo fixed_point SessionLifetime) (new_backend demo_start True False) demo_events b"
    "row_of demo_chance demo_source p b" "tunnelPeer b = True"
    by (rule demo_connected [of True])
  have "map_of (clients b) demo_source \<noteq> None" using b(2) by (auto simp: row_of_def)
  then have "demo_source \<in> mkeys (clients b)" by (simp add: map_of_eq_None_iff)
  then have "last_asked (bk_log b) demo_source = Some (True, True)" using routes_follow_peers [OF b(1) [unfolded demo_start_def]] b(3) by simp
  with b(1) show ?thesis by blast
qed

text \<open>
  C28. A flood from one source does not shut out the others: the inbox has at most 64 packets, all of them
  well-formed frames, and at most four of any source; the counter of a source counts its packets in the
  inbox and the one just taken from it; and a frame is queued exactly if the inbox has room and its source
  has less than four packets waiting or just taken, whatever the other sources have.
\<close>

theorem inbox_is_fair:
  assumes "runs (backend_step C fl lt) (new_backend (new_server spub ks auth) tunnel hook) es b"
  shows "length (bk_inbox b) \<le> 64 \<and> (\<forall>src. length (filter (\<lambda>p. in_src p = src) (bk_inbox b)) \<le> 4) \<and>
    (\<forall>p \<in> set (bk_inbox b). Parse (in_packet p) \<noteq> None) \<and>
    (\<forall>src. queued_of b src = length (filter (\<lambda>p. in_src p = src) (bk_inbox b)) + in_hand src (bk_hand b)) \<and>
    (\<forall>region src pkt. bk_inbox (fst (onDERPRecv region src pkt b)) =
       (if Parse pkt \<noteq> None \<and> length (bk_inbox b) < 64 \<and>
           length (filter (\<lambda>p. in_src p = src) (bk_inbox b)) + in_hand src (bk_hand b) < 4
        then bk_inbox b @ [\<lparr>in_region = region, in_src = src, in_packet = pkt\<rparr>] else bk_inbox b))"
proof -
  have inv: "inbox_inv b" using run_serving_inv [OF assms] by (simp add: serving_inv_def backend_inv_def)
  have parse: "Parse pkt \<noteq> None \<longleftrightarrow> ValidFrame pkt" for pkt by (simp add: Parse_def)
  have magic: "4 \<le> length pkt \<and> take 4 pkt = bytes_of ''QCAT''" if "ValidFrame pkt" for pkt
    using that by (auto simp: ValidFrame_iff_frame frame_parts)
  have "length (filter (\<lambda>p. in_src p = src) (bk_inbox b)) \<le> 4" for src
    using inbox_counts [OF inv, of src] by (simp add: waiting_def maxQueued_def)
  moreover have "queued_of b src = length (filter (\<lambda>p. in_src p = src) (bk_inbox b)) + in_hand src (bk_hand b)" for src
    using inbox_counts(1) [OF inv] by (simp add: waiting_def)
  moreover have "bk_inbox (fst (onDERPRecv region src pkt b)) =
       (if Parse pkt \<noteq> None \<and> length (bk_inbox b) < 64 \<and>
           length (filter (\<lambda>p. in_src p = src) (bk_inbox b)) + in_hand src (bk_hand b) < 4
        then bk_inbox b @ [\<lparr>in_region = region, in_src = src, in_packet = pkt\<rparr>] else bk_inbox b)" for region src pkt
    using inbox_counts(1) [OF inv, of src] magic [of pkt] parse [of pkt]
    by (auto simp: onDERPRecv_def waiting_def maxQueued_def inboxSize_def)
  ultimately show ?thesis using inbox_shape(1,4) [OF inv] parse by (simp add: inboxSize_def)
qed

text \<open>Four packets of one source; a fifth is dropped, and a packet of another source is still taken in.\<close>

definition demo_flood :: "nat \<Rightarrow> backend" where
  "demo_flood n = ((\<lambda>b. fst (onDERPRecv 1 [1] demo_hello b)) ^^ n) (new_backend demo_start False False)"

lemma demo_flood_run:
  "runs (backend_step demo fixed_point SessionLifetime) (new_backend demo_start False False)
     (replicate n (Arrive 1 [1] demo_hello)) (demo_flood n) \<and> bk_phase (demo_flood n) = Running \<and> bk_hand (demo_flood n) = Idle"
proof (induction n)
  case 0
  then show ?case by (simp add: demo_flood_def new_backend_def)
next
  case (Suc n)
  let ?h = "demo_hello"
  have t: "demo_flood (Suc n) = fst (onDERPRecv 1 [1] ?h (demo_flood n))" by (simp add: demo_flood_def)
  have "backend_step demo fixed_point SessionLifetime (demo_flood n) (Arrive 1 [1] ?h) (demo_flood (Suc n))"
    unfolding t using Suc by (intro arrive) simp
  then have "runs (backend_step demo fixed_point SessionLifetime) (demo_flood n) [Arrive 1 [1] ?h] (demo_flood (Suc n))"
    by (simp add: runs_Cons_iff)
  moreover have "bk_phase (demo_flood (Suc n)) = Running" "bk_hand (demo_flood (Suc n)) = Idle"
    using Suc by (simp_all add: t onDERPRecv_def)
  ultimately show ?case using Suc runs_join by (fastforce simp: replicate_append_same [symmetric] simp del: replicate_append_same)
qed

theorem inbox_is_fair_witness:
  "runs (backend_step demo fixed_point SessionLifetime) (new_backend demo_start False False)
     (replicate 4 (Arrive 1 [1] demo_hello)) (demo_flood 4) \<and>
   length (bk_inbox (demo_flood 4)) = 4 \<and> queued_of (demo_flood 4) [1] = 4 \<and>
   bk_inbox (fst (onDERPRecv 1 [1] demo_hello (demo_flood 4))) = bk_inbox (demo_flood 4) \<and>
   length (bk_inbox (fst (onDERPRecv 1 [2] demo_hello (demo_flood 4)))) = 5"
proof -
  let ?h = "demo_hello"
  let ?p = "\<lparr>in_region = 1, in_src = [1], in_packet = ?h\<rparr>"
  note fair = inbox_is_fair [OF demo_flood_run [THEN conjunct1, unfolded demo_start_def], folded demo_start_def]
  have hello: "Parse ?h \<noteq> None" using Parse_the_packet [OF crypto_ok_demo honest_demo(1)] by simp
  have hand: "in_hand src (bk_hand (demo_flood n)) = 0" for src n using demo_flood_run by (simp add: in_hand_def)
  have inbox: "bk_inbox (demo_flood n) = replicate n ?p" if "n \<le> 4" for n
    using that
  proof (induction n)
    case 0
    then show ?case by (simp add: demo_flood_def new_backend_def)
  next
    case (Suc n)
    have "demo_flood (Suc n) = fst (onDERPRecv 1 [1] ?h (demo_flood n))" by (simp add: demo_flood_def)
    moreover have "bk_inbox (fst (onDERPRecv 1 [1] ?h (demo_flood n))) = bk_inbox (demo_flood n) @ [?p]"
      using conjunct2 [OF conjunct2 [OF conjunct2 [OF conjunct2 [OF fair [of n]]]]] hello Suc by (simp add: hand)
    ultimately show ?case using Suc by (simp add: replicate_append_same)
  qed
  note counts = conjunct1 [OF conjunct2 [OF conjunct2 [OF conjunct2 [OF fair [of 4]]]]]
  note queue = conjunct2 [OF conjunct2 [OF conjunct2 [OF conjunct2 [OF fair [of 4]]]]]
  have "queued_of (demo_flood 4) [1] = 4" using counts inbox [of 4] by (simp add: hand)
  moreover have "bk_inbox (fst (onDERPRecv 1 [1] ?h (demo_flood 4))) = bk_inbox (demo_flood 4)"
    using queue inbox [of 4] by (simp add: hand)
  moreover have "length (bk_inbox (fst (onDERPRecv 1 [2] ?h (demo_flood 4)))) = 5" using queue inbox [of 4] hello by (simp add: hand)
  ultimately show ?thesis using demo_flood_run [of 4] inbox [of 4] by simp
qed

end
