(* ===== verification/Client_Backend.thy ===== *)
theory Client_Backend
  imports Admission
begin

text \<open>
  The client's side of the authenticated transport (\<open>Renew\<close>, \<open>Probe\<close> and \<open>RefreshNetwork\<close> in
  \<open>src/third_party/tailcat/quantumcat.go\<close>, \<open>ensureStarted\<close>, \<open>Close\<close>, the packet hook and the client's part of
  \<open>peerConfig\<close> in \<open>tailcat.go\<close>): the pre-shared key of the server is set only by a bootstrap that returned
  one, and without it WireGuard has no peer.

  An operation that bootstraps takes what the bootstrap met (\<open>boot_args\<close>) and runs \<open>client_bootstrap\<close> of
  \<open>Transport\<close>. Whether the network stack comes up is an input.
\<close>

section \<open>State and operations\<close>

record boot_args =
  ba_ident :: identity
  ba_kem :: "kem option"
  ba_now :: gotime
  ba_random :: "bytes option"
  ba_sent :: bool
  ba_events :: "boot_event list"

record tclient_cfg =
  tf_pub :: bytes
  tf_local :: keys
  tf_remote :: keys
  tf_tun :: bool

datatype boot_failure = HandshakeFailed herror | LoopFailed boot_error

text \<open>What the bootstrap callback returned; nothing while its loop goes on.\<close>

definition bootstrap_result :: "crypto \<Rightarrow> tclient_cfg \<Rightarrow> boot_args \<Rightarrow> (boot_failure + bytes) option" where
  "bootstrap_result C cfg a =
     (case client_bootstrap C (ba_ident a) (ba_kem a) (tf_pub cfg) (tf_local cfg) (tf_remote cfg) (ba_now a) (ba_random a) (ba_sent a) (ba_events a) of
        (_, Inl e, _) \<Rightarrow> Some (Inl (HandshakeFailed e))
      | (_, Inr (Return (Inl e)), _) \<Rightarrow> Some (Inl (LoopFailed e))
      | (_, Inr (Return (Inr psk)), _) \<Rightarrow> Some (Inr psk)
      | (_, Inr (Continue _), _) \<Rightarrow> None)"

datatype client_effect = Rebind | ReSTUN | SyncServer | MarkForHandshake | PingTSMP

record tclient =
  tc_lb :: bool
  tc_presharedKey :: bytes
  tc_bootstrapInbox :: "bytes list"
  tc_started :: bool
  tc_closed :: bool
  tc_upDone :: bool
  tc_log :: "client_effect list"

definition new_tclient :: tclient where
  "new_tclient = \<lparr>tc_lb = False, tc_presharedKey = zeros 32, tc_bootstrapInbox = [], tc_started = False, tc_closed = False,
     tc_upDone = False, tc_log = []\<rparr>"

datatype client_error = ClientClosed | InitFailed | ExpandFailed | NoRegions | StartFailed | BootstrapFailed boot_failure | ZeroPSK | NotRunning

record bring_up =
  bu_init :: bool
  bu_expand :: bool
  bu_regions :: nat
  bu_start :: bool

definition drop_backend :: "tclient \<Rightarrow> tclient" where
  "drop_backend c = c\<lparr>tc_lb := False, tc_presharedKey := zeros 32\<rparr>"

definition initLocked :: "tclient \<Rightarrow> tclient" where
  "initLocked c = (if tc_lb c then c else c\<lparr>tc_lb := True, tc_presharedKey := zeros 32, tc_bootstrapInbox := []\<rparr>)"

text \<open>The result is none while the bootstrap goes on, otherwise the client and the error, if any.\<close>

definition ensureStarted :: "crypto \<Rightarrow> tclient_cfg \<Rightarrow> bring_up \<Rightarrow> boot_args \<Rightarrow> tclient \<Rightarrow> (tclient \<times> client_error option) option" where
  "ensureStarted C cfg u a c =
     (if tc_closed c then Some (c, Some ClientClosed)
      else if tc_started c then Some (c, None)
      else if \<not> tc_lb c \<and> \<not> bu_init u then Some (c, Some InitFailed)
      else
        (let c1 = initLocked c in
         if \<not> bu_expand u then Some (c1, Some ExpandFailed)
         else if bu_regions u = 0 then Some (c1, Some NoRegions)
         else if \<not> bu_start u then Some (c1, Some StartFailed)
         else
           (case bootstrap_result C cfg a of
              None \<Rightarrow> None
            | Some (Inl e) \<Rightarrow> Some (drop_backend c1, Some (BootstrapFailed e))
            | Some (Inr psk) \<Rightarrow>
              if psk = zeros 32 then Some (drop_backend c1, Some ZeroPSK)
              else Some (c1\<lparr>tc_presharedKey := psk, tc_upDone := True, tc_started := True\<rparr>, None))))"

definition client_Renew :: "crypto \<Rightarrow> tclient_cfg \<Rightarrow> boot_args \<Rightarrow> tclient \<Rightarrow> (tclient \<times> client_error option) option" where
  "client_Renew C cfg a c =
     (if tc_closed c \<or> \<not> tc_started c \<or> \<not> tc_lb c then Some (c, Some NotRunning)
      else
        (case bootstrap_result C cfg a of
           None \<Rightarrow> None
         | Some (Inl e) \<Rightarrow> Some (c, Some (BootstrapFailed e))
         | Some (Inr psk) \<Rightarrow>
           if psk = zeros 32 then Some (c, Some ZeroPSK)
           else Some (c\<lparr>tc_presharedKey := psk, tc_log := tc_log c @ [SyncServer, MarkForHandshake]\<rparr>, None)))"

definition RefreshNetwork :: "tclient \<Rightarrow> tclient \<times> client_error option" where
  "RefreshNetwork c =
     (if tc_closed c \<or> \<not> tc_lb c then (c, Some NotRunning)
      else (c\<lparr>tc_log := tc_log c @ [Rebind, ReSTUN]\<rparr>, None))"

definition tclient_Close :: "tclient \<Rightarrow> tclient" where
  "tclient_Close c = (if tc_lb c then c\<lparr>tc_closed := True, tc_presharedKey := zeros 32\<rparr> else c\<lparr>tc_closed := True\<rparr>)"

definition client_onDERPRecv :: "tclient_cfg \<Rightarrow> bytes \<Rightarrow> bytes \<Rightarrow> tclient \<Rightarrow> tclient \<times> bool" where
  "client_onDERPRecv cfg src pkt c =
     (if 4 \<le> length pkt \<and> take 4 pkt = bytes_of ''QCAT'' then
        (if src = WG (tf_remote cfg) \<and> length pkt \<le> 32768 \<and> length (tc_bootstrapInbox c) < 16
         then c\<lparr>tc_bootstrapInbox := tc_bootstrapInbox c @ [pkt]\<rparr> else c, True)
      else (c, IsMeowPacket pkt))"

text \<open>The probe: one turn of its loop is the check of the context and of the client, and what its \<open>select\<close> meets.\<close>

datatype probe_turn = ProbeCancelled | ProbeNotRunning | Pong bool | DoneWaiting | NextTick
datatype probe_result = Reachable | Unreachable | Cancelled | ProbeStopped

fun client_Probe :: "probe_turn list \<Rightarrow> probe_result option \<times> client_effect list" where
  "client_Probe [] = (None, [])"
| "client_Probe (ProbeCancelled # ts) = (Some Cancelled, [])"
| "client_Probe (ProbeNotRunning # ts) = (Some ProbeStopped, [])"
| "client_Probe (Pong ok # ts) = (Some (if ok then Reachable else Unreachable), [PingTSMP])"
| "client_Probe (DoneWaiting # ts) = (Some Cancelled, [PingTSMP])"
| "client_Probe (NextTick # ts) = (let (r, es) = client_Probe ts in (r, PingTSMP # es))"

definition allIPv6 :: prefix where
  "allIPv6 = (zeros 16, 0)"

definition client_peerConfig :: "tclient_cfg \<Rightarrow> bytes \<Rightarrow> tclient \<Rightarrow> (prefix list \<times> bytes) option" where
  "client_peerConfig cfg k c =
     (if tc_presharedKey c = zeros 32 then None
      else if k = WG (tf_remote cfg) then
        Some (if tf_tun cfg then [pfxOf (tcAddrForKey k)] else [pfxOf (tcAddrForKey k), allIPv6], tc_presharedKey c)
      else None)"

section \<open>Runs\<close>

text \<open>The packet hook runs while there is a backend; the bootstrap callback takes packets out of the inbox one at a time.\<close>

datatype client_event =
    StartUp bring_up boot_args
  | RenewKey boot_args
  | Refreshed
  | Packet bytes bytes
  | Consumed
  | Shutdown

inductive client_step :: "crypto \<Rightarrow> tclient_cfg \<Rightarrow> tclient \<Rightarrow> client_event \<Rightarrow> tclient \<Rightarrow> bool" for C cfg where
  "ensureStarted C cfg u a c = Some (d, e) \<Longrightarrow> client_step C cfg c (StartUp u a) d"
| "client_Renew C cfg a c = Some (d, e) \<Longrightarrow> client_step C cfg c (RenewKey a) d"
| "client_step C cfg c Refreshed (fst (RefreshNetwork c))"
| "tc_lb c \<Longrightarrow> client_step C cfg c (Packet src pkt) (fst (client_onDERPRecv cfg src pkt c))"
| "tc_bootstrapInbox c = p # ps \<Longrightarrow> client_step C cfg c Consumed (c\<lparr>tc_bootstrapInbox := ps\<rparr>)"
| "client_step C cfg c Shutdown (tclient_Close c)"

inductive_cases client_stepE: "client_step C cfg c e d"

definition bootstraps :: "client_event list \<Rightarrow> boot_args set" where
  "bootstraps evs = {a. RenewKey a \<in> set evs \<or> (\<exists>u. StartUp u a \<in> set evs)}"

definition client_inv :: "crypto \<Rightarrow> tclient_cfg \<Rightarrow> boot_args set \<Rightarrow> tclient \<Rightarrow> bool" where
  "client_inv C cfg A c \<longleftrightarrow>
     (tc_presharedKey c \<noteq> zeros 32 \<longrightarrow> tc_lb c \<and> tc_started c \<and> \<not> tc_closed c \<and>
        (\<exists>a \<in> A. bootstrap_result C cfg a = Some (Inr (tc_presharedKey c)))) \<and>
     length (tc_bootstrapInbox c) \<le> 16"

lemma client_inv_mono: "client_inv C cfg A c \<Longrightarrow> A \<subseteq> B \<Longrightarrow> client_inv C cfg B c"
  by (auto simp: client_inv_def)

lemma client_inv_step:
  assumes "client_step C cfg c e d" "client_inv C cfg A c"
  shows "client_inv C cfg (A \<union> bootstraps [e]) d"
  using assms
proof (cases rule: client_step.cases)
  case (1 u a x)
  then show ?thesis
    using assms(2)
    by (auto simp: ensureStarted_def initLocked_def drop_backend_def client_inv_def bootstraps_def Let_def
        split: if_splits option.splits sum.splits)
next
  case (2 a x)
  then show ?thesis
    using assms(2) by (auto simp: client_Renew_def client_inv_def bootstraps_def split: if_splits option.splits sum.splits)
qed (use assms(2) in \<open>auto simp: RefreshNetwork_def client_onDERPRecv_def tclient_Close_def client_inv_def\<close>)

lemma client_run_inv: "runs (client_step C cfg) new_tclient evs c \<Longrightarrow> client_inv C cfg (bootstraps evs) c"
proof (induction evs arbitrary: c rule: rev_induct)
  case Nil
  then show ?case by (simp add: client_inv_def new_tclient_def)
next
  case (snoc e evs)
  obtain b where b: "runs (client_step C cfg) new_tclient evs b" "client_step C cfg b e c"
    using snoc.prems by (auto simp: runs_snoc)
  have "bootstraps evs \<union> bootstraps [e] = bootstraps (evs @ [e])" by (auto simp: bootstraps_def)
  with client_inv_step [OF b(2) snoc.IH [OF b(1)]] show ?case by simp
qed

text \<open>A bootstrap that returned a key has met the server's answer and its acknowledgement.\<close>

lemma bootstrap_result_key:
  assumes "bootstrap_result C cfg a = Some (Inr psk)"
  obtains k c hello where "NewClient C (ba_ident a) (ba_kem a) (tf_pub cfg) (tf_local cfg) (tf_remote cfg) (ba_now a) (ba_random a) = (k, Inr (c, hello))"
    "acknowledged C c (ba_events a) psk"
proof -
  obtain k r where n: "NewClient C (ba_ident a) (ba_kem a) (tf_pub cfg) (tf_local cfg) (tf_remote cfg) (ba_now a) (ba_random a) = (k, r)"
    by fastforce
  from assms n obtain c hello where ch: "r = Inr (c, hello)"
    by (cases r) (auto simp: bootstrap_result_def client_bootstrap_def split: prod.splits)
  let ?st = "\<lparr>b_client = c, b_packet = hello, b_psk = zeros 32, b_finishing = False\<rparr>"
  obtain x out where run: "boot_run C ?st (ba_events a) = (x, out)" by fastforce
  have "x = Return (Inr psk)"
    using assms n ch run
    by (auto simp: bootstrap_result_def client_bootstrap_def boot_start_def split: if_splits prod.splits boot_result.splits sum.splits)
  with boot_run_hello [OF run] n ch that show thesis by blast
qed

section \<open>Properties\<close>

text \<open>
  C6. The client sends nothing into a tunnel before the server is authenticated. Whatever is started,
  renewed, received and closed, in any order and with any outcome: if WireGuard gets a configuration for a
  key, it is the server's key of the endpoint, the client is up and not closed, and the pre-shared key is not
  the zero key but the one of a bootstrap of this run, in which a packet completed the handshake that the client had
  started with exactly this server and a later packet was the server's acknowledgement of it.
\<close>

theorem client_config_is_authentic:
  assumes run: "runs (client_step C cfg) new_tclient evs c" and cfg: "client_peerConfig cfg k c = Some (ips, psk)"
  shows "k = WG (tf_remote cfg) \<and> psk \<noteq> zeros 32 \<and> tc_started c \<and> \<not> tc_closed c \<and>
    (\<exists>a \<in> bootstraps evs. \<exists>kem cl hello es1 reply ok es2 cl' fin ack ok'.
       NewClient C (ba_ident a) (ba_kem a) (tf_pub cfg) (tf_local cfg) (tf_remote cfg) (ba_now a) (ba_random a) = (kem, Inr (cl, hello)) \<and>
       ba_events a = es1 @ Recv reply ok # es2 \<and> Complete C cl reply = (cl', Inr (psk, fin)) \<and> Recv ack ok' \<in> set es2 \<and> Accepted cl' ack)"
proof -
  have c: "k = WG (tf_remote cfg)" "psk = tc_presharedKey c" "psk \<noteq> zeros 32"
    using cfg by (auto simp: client_peerConfig_def split: if_splits)
  with client_run_inv [OF run] obtain a where a: "a \<in> bootstraps evs" "bootstrap_result C cfg a = Some (Inr psk)"
    and up: "tc_started c" "\<not> tc_closed c"
    by (auto simp: client_inv_def)
  obtain kem cl hello where n: "NewClient C (ba_ident a) (ba_kem a) (tf_pub cfg) (tf_local cfg) (tf_remote cfg) (ba_now a) (ba_random a) =
      (kem, Inr (cl, hello))" "acknowledged C cl (ba_events a) psk"
    using a(2) by (rule bootstrap_result_key)
  then show ?thesis using a(1) c(1,3) up unfolding acknowledged_def got_ack_def by blast
qed

text \<open>
  A renewal that fails changes nothing: the old key stays in use, so the tunnel goes on. One that
  succeeds replaces the key, makes WireGuard look at the server again and asks for a new handshake, and
  does nothing else: the client remains started with the same backend and the same inbox.
\<close>

lemma renewal_keeps_tunnel:
  assumes "client_Renew C cfg a c = Some (d, e)"
  shows "(e \<noteq> None \<and> d = c) \<or>
    (e = None \<and> tc_started c \<and> tc_lb c \<and> \<not> tc_closed c \<and>
     (\<exists>psk. bootstrap_result C cfg a = Some (Inr psk) \<and> psk \<noteq> zeros 32 \<and>
        d = c\<lparr>tc_presharedKey := psk, tc_log := tc_log c @ [SyncServer, MarkForHandshake]\<rparr>))"
  using assms by (auto simp: client_Renew_def split: if_splits option.splits sum.splits)

end
