(* ===== verification/Connect.thy ===== *)
theory Connect
  imports Admission_Props Client_Backend
begin

text \<open>
  Both ends together: an honest client that starts against a running server gets into the network, and the
  two WireGuard devices are configured with the same pre-shared key.
\<close>

definition up_and_running :: bring_up where
  "up_and_running = \<lparr>bu_init = True, bu_expand = True, bu_regions = 1, bu_start = True\<rparr>"

text \<open>The bootstrap of an honest client that receives two packets.\<close>

definition honest_boot :: "peer \<Rightarrow> bytes \<Rightarrow> bytes \<Rightarrow> boot_args" where
  "honest_boot P response ack =
     \<lparr>ba_ident = h_ident P, ba_kem = Some (h_kem P), ba_now = h_time P, ba_random = Some (h_nonce P), ba_sent = True,
      ba_events = [Recv response True, Recv ack True]\<rparr>"

definition client_cfg :: "server \<Rightarrow> peer \<Rightarrow> bool \<Rightarrow> tclient_cfg" where
  "client_cfg s P tun = \<lparr>tf_pub = Public s, tf_local = h_local P, tf_remote = ServerKeys s, tf_tun = tun\<rparr>"

lemma honest_bootstrap:
  assumes "crypto_ok C" "honest_client C P" "honest_server C s oc P"
  shows "bootstrap_result C (client_cfg s P tun) (honest_boot P (the_response C s oc P) (the_ack C s oc P)) =
    Some (Inr (fst (the_secrets C s oc P)))"
proof -
  have pub: "length (Public s) = MLDSA87PublicKeySize" using assms(3) by (simp add: honest_server_def signer_def)
  have "0 < length (the_ack C s oc P)" by (simp add: the_ack_def)
  then show ?thesis
    by (simp add: bootstrap_result_def client_bootstrap_def client_cfg_def honest_boot_def NewClient_honest [OF assms(1,2) pub]
        boot_start_def boot_step_def Complete_honest [OF assms] Accepted_def)
qed

lemma honest_start:
  assumes "crypto_ok C" "honest_client C P" "honest_server C s oc P" "fst (the_secrets C s oc P) \<noteq> zeros 32"
  obtains d ips where "runs (client_step C (client_cfg s P tun)) new_tclient
      [StartUp up_and_running (honest_boot P (the_response C s oc P) (the_ack C s oc P))] d"
    "client_peerConfig (client_cfg s P tun) (WG (ServerKeys s)) d = Some (ips, fst (the_secrets C s oc P))"
proof -
  let ?a = "honest_boot P (the_response C s oc P) (the_ack C s oc P)" and ?cfg = "client_cfg s P tun" and ?psk = "fst (the_secrets C s oc P)"
  let ?d = "new_tclient\<lparr>tc_lb := True, tc_presharedKey := ?psk, tc_upDone := True, tc_started := True\<rparr>"
  have "ensureStarted C ?cfg up_and_running ?a new_tclient = Some (?d, None)"
    using assms(4) by (simp add: ensureStarted_def new_tclient_def up_and_running_def initLocked_def honest_bootstrap [OF assms(1-3)])
  then have "client_step C ?cfg new_tclient (StartUp up_and_running ?a) ?d" by (rule client_step.intros)
  then have "runs (client_step C ?cfg) new_tclient [StartUp up_and_running ?a] ?d" by (auto simp: runs_Cons_iff)
  moreover have "\<exists>ips. client_peerConfig ?cfg (WG (ServerKeys s)) ?d = Some (ips, ?psk)"
    using assms(4) by (simp add: client_peerConfig_def client_cfg_def)
  ultimately show thesis using that by blast
qed

text \<open>
  C3. An honest client gets into the network of a running server, whatever the server did before. The
  server is idle, has room for the client's hello and a free place in its tables, its authorized set did
  not change meanwhile, and the route can be added. Then the two packets of the client make the server
  install it: WireGuard on the server is configured for the client's key and address, the server has sent
  exactly its response and its acknowledgement, and a client that receives these two packets is up, with a
  configuration for the server's key; both configurations carry the same pre-shared key.
\<close>

theorem honest_client_connects:
  assumes run: "runs (backend_step C fl lt) (new_backend (new_server spub ks auth) tunnel False) es b" and b: "idle b" "ieee fl"
    and honest: "crypto_ok C" "honest_client C P" "honest_server C (bk_server b) oc P" "room C fl now (bk_server b) P"
      "\<bar>unix (h_time P) - unix now\<bar> \<le> 120"
    and clock: "now \<le> now'" "now' < now + 30 * second" "now \<noteq> 0" "now' \<noteq> 0" "ch_now ch \<noteq> 0"
    and new: "WG (h_local P) \<notin> mkeys (peerPSKs b)" "length (peerPSKs b) < 4096" "\<not> allowClient b" "tunnelPeer b \<longrightarrow> ch_route ch"
    and fresh: "fst (the_secrets C (bk_server b) oc P) \<noteq> zeros 32" "fst (ch_new ch) < later + lt" "snd (ch_new ch) = Authorized (bk_server b)"
  shows "\<exists>t d psk response ack ips.
    runs (backend_step C fl lt) b (connect_events C (bk_server b) oc oc' P r now now' later ch) t \<and>
    peerConfig (ch_new ch) (WG (h_local P)) t = Some ([pfxOf (tcAddrForKey (WG (h_local P)))], psk) \<and>
    sends (bk_log t) = sends (bk_log b) @ [(WG (h_local P), r, response), (WG (h_local P), r, ack)] \<and>
    runs (client_step C (client_cfg (bk_server b) P tun)) new_tclient [StartUp up_and_running (honest_boot P response ack)] d \<and>
    client_peerConfig (client_cfg (bk_server b) P tun) (WG (ServerKeys (bk_server b))) d = Some (ips, psk)"
proof -
  have inv: "peers_inv b" "server_inv (bk_server b)"
    using run_serving_inv [OF run] b(2) by (simp_all add: serving_inv_def backend_inv_def reports_inv_def reports_def)
  have absent: "map_of (peerPSKs b) (WG (h_local P)) = None" "length (peerPSKs b) < maxPeers"
    using new by (simp_all add: map_of_eq_None_iff maxPeers_def)
  obtain t p where t: "runs (backend_step C fl lt) b (connect_events C (bk_server b) oc oc' P r now now' later ch) t"
    "row_of ch (WG (h_local P)) p t" "ap_psk p = fst (the_secrets C (bk_server b) oc P)" "valid_at (ch_new ch) p"
    "sends (bk_log t) = sends (bk_log b) @ [(WG (h_local P), r, the_response C (bk_server b) oc P), (WG (h_local P), r, the_ack C (bk_server b) oc P)]"
    by (rule honest_installed [OF inv(1) b(1) honest(1-3) inv(2) honest(4,5) clock absent new(3,4) fresh])
  have "peerConfig (ch_new ch) (WG (h_local P)) t = Some ([pfxOf (tcAddrForKey (WG (h_local P)))], fst (the_secrets C (bk_server b) oc P))"
    using t(2-4) by (auto simp: row_of_def peerConfig_def node_of_def)
  moreover obtain d ips where "runs (client_step C (client_cfg (bk_server b) P tun)) new_tclient
      [StartUp up_and_running (honest_boot P (the_response C (bk_server b) oc P) (the_ack C (bk_server b) oc P))] d"
    "client_peerConfig (client_cfg (bk_server b) P tun) (WG (ServerKeys (bk_server b))) d = Some (ips, fst (the_secrets C (bk_server b) oc P))"
    by (rule honest_start [OF honest(1-3) fresh(1)])
  ultimately show ?thesis using t(1,5) by (intro exI conjI)
qed

theorem honest_client_connects_witness:
  "\<exists>t psk. runs (backend_step demo fixed_point SessionLifetime) (new_backend demo_start True False) demo_events t \<and>
     peerConfig demo_reading demo_source t = Some ([pfxOf (tcAddrForKey demo_source)], psk)"
proof -
  let ?b = "new_backend demo_start True False"
  have nil: "runs (backend_step demo fixed_point SessionLifetime) (new_backend (new_server (replicate 2592 5)
      \<lparr>WG = replicate 32 6, Disco = replicate 32 7\<rparr> (Some [(ID demo (h_pub demo_peer), h_pub demo_peer)])) True False) [] ?b"
    by (simp add: demo_start_def)
  have b: "honest_server demo (bk_server ?b) demo_draws demo_peer" "room demo fixed_point second (bk_server ?b) demo_peer"
    "demo_source \<notin> mkeys (peerPSKs ?b)" "length (peerPSKs ?b) < 4096" "\<not> allowClient ?b" "tunnelPeer ?b \<longrightarrow> ch_route demo_chance"
    "fst (the_secrets demo (bk_server ?b) demo_draws demo_peer) \<noteq> zeros 32" "snd (ch_new demo_chance) = Authorized (bk_server ?b)"
    by (simp_all add: demo_backend demo_facts demo_psk) (simp_all add: new_backend_def)
  from honest_client_connects [OF nil demo_backend(2) ieee_fixed_point demo_facts(1,2) b(1,2) demo_backend(7-12) b(3-7) demo_backend(14) b(8),
      of demo_draws 1 False]
  show ?thesis by (auto simp: demo_backend demo_events_def demo_chance_def)
qed

theorem client_config_is_authentic_witness:
  "\<exists>d ips psk. runs (client_step demo (client_cfg demo_start demo_peer False)) new_tclient
      [StartUp up_and_running (honest_boot demo_peer (the_response demo demo_start demo_draws demo_peer) (the_ack demo demo_start demo_draws demo_peer))] d \<and>
    client_peerConfig (client_cfg demo_start demo_peer False) (WG (ServerKeys demo_start)) d = Some (ips, psk) \<and> tc_started d"
proof -
  obtain d ips where d: "runs (client_step demo (client_cfg demo_start demo_peer False)) new_tclient
      [StartUp up_and_running (honest_boot demo_peer (the_response demo demo_start demo_draws demo_peer) (the_ack demo demo_start demo_draws demo_peer))] d"
    "client_peerConfig (client_cfg demo_start demo_peer False) (WG (ServerKeys demo_start)) d =
      Some (ips, fst (the_secrets demo demo_start demo_draws demo_peer))"
    by (rule honest_start [OF demo_facts(1-3) demo_psk])
  have "tc_started d" using client_config_is_authentic [OF d] by blast
  with d show ?thesis by blast
qed

end
