(* ===== verification/File_System.thy ===== *)
theory File_System
  imports Prelude
begin

text \<open>
  The file system as the configuration store sees it, and the trust checks on it
  (\<open>src/internal/trust/path.go\<close>).

  A path is the list of the components of a cleaned absolute path, the root is \<open>[]\<close>. A file system maps
  real paths to nodes; symbolic links carry the path they point to. The system calls resolve links as
  POSIX does: \<open>Lstat\<close> follows them in all but the last component, \<open>Stat\<close> and \<open>Open\<close> everywhere, and
  \<open>EvalSymlinks\<close> gives up after 255 links. A failing call says why. Every directory can be searched: the
  commands run as root or as the owner of the store.
\<close>

unbundle bit_operations_syntax

section \<open>Nodes and resolution\<close>

type_synonym path = "string list"

datatype node_kind = Regular | Directory | Symlink path | Socket | Special

record node =
  n_kind :: node_kind
  n_uid :: nat
  n_perm :: "9 word"
  n_sticky :: bool
  n_ino :: nat
  n_data :: bytes

type_synonym nodes = "(path, node) gomap"

record fs =
  fs_nodes :: nodes
  fs_euid :: nat
  fs_ino :: nat

function walk :: "nat \<Rightarrow> nodes \<Rightarrow> path \<Rightarrow> path \<Rightarrow> path option" where
  "walk fuel m base [] = Some base"
| "walk fuel m base (c # cs) =
     (case map_of m (base @ [c]) of None \<Rightarrow> None
      | Some n \<Rightarrow>
        (case n_kind n of
           Symlink target \<Rightarrow> (case fuel of 0 \<Rightarrow> None | Suc f \<Rightarrow> walk f m [] (target @ cs))
         | Directory \<Rightarrow> walk fuel m (base @ [c]) cs
         | _ \<Rightarrow> if cs = [] then Some (base @ [c]) else None))"
  by pat_completeness auto

termination
  by (relation "measures [\<lambda>(fuel, m, base, todo). fuel, \<lambda>(fuel, m, base, todo). length todo]") auto

definition EvalSymlinks :: "nodes \<Rightarrow> path \<Rightarrow> path option" where
  "EvalSymlinks m p = walk 255 m [] p"

definition Stat :: "nodes \<Rightarrow> path \<Rightarrow> node option" where
  "Stat m p = (case EvalSymlinks m p of None \<Rightarrow> None | Some q \<Rightarrow> map_of m q)"

definition real_entry :: "nodes \<Rightarrow> path \<Rightarrow> path option" where
  "real_entry m p =
     (if p = [] then Some []
      else case EvalSymlinks m (butlast p) of None \<Rightarrow> None | Some d \<Rightarrow> Some (d @ [last p]))"

definition Lstat :: "nodes \<Rightarrow> path \<Rightarrow> node option" where
  "Lstat m p = (case real_entry m p of None \<Rightarrow> None | Some q \<Rightarrow> map_of m q)"

text \<open>
  Why a resolution fails, and so a call on the path: a component does not exist, one that is not a
  directory has further components, or there are too many links.
\<close>

datatype fserror = NotExist | NotADirectory | TooManyLinks | Exists | NotDirectory | NotPlain | BadOwner | GroupWritable | AncestorWritable

function walk_error :: "nat \<Rightarrow> nodes \<Rightarrow> path \<Rightarrow> path \<Rightarrow> fserror" where
  "walk_error fuel m base [] = NotExist"
| "walk_error fuel m base (c # cs) =
     (case map_of m (base @ [c]) of None \<Rightarrow> NotExist
      | Some n \<Rightarrow>
        (case n_kind n of
           Symlink target \<Rightarrow> (case fuel of 0 \<Rightarrow> TooManyLinks | Suc f \<Rightarrow> walk_error f m [] (target @ cs))
         | Directory \<Rightarrow> walk_error fuel m (base @ [c]) cs
         | _ \<Rightarrow> NotADirectory))"
  by pat_completeness auto

termination
  by (relation "measures [\<lambda>(fuel, m, base, todo). fuel, \<lambda>(fuel, m, base, todo). length todo]") auto

definition stat_error :: "nodes \<Rightarrow> path \<Rightarrow> fserror" where
  "stat_error m p = walk_error 255 m [] p"

definition lstat_error :: "nodes \<Rightarrow> path \<Rightarrow> fserror" where
  "lstat_error m p =
     (case EvalSymlinks m (butlast p) of None \<Rightarrow> stat_error m (butlast p)
      | Some d \<Rightarrow>
        (case map_of m d of None \<Rightarrow> NotExist | Some n \<Rightarrow> if n_kind n = Directory then NotExist else NotADirectory))"

section \<open>System calls that change the tree\<close>

text \<open>Create an entry that must not exist, in an existing directory.\<close>

definition create :: "path \<Rightarrow> node_kind \<Rightarrow> 9 word \<Rightarrow> bytes \<Rightarrow> fs \<Rightarrow> fserror + fs" where
  "create p kind perm data f =
     (case real_entry (fs_nodes f) p of None \<Rightarrow> Inl (lstat_error (fs_nodes f) p)
      | Some q \<Rightarrow>
        if q \<in> mkeys (fs_nodes f) then Inl Exists
        else Inr (f\<lparr>fs_nodes := fs_nodes f @
                      [(q, \<lparr>n_kind = kind, n_uid = fs_euid f, n_perm = perm, n_sticky = False,
                            n_ino = fs_ino f, n_data = data\<rparr>)],
                    fs_ino := Suc (fs_ino f)\<rparr>))"

definition is_dir :: "node \<Rightarrow> bool" where
  "is_dir n \<longleftrightarrow> n_kind n = Directory"

text \<open>Directories that were created before a failure stay.\<close>

fun MkdirAll :: "path \<Rightarrow> path \<Rightarrow> 9 word \<Rightarrow> fs \<Rightarrow> (fserror \<times> fs) + fs" where
  "MkdirAll base [] perm f = Inr f"
| "MkdirAll base (c # cs) perm f =
     (case Stat (fs_nodes f) (base @ [c]) of
        Some n \<Rightarrow> if is_dir n then MkdirAll (base @ [c]) cs perm f else Inl (NotDirectory, f)
      | None \<Rightarrow>
        (case create (base @ [c]) Directory perm [] f of Inl e \<Rightarrow> Inl (e, f)
         | Inr g \<Rightarrow> MkdirAll (base @ [c]) cs perm g))"

definition Remove_file :: "path \<Rightarrow> fs \<Rightarrow> fs" where
  "Remove_file p f =
     (case real_entry (fs_nodes f) p of None \<Rightarrow> f
      | Some q \<Rightarrow> f\<lparr>fs_nodes := AList.delete q (fs_nodes f)\<rparr>)"

definition Rename :: "path \<Rightarrow> path \<Rightarrow> fs \<Rightarrow> fserror + fs" where
  "Rename src dst f =
     (case (real_entry (fs_nodes f) src, real_entry (fs_nodes f) dst) of
        (Some a, Some b) \<Rightarrow>
          (case map_of (fs_nodes f) a of None \<Rightarrow> Inl (lstat_error (fs_nodes f) src)
           | Some n \<Rightarrow> Inr (f\<lparr>fs_nodes := AList.update b n (AList.delete a (fs_nodes f))\<rparr>))
      | (None, _) \<Rightarrow> Inl (lstat_error (fs_nodes f) src)
      | (Some _, None) \<Rightarrow> Inl (lstat_error (fs_nodes f) dst))"

section \<open>Trust\<close>

definition Owner :: "nat \<Rightarrow> node \<Rightarrow> bool" where
  "Owner euid n \<longleftrightarrow> n_uid n = 0 \<or> n_uid n = euid"

definition loose :: "node \<Rightarrow> bool" where
  "loose n \<longleftrightarrow> n_perm n AND 18 \<noteq> 0"

definition is_symlink :: "node \<Rightarrow> bool" where
  "is_symlink n \<longleftrightarrow> (case n_kind n of Symlink _ \<Rightarrow> True | _ \<Rightarrow> False)"

definition Path :: "fs \<Rightarrow> path \<Rightarrow> bool \<Rightarrow> fserror option" where
  "Path f p directory =
     (case Lstat (fs_nodes f) p of None \<Rightarrow> Some (lstat_error (fs_nodes f) p)
      | Some n \<Rightarrow>
        if is_symlink n \<or> is_dir n \<noteq> directory \<or> (\<not> directory \<and> n_kind n \<noteq> Regular)
        then Some NotPlain
        else if \<not> Owner (fs_euid f) n then Some BadOwner
        else if loose n then Some GroupWritable
        else None)"

text \<open>The loop over the parents of the resolved path, up to and including the root.\<close>

definition parent_ok :: "fs \<Rightarrow> path \<Rightarrow> fserror option" where
  "parent_ok f parent =
     (case Stat (fs_nodes f) parent of None \<Rightarrow> Some (stat_error (fs_nodes f) parent)
      | Some n \<Rightarrow>
        if \<not> Owner (fs_euid f) n then Some BadOwner
        else if loose n \<and> \<not> n_sticky n then Some AncestorWritable
        else None)"

fun check_parents :: "fs \<Rightarrow> nat \<Rightarrow> path \<Rightarrow> fserror option" where
  "check_parents f 0 parent = parent_ok f parent"
| "check_parents f (Suc k) parent =
     (case parent_ok f parent of Some e \<Rightarrow> Some e | None \<Rightarrow> check_parents f k (butlast parent))"

definition Ancestors :: "fs \<Rightarrow> path \<Rightarrow> fserror option" where
  "Ancestors f p =
     (case EvalSymlinks (fs_nodes f) p of None \<Rightarrow> Some (stat_error (fs_nodes f) p)
      | Some q \<Rightarrow> check_parents f (length q - 1) (butlast q))"

section \<open>Lemmas\<close>

text \<open>Adding entries never changes what already resolves.\<close>

lemma map_le_Some: "map_of m k = Some v \<Longrightarrow> map_of m \<subseteq>\<^sub>m map_of m' \<Longrightarrow> map_of m' k = Some v"
  by (metis map_le_def domI)

lemma walk_mono:
  assumes "map_of m \<subseteq>\<^sub>m map_of m'"
  shows "walk fuel m base p = Some q \<Longrightarrow> walk fuel m' base p = Some q"
  using assms
proof (induction fuel m base p rule: walk.induct)
  case (2 fuel m base c cs)
  obtain n where n: "map_of m (base @ [c]) = Some n" using 2 by (cases "map_of m (base @ [c])") auto
  have n': "map_of m' (base @ [c]) = Some n" by (rule map_le_Some [OF n 2(4)])
  show ?case
  proof (cases "n_kind n")
    case (Symlink t)
    then obtain k where "fuel = Suc k" using 2(3) n by (cases fuel) auto
    then show ?thesis using 2 n n' Symlink by simp
  qed (use 2 n n' in auto)
qed simp

lemma EvalSymlinks_mono: "EvalSymlinks m p = Some q \<Longrightarrow> map_of m \<subseteq>\<^sub>m map_of m' \<Longrightarrow> EvalSymlinks m' p = Some q"
  unfolding EvalSymlinks_def by (rule walk_mono)

lemma Stat_Some: "Stat m p = Some n \<longleftrightarrow> (\<exists>q. EvalSymlinks m p = Some q \<and> map_of m q = Some n)"
  by (simp add: Stat_def split: option.splits)

lemma Lstat_Some: "Lstat m p = Some n \<longleftrightarrow> (\<exists>q. real_entry m p = Some q \<and> map_of m q = Some n)"
  by (simp add: Lstat_def split: option.splits)

lemma real_entry_Some:
  "real_entry m p = Some q \<longleftrightarrow>
   (if p = [] then q = [] else \<exists>d. EvalSymlinks m (butlast p) = Some d \<and> q = d @ [last p])"
  by (auto simp: real_entry_def split: option.splits)

lemma Stat_mono: "Stat m p = Some n \<Longrightarrow> map_of m \<subseteq>\<^sub>m map_of m' \<Longrightarrow> Stat m' p = Some n"
  unfolding Stat_Some using EvalSymlinks_mono map_le_Some by metis

lemma real_entry_mono: "real_entry m p = Some q \<Longrightarrow> map_of m \<subseteq>\<^sub>m map_of m' \<Longrightarrow> real_entry m' p = Some q"
  unfolding real_entry_Some using EvalSymlinks_mono by metis

lemma Lstat_mono: "Lstat m p = Some n \<Longrightarrow> map_of m \<subseteq>\<^sub>m map_of m' \<Longrightarrow> Lstat m' p = Some n"
  unfolding Lstat_Some using real_entry_mono map_le_Some by metis

definition extends :: "fs \<Rightarrow> fs \<Rightarrow> bool" where
  "extends f g \<longleftrightarrow> map_of (fs_nodes f) \<subseteq>\<^sub>m map_of (fs_nodes g) \<and> fs_euid g = fs_euid f"

lemma extends_refl [simp]: "extends f f"
  by (simp add: extends_def)

lemma extends_trans: "extends f g \<Longrightarrow> extends g h \<Longrightarrow> extends f h"
  unfolding extends_def using map_le_trans by metis

definition created :: "fs \<Rightarrow> node_kind \<Rightarrow> 9 word \<Rightarrow> bytes \<Rightarrow> node" where
  "created f kind perm data = \<lparr>n_kind = kind, n_uid = fs_euid f, n_perm = perm, n_sticky = False,
     n_ino = fs_ino f, n_data = data\<rparr>"

lemma create_cases:
  assumes "create p kind perm data f = Inr g"
  obtains q where "real_entry (fs_nodes f) p = Some q" "map_of (fs_nodes f) q = None"
    "map_of (fs_nodes g) = (map_of (fs_nodes f))(q \<mapsto> created f kind perm data)" "fs_euid g = fs_euid f"
proof -
  obtain q where q: "real_entry (fs_nodes f) p = Some q" "q \<notin> mkeys (fs_nodes f)"
    "g = f\<lparr>fs_nodes := fs_nodes f @ [(q, created f kind perm data)], fs_ino := Suc (fs_ino f)\<rparr>"
    using assms by (auto simp: create_def created_def split: option.splits if_splits)
  have none: "map_of (fs_nodes f) q = None" using q(2) by (simp add: map_of_eq_None_iff)
  then have "map_of (fs_nodes g) = (map_of (fs_nodes f))(q \<mapsto> created f kind perm data)"
    by (simp add: q(3)) (rule ext, auto simp: map_add_def split: option.splits)
  with q none show thesis by (intro that) simp_all
qed

lemma create_extends: "create p kind perm data f = Inr g \<Longrightarrow> extends f g"
  by (erule create_cases) (auto simp: extends_def map_le_def)

lemma create_Lstat:
  assumes "create p kind perm data f = Inr g"
  shows "Lstat (fs_nodes g) p = Some (created f kind perm data)"
  using assms
proof (rule create_cases)
  fix q
  assume q: "real_entry (fs_nodes f) p = Some q" "map_of (fs_nodes g) = (map_of (fs_nodes f))(q \<mapsto> created f kind perm data)"
  have "real_entry (fs_nodes g) p = Some q"
    using real_entry_mono [OF q(1)] create_extends [OF assms] by (simp add: extends_def)
  with q show ?thesis by (simp add: Lstat_Some)
qed

lemma MkdirAll_extends: "MkdirAll base cs perm f = Inr g \<Longrightarrow> extends f g"
proof (induction cs arbitrary: base f)
  case (Cons c cs)
  show ?case
  proof (cases "Stat (fs_nodes f) (base @ [c])")
    case None
    then obtain h where h: "create (base @ [c]) Directory perm [] f = Inr h" "MkdirAll (base @ [c]) cs perm h = Inr g"
      using Cons.prems by (auto split: sum.splits)
    then show ?thesis using Cons.IH create_extends extends_trans by metis
  next
    case (Some n)
    then show ?thesis using Cons.prems Cons.IH by (simp split: if_splits)
  qed
qed simp

lemma Path_None:
  "Path f p directory = None \<longleftrightarrow>
   (\<exists>n. Lstat (fs_nodes f) p = Some n \<and> is_dir n = directory \<and> (\<not> directory \<longrightarrow> n_kind n = Regular) \<and>
      Owner (fs_euid f) n \<and> \<not> loose n)"
  by (auto simp: Path_def is_dir_def is_symlink_def split: option.splits node_kind.splits)

lemma Path_mono: "Path f p directory = None \<Longrightarrow> extends f g \<Longrightarrow> Path g p directory = None"
  unfolding Path_None extends_def using Lstat_mono by metis

lemma parent_ok_None:
  "parent_ok f p = None \<longleftrightarrow>
   (\<exists>n. Stat (fs_nodes f) p = Some n \<and> Owner (fs_euid f) n \<and> (loose n \<longrightarrow> n_sticky n))"
  by (auto simp: parent_ok_def split: option.splits)

lemma parent_ok_mono: "parent_ok f p = None \<Longrightarrow> extends f g \<Longrightarrow> parent_ok g p = None"
  unfolding parent_ok_None extends_def using Stat_mono by metis

lemma check_parents_mono: "check_parents f k p = None \<Longrightarrow> extends f g \<Longrightarrow> check_parents g k p = None"
proof (induction k arbitrary: p)
  case 0
  then show ?case using parent_ok_mono [of f p g] by simp
next
  case (Suc k)
  then have "parent_ok f p = None" "check_parents f k (butlast p) = None" by (auto split: option.splits)
  with Suc.IH [of "butlast p"] parent_ok_mono [of f p g] Suc.prems(2) show ?case by simp
qed

lemma Ancestors_mono:
  assumes "Ancestors f p = None" "extends f g"
  shows "Ancestors g p = None"
proof -
  obtain q where q: "EvalSymlinks (fs_nodes f) p = Some q" "check_parents f (length q - 1) (butlast q) = None"
    using assms(1) by (auto simp: Ancestors_def split: option.splits)
  have "EvalSymlinks (fs_nodes g) p = Some q"
    using EvalSymlinks_mono [OF q(1)] assms(2) by (simp add: extends_def)
  with check_parents_mono [OF q(2) assms(2)] show ?thesis by (simp add: Ancestors_def)
qed

text \<open>Every proper prefix of the resolved path has been checked.\<close>

lemma check_parents_all:
  "check_parents f k p = None \<Longrightarrow> j \<le> k \<Longrightarrow> parent_ok f (take (length p - j) p) = None"
proof (induction j arbitrary: k p)
  case 0
  then show ?case by (cases k) (auto split: option.splits)
next
  case (Suc j)
  then obtain i where k: "k = Suc i" "j \<le> i" by (cases k) auto
  then have "check_parents f i (butlast p) = None" using Suc.prems(1) by (auto split: option.splits)
  note ih = Suc.IH [OF this k(2)]
  have "take (length (butlast p) - j) (butlast p) = take (length p - Suc j) p"
    by (simp add: butlast_conv_take)
  with ih show ?case by (simp only:)
qed

text \<open>An entry that is no link is what \<open>Stat\<close> finds, too.\<close>

lemma walk_append_leaf:
  "walk fuel m base p = Some d \<Longrightarrow> map_of m (d @ [c]) = Some n \<Longrightarrow> \<not> is_symlink n \<Longrightarrow>
   \<forall>x. map_of m d = Some x \<longrightarrow> is_dir x \<Longrightarrow> walk fuel m base (p @ [c]) = Some (d @ [c])"
proof (induction fuel m base p rule: walk.induct)
  case (1 fuel m base)
  then show ?case by (cases "n_kind n") (simp_all add: is_symlink_def)
next
  case (2 fuel m base e es)
  obtain x where x: "map_of m (base @ [e]) = Some x" using 2(3) by (cases "map_of m (base @ [e])") auto
  show ?case
  proof (cases "n_kind x")
    case (Symlink t)
    then obtain k where "fuel = Suc k" using 2(3) x by (cases fuel) auto
    with 2 x Symlink show ?thesis by simp
  next
    case Regular
    then have "d = base @ [e]" using 2(3) x by (simp split: if_splits)
    then show ?thesis using 2(6) x Regular by (simp add: is_dir_def)
  next
    case Socket
    then have "d = base @ [e]" using 2(3) x by (simp split: if_splits)
    then show ?thesis using 2(6) x Socket by (simp add: is_dir_def)
  next
    case Special
    then have "d = base @ [e]" using 2(3) x by (simp split: if_splits)
    then show ?thesis using 2(6) x Special by (simp add: is_dir_def)
  next
    case Directory
    with 2 x show ?thesis by simp
  qed
qed

lemma Stat_plain:
  assumes "Lstat m p = Some n" "\<not> is_symlink n" "p \<noteq> []"
    "\<And>d x. EvalSymlinks m (butlast p) = Some d \<Longrightarrow> map_of m d = Some x \<Longrightarrow> is_dir x"
  shows "Stat m p = Some n"
proof -
  obtain d where d: "EvalSymlinks m (butlast p) = Some d" "map_of m (d @ [last p]) = Some n"
    using assms(1,3) by (auto simp: Lstat_Some real_entry_Some)
  have "walk 255 m [] (butlast p @ [last p]) = Some (d @ [last p])"
    using d assms(2,4) by (intro walk_append_leaf) (auto simp: EvalSymlinks_def)
  then show ?thesis using assms(3) d(2) by (simp add: Stat_def EvalSymlinks_def)
qed

section \<open>Directories on a resolved path\<close>

definition rooted :: "nodes \<Rightarrow> bool" where
  "rooted m \<longleftrightarrow> (\<exists>n. map_of m [] = Some n \<and> is_dir n)"

definition dir_at :: "nodes \<Rightarrow> path \<Rightarrow> bool" where
  "dir_at m p \<longleftrightarrow> (\<exists>n. Stat m p = Some n \<and> is_dir n)"

text \<open>In a directory the only reason for a missing entry is that there is none.\<close>

lemma lstat_error_dir: "dir_at m p \<Longrightarrow> lstat_error m (p @ [c]) = NotExist"
  by (auto simp: dir_at_def Stat_Some is_dir_def lstat_error_def)

lemma walk_prefix:
  assumes "rooted m"
  shows "walk fuel m base (p @ [c]) = Some q \<Longrightarrow> \<exists>x. map_of m base = Some x \<and> is_dir x \<Longrightarrow>
    \<exists>d n. walk fuel m base p = Some d \<and> map_of m d = Some n \<and> is_dir n"
  using assms
proof (induction fuel m base p rule: walk.induct)
  case (2 fuel m base e es)
  obtain x where x: "map_of m (base @ [e]) = Some x" using 2(3) by (cases "map_of m (base @ [e])") auto
  show ?case
  proof (cases "n_kind x")
    case (Symlink t)
    then obtain k where k: "fuel = Suc k" using 2(3) x by (cases fuel) auto
    with 2 x Symlink have "\<exists>d n. walk k m [] (t @ es) = Some d \<and> map_of m d = Some n \<and> is_dir n"
      by (simp add: rooted_def)
    with k x Symlink show ?thesis by simp
  next
    case Directory
    with 2 x show ?thesis by (simp add: is_dir_def)
  qed (use 2(3) x in simp_all)
qed simp

lemma dir_at_parent:
  assumes "rooted m" "EvalSymlinks m (p @ [c]) = Some q"
  shows "dir_at m p"
  using walk_prefix [OF assms(1), of 255 "[]" p c q] assms
  by (auto simp: dir_at_def Stat_Some EvalSymlinks_def rooted_def)

lemma dir_at_prefix:
  assumes "rooted m" "dir_at m p" "k \<le> length p"
  shows "dir_at m (take k p)"
  using assms(2,3)
proof (induction p rule: rev_induct)
  case (snoc c p)
  then have "dir_at m p" using dir_at_parent [OF assms(1)] by (auto simp: dir_at_def Stat_Some)
  with snoc show ?case by (cases "k \<le> length p") (auto simp: le_Suc_eq)
qed simp

lemma dir_at_plain:
  assumes "rooted m" "dir_at m p" "Lstat m (p @ [c]) = Some n" "\<not> is_symlink n"
  shows "Stat m (p @ [c]) = Some n"
proof (rule Stat_plain [OF assms(3,4)])
  fix d x
  assume "EvalSymlinks m (butlast (p @ [c])) = Some d" "map_of m d = Some x"
  with assms(2) show "is_dir x" by (auto simp: dir_at_def Stat_Some)
qed simp

lemma MkdirAll_existing:
  assumes "\<forall>k. 0 < k \<and> k \<le> length cs \<longrightarrow> dir_at (fs_nodes f) (base @ take k cs)"
  shows "MkdirAll base cs perm f = Inr f"
  using assms
proof (induction cs arbitrary: base)
  case (Cons c cs)
  have "dir_at (fs_nodes f) (base @ [c])" using Cons.prems [rule_format, of 1] by simp
  then obtain n where "Stat (fs_nodes f) (base @ [c]) = Some n" "is_dir n" by (auto simp: dir_at_def)
  moreover have "dir_at (fs_nodes f) ((base @ [c]) @ take k cs)" if "0 < k" "k \<le> length cs" for k
    using Cons.prems [rule_format, of "Suc k"] that by simp
  ultimately show ?case using Cons.IH [of "base @ [c]"] by simp
qed simp

lemma MkdirAll_dir:
  "rooted (fs_nodes f) \<Longrightarrow> dir_at (fs_nodes f) p \<Longrightarrow> MkdirAll [] p perm f = Inr f"
  by (rule MkdirAll_existing) (simp add: dir_at_prefix)

lemma MkdirAll_snoc:
  "MkdirAll base (cs @ [c]) perm f =
     (case MkdirAll base cs perm f of Inl e \<Rightarrow> Inl e | Inr g \<Rightarrow> MkdirAll (base @ cs) [c] perm g)"
  by (induction cs arbitrary: base f) (simp_all split: option.splits sum.splits)

lemma rooted_extends: "rooted (fs_nodes f) \<Longrightarrow> extends f g \<Longrightarrow> rooted (fs_nodes g)"
  unfolding rooted_def extends_def using map_le_Some by metis

lemma dir_at_extends: "dir_at (fs_nodes f) p \<Longrightarrow> extends f g \<Longrightarrow> dir_at (fs_nodes g) p"
  unfolding dir_at_def extends_def using Stat_mono by metis

lemma MkdirAll_makes:
  "MkdirAll base cs perm f = Inr g \<Longrightarrow> rooted (fs_nodes f) \<Longrightarrow> dir_at (fs_nodes f) base \<Longrightarrow> dir_at (fs_nodes g) (base @ cs)"
proof (induction cs arbitrary: base f)
  case (Cons c cs)
  show ?case
  proof (cases "Stat (fs_nodes f) (base @ [c])")
    case None
    then obtain h where h: "create (base @ [c]) Directory perm [] f = Inr h" "MkdirAll (base @ [c]) cs perm h = Inr g"
      using Cons.prems(1) by (auto split: sum.splits)
    note ext = create_extends [OF h(1)]
    have r: "rooted (fs_nodes h)" "dir_at (fs_nodes h) base"
      using rooted_extends [OF Cons.prems(2) ext] dir_at_extends [OF Cons.prems(3) ext] .
    have "Stat (fs_nodes h) (base @ [c]) = Some (created f Directory perm [])"
      by (rule dir_at_plain [OF r create_Lstat [OF h(1)]]) (simp add: created_def is_symlink_def)
    then have "dir_at (fs_nodes h) (base @ [c])" by (simp add: dir_at_def created_def is_dir_def)
    with Cons.IH [OF h(2) r(1)] show ?thesis by simp
  next
    case (Some n)
    then have "is_dir n" "MkdirAll (base @ [c]) cs perm f = Inr g" using Cons.prems(1) by (auto split: if_splits)
    with Some Cons.IH [of "base @ [c]" f] Cons.prems(2) show ?thesis by (simp add: dir_at_def)
  qed
qed simp

lemma MkdirAll_parent:
  assumes "rooted (fs_nodes f)" "MkdirAll [] (p @ [c]) perm f = Inr g"
  shows "dir_at (fs_nodes g) p"
proof -
  obtain h where h: "MkdirAll [] p perm f = Inr h" "MkdirAll p [c] perm h = Inr g"
    using assms(2) by (auto simp: MkdirAll_snoc split: sum.splits)
  have "dir_at (fs_nodes f) []" using assms(1) by (simp add: dir_at_def Stat_Some EvalSymlinks_def rooted_def)
  from MkdirAll_makes [OF h(1) assms(1) this] have "dir_at (fs_nodes h) p" by simp
  then show ?thesis using MkdirAll_extends [OF h(2)] by (rule dir_at_extends)
qed

text \<open>Moving a plain file within a tree leaves the resolution of all other paths as it was.\<close>

lemma walk_without_file:
  assumes "map_of m a = Some n" "n_kind n = Regular \<or> n_kind n = Socket" "\<And>k. k \<noteq> a \<Longrightarrow> map_of m k \<noteq> None \<Longrightarrow> map_of m' k = map_of m k"
  shows "walk fuel m base p = Some q \<Longrightarrow> q \<noteq> a \<Longrightarrow> walk fuel m' base p = Some q"
  using assms
proof (induction fuel m base p rule: walk.induct)
  case (2 fuel m base e es)
  obtain x where x: "map_of m (base @ [e]) = Some x" using 2(3) by (cases "map_of m (base @ [e])") auto
  have ne: "base @ [e] \<noteq> a"
  proof
    assume "base @ [e] = a"
    with 2 x have "q = a" by (auto split: if_splits)
    with 2 show False by simp
  qed
  then have x': "map_of m' (base @ [e]) = Some x" using 2(7) x by simp
  show ?case
  proof (cases "n_kind x")
    case (Symlink t)
    then obtain k where "fuel = Suc k" using 2(3) x by (cases fuel) auto
    with 2 x x' Symlink show ?thesis by simp
  qed (use 2 x x' in auto)
qed simp

text \<open>Resolution depends on the kinds of entries only.\<close>

lemma walk_kinds:
  assumes "\<And>k. map_option n_kind (map_of m' k) = map_option n_kind (map_of m k)"
  shows "walk fuel m' base p = walk fuel m base p"
  using assms
proof (induction fuel m base p rule: walk.induct)
  case (2 fuel m base e es)
  show ?case
  proof (cases "map_of m (base @ [e])")
    case None
    then show ?thesis using 2(3) [of "base @ [e]"] by simp
  next
    case (Some x)
    then obtain y where "map_of m' (base @ [e]) = Some y" "n_kind y = n_kind x" using 2(3) [of "base @ [e]"] by auto
    with Some 2 show ?thesis by (auto split: node_kind.splits nat.splits)
  qed
qed simp

text \<open>The last component of a path that resolves exists in the resolved directory.\<close>

lemma walk_leaf_exists:
  "walk fuel m base (p @ [c]) = Some q \<Longrightarrow> \<exists>d. walk fuel m base p = Some d \<and> map_of m (d @ [c]) \<noteq> None"
proof (induction fuel m base p rule: walk.induct)
  case (1 fuel m base)
  then show ?case by (cases "map_of m (base @ [c])") auto
next
  case (2 fuel m base e es)
  obtain x where x: "map_of m (base @ [e]) = Some x" using 2(3) by (cases "map_of m (base @ [e])") auto
  show ?case
  proof (cases "n_kind x")
    case (Symlink t)
    then obtain k where "fuel = Suc k" using 2(3) x by (cases fuel) auto
    with 2 x Symlink show ?thesis by simp
  qed (use 2 x in auto)
qed

text \<open>Every real prefix of a resolved path is a directory, which resolves to itself.\<close>

lemma walk_real:
  "walk fuel m base p = Some q \<Longrightarrow> \<forall>k \<in> {0<..length base}. \<exists>n. map_of m (take k base) = Some n \<and> is_dir n \<Longrightarrow>
   \<forall>k \<in> {0<..<length q}. \<exists>n. map_of m (take k q) = Some n \<and> is_dir n"
proof (induction fuel m base p rule: walk.induct)
  case (2 fuel m base e es)
  obtain x where x: "map_of m (base @ [e]) = Some x" using 2(3) by (cases "map_of m (base @ [e])") auto
  show ?case
  proof (cases "n_kind x")
    case (Symlink t)
    then obtain k where "fuel = Suc k" using 2(3) x by (cases fuel) auto
    with 2 x Symlink show ?thesis by simp
  next
    case Directory
    have "\<forall>k \<in> {0<..length (base @ [e])}. \<exists>n. map_of m (take k (base @ [e])) = Some n \<and> is_dir n"
      using 2(4) x Directory by (auto simp: le_Suc_eq is_dir_def)
    with 2 x Directory show ?thesis by simp
  qed (use 2(3,4) x in \<open>auto split: if_splits\<close>)
qed auto

lemma walk_dirs:
  "\<forall>k \<in> {0<..length cs}. \<exists>n. map_of m (base @ take k cs) = Some n \<and> is_dir n \<Longrightarrow> walk fuel m base cs = Some (base @ cs)"
proof (induction cs arbitrary: base)
  case (Cons c cs)
  obtain n where "map_of m (base @ [c]) = Some n" "n_kind n = Directory"
    using Cons.prems [rule_format, of 1] by (auto simp: is_dir_def)
  moreover have "\<exists>n. map_of m ((base @ [c]) @ take k cs) = Some n \<and> is_dir n" if "k \<in> {0<..length cs}" for k
    using Cons.prems [rule_format, of "Suc k"] that by simp
  ultimately show ?case using Cons.IH [of "base @ [c]"] by simp
qed simp

lemma real_prefix_Stat:
  assumes "rooted m" "EvalSymlinks m p = Some q" "k < length q"
  shows "EvalSymlinks m (take k q) = Some (take k q)" "dir_at m (take k q)"
proof -
  have d: "\<exists>n. map_of m (take j q) = Some n \<and> is_dir n" if "j \<in> {0<..k}" for j
    using walk_real [of 255 m "[]" p q] assms(2,3) that by (simp add: EvalSymlinks_def)
  then show e: "EvalSymlinks m (take k q) = Some (take k q)"
    unfolding EvalSymlinks_def using walk_dirs [of "take k q" m "[]" 255] assms(3) by simp
  have "\<exists>n. map_of m (take k q) = Some n \<and> is_dir n"
    using d [of k] assms(1) by (cases "k = 0") (auto simp: rooted_def)
  with e show "dir_at m (take k q)" by (auto simp: dir_at_def Stat_Some)
qed

text \<open>The tree after a regular file was moved to a new name, and what it keeps.\<close>

definition moved :: "fs \<Rightarrow> path \<Rightarrow> path \<Rightarrow> fs \<Rightarrow> bool" where
  "moved f a b g \<longleftrightarrow> (\<exists>n. map_of (fs_nodes f) a = Some n \<and> n_kind n = Regular \<and> map_of (fs_nodes f) b = None \<and>
     map_of (fs_nodes g) = (map_of (fs_nodes f))(a := None, b \<mapsto> n)) \<and> fs_euid g = fs_euid f"

lemma Rename_moved:
  assumes "Rename src dst f = Inr g" "real_entry (fs_nodes f) src = Some a" "real_entry (fs_nodes f) dst = Some b"
    "map_of (fs_nodes f) a = Some n" "n_kind n = Regular" "map_of (fs_nodes f) b = None"
  shows "moved f a b g"
  using assms by (auto simp: Rename_def moved_def update_conv' delete_conv')

lemma moved_walk:
  assumes "moved f a b g" "EvalSymlinks (fs_nodes f) p = Some q" "q \<noteq> a"
  shows "EvalSymlinks (fs_nodes g) p = Some q"
proof -
  obtain n where n: "map_of (fs_nodes f) a = Some n" "n_kind n = Regular" "map_of (fs_nodes f) b = None"
    "map_of (fs_nodes g) = (map_of (fs_nodes f))(a := None, b \<mapsto> n)"
    using assms(1) by (auto simp: moved_def)
  show ?thesis unfolding EvalSymlinks_def
    by (rule walk_without_file [OF n(1) disjI1 [OF n(2)] _ assms(2) [unfolded EvalSymlinks_def] assms(3)]) (use n(3,4) in auto)
qed

lemma moved_node:
  "moved f a b g \<Longrightarrow> map_of (fs_nodes f) q = Some x \<Longrightarrow> q \<noteq> a \<Longrightarrow> map_of (fs_nodes g) q = Some x"
  by (auto simp: moved_def)

lemma moved_not_dir: "moved f a b g \<Longrightarrow> map_of (fs_nodes f) q = Some x \<Longrightarrow> is_dir x \<Longrightarrow> q \<noteq> a"
  by (auto simp: moved_def is_dir_def)

lemma moved_dir:
  assumes "moved f a b g" "Stat (fs_nodes f) p = Some x" "is_dir x"
  shows "Stat (fs_nodes g) p = Some x"
  using assms(2) moved_walk [OF assms(1)] moved_node [OF assms(1)] moved_not_dir [OF assms(1) _ assms(3)]
  by (metis Stat_Some)

lemma moved_entry:
  assumes "moved f a b g" "dir_at (fs_nodes f) p"
  shows "real_entry (fs_nodes g) (p @ [c]) = real_entry (fs_nodes f) (p @ [c])"
proof -
  obtain d x where "EvalSymlinks (fs_nodes f) p = Some d" "map_of (fs_nodes f) d = Some x" "is_dir x"
    using assms(2) by (auto simp: dir_at_def Stat_Some)
  with moved_walk [OF assms(1)] moved_not_dir [OF assms(1)] show ?thesis by (simp add: real_entry_def)
qed

lemma check_parents_cong:
  "(\<And>j. j \<le> k \<Longrightarrow> parent_ok f (take (length p - j) p) = None \<Longrightarrow> parent_ok g (take (length p - j) p) = None) \<Longrightarrow>
   check_parents f k p = None \<Longrightarrow> check_parents g k p = None"
proof (induction k arbitrary: p)
  case 0
  then show ?case using 0(1) [of 0] by simp
next
  case (Suc k)
  have p: "parent_ok f p = None" "check_parents f k (butlast p) = None" using Suc.prems(2) by (auto split: option.splits)
  have "parent_ok g (take (length (butlast p) - j) (butlast p)) = None"
    if "j \<le> k" "parent_ok f (take (length (butlast p) - j) (butlast p)) = None" for j
    using Suc.prems(1) [of "Suc j"] that by (simp add: butlast_conv_take min_def split: if_splits)
  from Suc.IH [OF this p(2)] Suc.prems(1) [of 0] p(1) show ?case by simp
qed

lemma moved_Ancestors:
  assumes mv: "moved f a b g" and r: "rooted (fs_nodes f)" and an: "Ancestors f p = None" and d: "dir_at (fs_nodes f) p"
  shows "Ancestors g p = None"
proof -
  obtain q where q: "EvalSymlinks (fs_nodes f) p = Some q" "check_parents f (length q - 1) (butlast q) = None"
    using an by (auto simp: Ancestors_def split: option.splits)
  have "q \<noteq> a" using d q(1) moved_not_dir [OF mv] by (auto simp: dir_at_def Stat_Some)
  then have e: "EvalSymlinks (fs_nodes g) p = Some q" by (rule moved_walk [OF mv q(1)])
  have "parent_ok g (take k q) = None" if "k < length q \<or> k = 0" "parent_ok f (take k q) = None" for k
  proof -
    have "dir_at (fs_nodes f) (take k q)"
      using that(1) real_prefix_Stat(2) [OF r q(1)] r by (auto simp: dir_at_def Stat_Some rooted_def EvalSymlinks_def)
    then obtain n where n: "Stat (fs_nodes f) (take k q) = Some n" "is_dir n" by (auto simp: dir_at_def)
    from moved_dir [OF mv this] n that(2) mv show ?thesis by (simp add: parent_ok_None moved_def)
  qed
  then have "check_parents g (length q - 1) (butlast q) = None"
    by (intro check_parents_cong [OF _ q(2)]) (cases "q = []", auto simp: butlast_conv_take)
  with e show ?thesis by (simp add: Ancestors_def)
qed

end
