(* ===== verification/Go_Strings.thy ===== *)
theory Go_Strings
  imports Prelude
begin

text \<open>
  The parts of Go's \<open>strings\<close>, \<open>strconv\<close>, \<open>net\<close> and \<open>net/netip\<close> packages that the program uses on
  text: cutting at a separator, decimal numbers, splitting and joining of host and port, and the text
  form of an IP address. A Go string is the list of its bytes, written as characters.
\<close>

section \<open>Cutting and searching\<close>

fun index_byte :: "char \<Rightarrow> string \<Rightarrow> nat option" where
  "index_byte c [] = None"
| "index_byte c (x # xs) = (if x = c then Some 0 else map_option Suc (index_byte c xs))"

fun last_index_byte :: "char \<Rightarrow> string \<Rightarrow> nat option" where
  "last_index_byte c [] = None"
| "last_index_byte c (x # xs) =
     (case last_index_byte c xs of Some i \<Rightarrow> Some (Suc i)
      | None \<Rightarrow> if x = c then Some 0 else None)"

text \<open>\<open>strings.Cut\<close> with a separator of one byte.\<close>

definition cut :: "char \<Rightarrow> string \<Rightarrow> string \<times> string \<times> bool" where
  "cut c s = (case index_byte c s of None \<Rightarrow> (s, [], False) | Some i \<Rightarrow> (take i s, drop (Suc i) s, True))"

section \<open>Decimal numbers\<close>

definition digit_char :: "nat \<Rightarrow> char" where
  "digit_char d = char_of (48 + d)"

definition digit_val :: "char \<Rightarrow> nat option" where
  "digit_val c = (let n = of_char c in if 48 \<le> n \<and> n \<le> 57 then Some (n - 48) else None)"

text \<open>\<open>strconv.Itoa\<close> and \<open>strconv.FormatUint\<close> to base ten, on non-negative numbers.\<close>

fun itoa :: "nat \<Rightarrow> string" where
  "itoa n = (if n < 10 then [digit_char n] else itoa (n div 10) @ [digit_char (n mod 10)])"

fun parse_digits :: "nat \<Rightarrow> string \<Rightarrow> nat option" where
  "parse_digits acc [] = Some acc"
| "parse_digits acc (c # cs) =
     (case digit_val c of None \<Rightarrow> None | Some d \<Rightarrow> parse_digits (acc * 10 + d) cs)"

text \<open>\<open>strconv.ParseUint (s, 10, 16)\<close>: digits only, at least one, and at most 65535.\<close>

definition parse_uint16 :: "string \<Rightarrow> nat option" where
  "parse_uint16 s =
     (if s = [] then None
      else case parse_digits 0 s of None \<Rightarrow> None | Some n \<Rightarrow> if n \<le> 65535 then Some n else None)"

section \<open>Host and port\<close>

datatype addr_error = MissingPort | TooManyColons | BadBrackets

definition SplitHostPort :: "string \<Rightarrow> addr_error + string \<times> string" where
  "SplitHostPort hostport =
     (case last_index_byte CHR '':'' hostport of None \<Rightarrow> Inl MissingPort
      | Some i \<Rightarrow>
        (let finish = (\<lambda>host j k.
               if index_byte CHR ''['' (drop j hostport) \<noteq> None then Inl BadBrackets
               else if index_byte CHR '']'' (drop k hostport) \<noteq> None then Inl BadBrackets
               else Inr (host, drop (Suc i) hostport)) in
         if hostport ! 0 = CHR ''['' then
           (case index_byte CHR '']'' hostport of None \<Rightarrow> Inl BadBrackets
            | Some e \<Rightarrow>
              if Suc e = length hostport then Inl MissingPort
              else if Suc e = i then finish (slice 1 e hostport) 1 (Suc e)
              else if hostport ! Suc e = CHR '':'' then Inl TooManyColons
              else Inl MissingPort)
         else
           (let host = take i hostport in
            if index_byte CHR '':'' host \<noteq> None then Inl TooManyColons else finish host 0 0)))"

definition JoinHostPort :: "string \<Rightarrow> string \<Rightarrow> string" where
  "JoinHostPort host port =
     (if index_byte CHR '':'' host \<noteq> None then ''['' @ host @ '']:'' @ port else host @ '':'' @ port)"

section \<open>Addresses\<close>

definition hex_char :: "nat \<Rightarrow> char" where
  "hex_char d = (if d < 10 then char_of (48 + d) else char_of (87 + d))"

fun hex :: "nat \<Rightarrow> string" where
  "hex n = (if n < 16 then [hex_char n] else hex (n div 16) @ [hex_char (n mod 16)])"

definition ipv4_text :: "bytes \<Rightarrow> string" where
  "ipv4_text b = itoa (unat (b ! 0)) @ ''.'' @ itoa (unat (b ! 1)) @ ''.'' @ itoa (unat (b ! 2)) @ ''.'' @
     itoa (unat (b ! 3))"

fun groups :: "bytes \<Rightarrow> nat list" where
  "groups (a # b # bs) = (unat a * 256 + unat b) # groups bs"
| "groups _ = []"

definition zero_run :: "nat list \<Rightarrow> nat \<Rightarrow> nat" where
  "zero_run gs i = length (takeWhile (\<lambda>g. g = 0) (drop i gs))"

text \<open>The first longest run of at least two zero groups, as start and length (length 0 for none).\<close>

definition best_run :: "nat list \<Rightarrow> nat \<times> nat" where
  "best_run gs =
     foldl (\<lambda>(s, l) i. if 2 \<le> zero_run gs i \<and> l < zero_run gs i then (i, zero_run gs i) else (s, l))
       (255, 0) [0..<8]"

definition colon_hex :: "nat list \<Rightarrow> string" where
  "colon_hex gs = concat (case map hex gs of [] \<Rightarrow> [] | h # hs \<Rightarrow> h # map (\<lambda>x. '':'' @ x) hs)"

definition ipv6_text :: "bytes \<Rightarrow> string" where
  "ipv6_text b =
     (let gs = groups b; (s, l) = best_run gs in
      if l = 0 then colon_hex gs else colon_hex (take s gs) @ ''::'' @ colon_hex (drop (s + l) gs))"

text \<open>\<open>net.IP.String\<close>: an IPv4-mapped address prints as IPv4.\<close>

definition ip_text :: "bytes \<Rightarrow> string" where
  "ip_text b =
     (if length b = 4 then ipv4_text b
      else if take 12 b = zeros 10 @ [255, 255] then ipv4_text (drop 12 b)
      else ipv6_text b)"

section \<open>Lemmas\<close>

lemma index_byte_None [simp]: "index_byte c s = None \<longleftrightarrow> c \<notin> set s"
  by (induction s) auto

lemma index_byte_append: "c \<notin> set s \<Longrightarrow> index_byte c (s @ c # t) = Some (length s)"
  by (induction s) auto

lemma last_index_byte_None: "last_index_byte c s = None \<longleftrightarrow> c \<notin> set s"
  by (induction s) (auto split: option.splits)

lemma last_index_byte_append: "c \<notin> set t \<Longrightarrow> last_index_byte c (s @ c # t) = Some (length s)"
proof (induction s)
  case Nil
  then show ?case using last_index_byte_None [of c t] by simp
qed simp

lemma cut_found: "c \<notin> set s \<Longrightarrow> cut c (s @ c # t) = (s, t, True)"
  by (simp add: cut_def index_byte_append)

lemma cut_missing: "c \<notin> set s \<Longrightarrow> cut c s = (s, [], False)"
  using index_byte_None [of c s] by (simp add: cut_def del: index_byte_None)

lemma index_byte_Some: "index_byte c s = Some i \<Longrightarrow> s = take i s @ c # drop (Suc i) s \<and> c \<notin> set (take i s)"
  by (induction s arbitrary: i) (auto split: if_splits)

lemma cut_True: "cut c s = (a, b, True) \<Longrightarrow> s = a @ c # b \<and> c \<notin> set a"
  using index_byte_Some by (auto simp: cut_def split: option.splits)

lemma cut_False: "cut c s = (a, b, False) \<Longrightarrow> c \<notin> set s \<and> a = s \<and> b = []"
  using index_byte_None [of c s] by (auto simp: cut_def split: option.splits)

lemma digit_val_digit_char: "d < 10 \<Longrightarrow> digit_val (digit_char d) = Some d"
  by (simp add: digit_val_def digit_char_def Let_def)

lemma parse_digits_append:
  "parse_digits acc (s @ t) = (case parse_digits acc s of None \<Rightarrow> None | Some n \<Rightarrow> parse_digits n t)"
  by (induction s arbitrary: acc) (auto split: option.splits)

declare itoa.simps [simp del]

lemma parse_digits_itoa: "parse_digits 0 (itoa n) = Some n"
proof (induction n rule: itoa.induct)
  case (1 n)
  show ?case
  proof (cases "n < 10")
    case True
    then show ?thesis by (simp add: itoa.simps [of n] digit_val_digit_char)
  next
    case False
    with 1 show ?thesis
      by (simp add: itoa.simps [of n] parse_digits_append digit_val_digit_char)
  qed
qed

lemma itoa_nonempty [simp]: "itoa n \<noteq> []"
  by (simp add: itoa.simps [of n])

lemma parse_uint16_itoa: "n \<le> 65535 \<Longrightarrow> parse_uint16 (itoa n) = Some n"
  by (simp add: parse_uint16_def parse_digits_itoa)

lemma parse_uint16_bound: "parse_uint16 s = Some n \<Longrightarrow> n \<le> 65535"
  by (auto simp: parse_uint16_def split: option.splits if_splits)

lemma digit_char_digit: "d < 10 \<Longrightarrow> digit_val (digit_char d) \<noteq> None"
  by (simp add: digit_val_digit_char)

lemma itoa_digits: "c \<in> set (itoa n) \<Longrightarrow> digit_val c \<noteq> None"
proof (induction n rule: itoa.induct)
  case (1 n)
  then show ?case
    using digit_char_digit [of "n mod 10"] digit_char_digit [of n]
    by (auto simp: itoa.simps [of n] split: if_splits)
qed

lemma digit_val_special [simp]:
  "digit_val CHR '':'' = None" "digit_val CHR ''['' = None" "digit_val CHR '']'' = None"
  by (simp_all add: digit_val_def)

lemma itoa_plain [simp]: "CHR '':'' \<notin> set (itoa n)" "CHR ''['' \<notin> set (itoa n)" "CHR '']'' \<notin> set (itoa n)"
  using itoa_digits by fastforce+

lemma split_join:
  assumes "CHR ''['' \<notin> set host" "CHR '']'' \<notin> set host"
    "CHR '':'' \<notin> set port" "CHR ''['' \<notin> set port" "CHR '']'' \<notin> set port"
  shows "SplitHostPort (JoinHostPort host port) = Inr (host, port)"
proof (cases "CHR '':'' \<in> set host")
  case True
  let ?s = "CHR ''['' # host @ CHR '']'' # CHR '':'' # port"
  have "last_index_byte CHR '':'' ?s = Some (length host + 2)"
    using last_index_byte_append [OF assms(3), of "CHR ''['' # host @ '']''"] by simp
  moreover have "index_byte CHR '']'' ?s = Some (Suc (length host))"
    using index_byte_append [OF assms(2), of "CHR '':'' # port"] by simp
  ultimately show ?thesis
    using True assms by (simp add: JoinHostPort_def SplitHostPort_def slice_def)
next
  case False
  have l: "last_index_byte CHR '':'' (host @ CHR '':'' # port) = Some (length host)"
    by (rule last_index_byte_append [OF assms(3)])
  have "(host @ CHR '':'' # port) ! 0 \<noteq> CHR ''[''" using assms(1) by (cases host) auto
  with False l assms show ?thesis by (simp add: JoinHostPort_def SplitHostPort_def)
qed

end
