(* ===== verification/Identifier.thy ===== *)
theory Identifier
  imports Wire Go_Strings
begin

text \<open>
  The text form of a peer identifier (\<open>PeerID.String\<close> and \<open>ParseID\<close> in \<open>src/internal/protocol/wire.go\<close>): the prefix
  \<open>qpeer:\<close> and the unpadded base32 encoding (RFC 4648, as \<open>encoding/base32\<close> has it) of the 32 bytes.
\<close>

section \<open>Base32\<close>

definition b32_char :: "nat \<Rightarrow> char" where
  "b32_char d = (if d < 26 then char_of (65 + d) else char_of (24 + d))"

fun b32_digits :: "nat \<Rightarrow> nat \<Rightarrow> string" where
  "b32_digits 0 n = []"
| "b32_digits (Suc k) n = b32_digits k (n div 32) @ [b32_char (n mod 32)]"

fun base32 :: "bytes \<Rightarrow> string" where
  "base32 (a # b # c # d # e # rest) = b32_digits 8 (be_get [a, b, c, d, e]) @ base32 rest"
| "base32 [a, b, c, d] = b32_digits 7 (be_get [a, b, c, d] * 8)"
| "base32 [a, b, c] = b32_digits 5 (be_get [a, b, c] * 2)"
| "base32 [a, b] = b32_digits 4 (be_get [a, b] * 16)"
| "base32 [a] = b32_digits 2 (be_get [a] * 4)"
| "base32 [] = []"

definition String :: "bytes \<Rightarrow> string" where
  "String p = ''qpeer:'' @ base32 p"

section \<open>Parsing\<close>

text \<open>
  \<open>DecodeString\<close> of \<open>encoding/base32\<close> without padding: line ends are dropped, a character outside the
  alphabet is an error, and a last group of 7, 5, 4 or 2 characters stands for 4, 3, 2 or 1 bytes, bits left
  over being ignored; one of 1, 3 or 6 characters stands for nothing.
\<close>

definition b32_value :: "char \<Rightarrow> nat option" where
  "b32_value c =
     (let n = of_char c in
      if 65 \<le> n \<and> n \<le> 90 then Some (n - 65) else if 50 \<le> n \<and> n \<le> 55 then Some (n - 24) else None)"

fun b32_values :: "string \<Rightarrow> nat list option" where
  "b32_values [] = Some []"
| "b32_values (c # s) =
     (case b32_value c of None \<Rightarrow> None | Some d \<Rightarrow> (case b32_values s of None \<Rightarrow> None | Some ds \<Rightarrow> Some (d # ds)))"

definition b32_number :: "nat list \<Rightarrow> nat" where
  "b32_number ds = foldl (\<lambda>a d. a * 32 + d) 0 ds"

definition b32_quantum :: "nat list \<Rightarrow> bytes" where
  "b32_quantum ds =
     (let n = b32_number ds; k = length ds in
      if k = 8 then be_put 5 n else if k = 7 then be_put 4 (n div 8) else if k = 5 then be_put 3 (n div 2)
      else if k = 4 then be_put 2 (n div 16) else if k = 2 then be_put 1 (n div 4) else [])"

function b32_decode :: "nat list \<Rightarrow> bytes" where
  "b32_decode ds = (if ds = [] then [] else b32_quantum (take 8 ds) @ b32_decode (drop 8 ds))"
  by pat_completeness auto
termination by (relation "measure length") auto

declare b32_decode.simps [simp del]

definition DecodeString :: "string \<Rightarrow> bytes option" where
  "DecodeString s = map_option b32_decode (b32_values (filter (\<lambda>c. c \<noteq> CHR 0x0A \<and> c \<noteq> CHR 0x0D) s))"

definition ParseID :: "string \<Rightarrow> bytes option" where
  "ParseID s =
     (case DecodeString (if take 6 s = ''qpeer:'' then drop 6 s else s) of
        None \<Rightarrow> None
      | Some b \<Rightarrow> if length b = 32 then Some b else None)"

section \<open>Lemmas\<close>

lemma length_b32_digits [simp]: "length (b32_digits k n) = k"
  by (induction k arbitrary: n) auto

lemma b32_char_inject:
  assumes "d < 32" "e < 32" "b32_char d = b32_char e"
  shows "d = e"
proof -
  have val: "of_char (b32_char x) = (if x < 26 then 65 + x else 24 + x)" if "x < 32" for x :: nat
    using that by (simp add: b32_char_def)
  from assms(3) have "(of_char (b32_char d) :: nat) = of_char (b32_char e)" by simp
  with val [OF assms(1)] val [OF assms(2)] assms(1,2) show ?thesis by (auto split: if_splits)
qed

lemma b32_digits_inject: "m < 32 ^ k \<Longrightarrow> n < 32 ^ k \<Longrightarrow> b32_digits k m = b32_digits k n \<Longrightarrow> m = n"
proof (induction k arbitrary: m n)
  case (Suc k)
  have "m div 32 = n div 32"
    using Suc.prems by (intro Suc.IH) (auto simp: less_mult_imp_div_less mult.commute)
  moreover have "m mod 32 = n mod 32"
    using Suc.prems(3) by (intro b32_char_inject) auto
  ultimately show ?case by (metis div_mult_mod_eq)
qed simp

lemma be_get_inject: "length xs = length ys \<Longrightarrow> be_get xs = be_get ys \<Longrightarrow> xs = ys"
  using be_get_eq_iff by blast

lemma base32_inject: "length p = length q \<Longrightarrow> base32 p = base32 q \<Longrightarrow> p = q"
proof (induction p arbitrary: q rule: base32.induct)
  case (1 a b c d e rest)
  then obtain a' b' c' d' e' rest' where q: "q = a' # b' # c' # d' # e' # rest'"
    by (auto simp: Suc_length_conv length_Suc_conv)
  have "be_get [a, b, c, d, e] = be_get [a', b', c', d', e']"
    using 1 q be_get_lt [of "[a, b, c, d, e]"] be_get_lt [of "[a', b', c', d', e']"]
    by (intro b32_digits_inject [of _ 8]) simp_all
  then have "[a, b, c, d, e] = [a', b', c', d', e']" by (intro be_get_inject) simp_all
  moreover have "rest = rest'" using 1 q by (intro 1(1)) simp_all
  ultimately show ?case using q by simp
next
  case (2 a b c d)
  then obtain a' b' c' d' where q: "q = [a', b', c', d']" by (auto simp: Suc_length_conv length_Suc_conv)
  have "be_get [a, b, c, d] * 8 = be_get [a', b', c', d'] * 8"
    using 2 q be_get_lt [of "[a, b, c, d]"] be_get_lt [of "[a', b', c', d']"]
    by (intro b32_digits_inject [of _ 7]) simp_all
  then show ?case using q be_get_inject [of "[a, b, c, d]" q] by simp
next
  case (3 a b c)
  then obtain a' b' c' where q: "q = [a', b', c']" by (auto simp: Suc_length_conv length_Suc_conv)
  have "be_get [a, b, c] * 2 = be_get [a', b', c'] * 2"
    using 3 q be_get_lt [of "[a, b, c]"] be_get_lt [of "[a', b', c']"]
    by (intro b32_digits_inject [of _ 5]) simp_all
  then show ?case using q be_get_inject [of "[a, b, c]" q] by simp
next
  case (4 a b)
  then obtain a' b' where q: "q = [a', b']" by (auto simp: Suc_length_conv length_Suc_conv)
  have "be_get [a, b] * 16 = be_get [a', b'] * 16"
    using 4 q be_get_lt [of "[a, b]"] be_get_lt [of "[a', b']"]
    by (intro b32_digits_inject [of _ 4]) simp_all
  then show ?case using q be_get_inject [of "[a, b]" q] by simp
next
  case (5 a)
  then obtain a' where q: "q = [a']" by (auto simp: Suc_length_conv length_Suc_conv)
  have "be_get [a] * 4 = be_get [a'] * 4"
    using 5 q be_get_lt [of "[a]"] be_get_lt [of "[a']"]
    by (intro b32_digits_inject [of _ 2]) simp_all
  then show ?case using q be_get_inject [of "[a]" q] by simp
qed simp

lemma String_inject: "length p = length q \<Longrightarrow> String p = String q \<Longrightarrow> p = q"
  by (simp add: String_def base32_inject)

lemma b32_char_code: "d < 32 \<Longrightarrow> of_char (b32_char d) = (if d < 26 then 65 + d else 24 + d)"
  by (simp add: b32_char_def)

lemma b32_value_char [simp]: "d < 32 \<Longrightarrow> b32_value (b32_char d) = Some d"
  by (auto simp: b32_value_def b32_char_code Let_def)

lemma b32_char_visible: "d < 32 \<Longrightarrow> b32_char d \<noteq> CHR 0x0A \<and> b32_char d \<noteq> CHR 0x0D"
proof -
  assume "d < 32"
  then have "(of_char (b32_char d) :: nat) \<noteq> of_char (CHR 0x0A) \<and> (of_char (b32_char d) :: nat) \<noteq> of_char (CHR 0x0D)"
    by (auto simp: b32_char_code)
  then show ?thesis by metis
qed

lemma b32_digits_visible: "c \<in> set (b32_digits k n) \<Longrightarrow> c \<noteq> CHR 0x0A \<and> c \<noteq> CHR 0x0D"
  by (induction k arbitrary: n) (auto simp: b32_char_visible)

lemma b32_values_append:
  "b32_values (s @ t) = (case b32_values s of None \<Rightarrow> None | Some ds \<Rightarrow> map_option (\<lambda>es. ds @ es) (b32_values t))"
proof (induction s)
  case Nil
  then show ?case by (cases "b32_values t") simp_all
qed (auto split: option.splits)

lemma b32_values_digits:
  "n < 32 ^ k \<Longrightarrow> \<exists>ds. b32_values (b32_digits k n) = Some ds \<and> length ds = k \<and> b32_number ds = n"
proof (induction k arbitrary: n)
  case (Suc k)
  have "n div 32 < 32 ^ k" using Suc.prems by (simp add: less_mult_imp_div_less mult.commute)
  from Suc.IH [OF this] obtain ds where "b32_values (b32_digits k (n div 32)) = Some ds" "length ds = k" "b32_number ds = n div 32"
    by blast
  then show ?case by (intro exI [of _ "ds @ [n mod 32]"]) (simp add: b32_values_append b32_number_def)
qed (simp add: b32_number_def)

text \<open>A group of bytes is written as digits that are read back as these bytes.\<close>

lemma b32_group:
  assumes "(length bs, k, w) \<in> {(5, 8, 1), (4, 7, 8), (3, 5, 2), (2, 4, 16), (1, 2, 4)}"
  shows "\<exists>ds. b32_values (b32_digits k (be_get bs * w)) = Some ds \<and> length ds = k \<and> b32_quantum ds = bs"
proof -
  have "be_get bs * w < 32 ^ k" using assms be_get_lt [of bs] by auto
  from b32_values_digits [OF this] obtain ds where
    ds: "b32_values (b32_digits k (be_get bs * w)) = Some ds" "length ds = k" "b32_number ds = be_get bs * w"
    by blast
  have "b32_quantum ds = be_put (length bs) (be_get bs)" using assms ds(2,3) by (auto simp: b32_quantum_def)
  with ds show ?thesis by (auto simp: be_put_be_get)
qed

lemma b32_decode_group: "ds \<noteq> [] \<Longrightarrow> length ds \<le> 8 \<Longrightarrow> b32_decode ds = b32_quantum ds"
  by (subst b32_decode.simps) (simp add: b32_decode.simps)

lemma b32_last_group:
  assumes "(length bs, k, w) \<in> {(4, 7, 8), (3, 5, 2), (2, 4, 16), (1, 2, 4)}"
  shows "\<exists>ds. b32_values (b32_digits k (be_get bs * w)) = Some ds \<and> b32_decode ds = bs"
proof -
  obtain ds where ds: "b32_values (b32_digits k (be_get bs * w)) = Some ds" "length ds = k" "b32_quantum ds = bs"
    using b32_group [of bs k w] assms by blast
  have "ds \<noteq> []" "length ds \<le> 8" using assms ds(2) by auto
  with ds b32_decode_group show ?thesis by metis
qed

lemma base32_decode: "\<exists>ds. b32_values (base32 p) = Some ds \<and> b32_decode ds = p"
proof (induction p rule: base32.induct)
  case (1 a b c d e rest)
  obtain ds where ds: "b32_values (b32_digits 8 (be_get [a, b, c, d, e])) = Some ds" "length ds = 8" "b32_quantum ds = [a, b, c, d, e]"
    using b32_group [of "[a, b, c, d, e]" 8 1] by auto
  obtain es where es: "b32_values (base32 rest) = Some es" "b32_decode es = rest" using 1 by blast
  have "b32_decode (ds @ es) = [a, b, c, d, e] @ rest"
    using ds es by (subst b32_decode.simps) auto
  with ds es show ?case by (simp add: b32_values_append)
next
  case (2 a b c d)
  show ?case using b32_last_group [of "[a, b, c, d]" 7 8] by simp
next
  case (3 a b c)
  show ?case using b32_last_group [of "[a, b, c]" 5 2] by simp
next
  case (4 a b)
  show ?case using b32_last_group [of "[a, b]" 4 16] by simp
next
  case (5 a)
  show ?case using b32_last_group [of "[a]" 2 4] by simp
qed (simp add: b32_decode.simps)

lemma base32_visible: "c \<in> set (base32 p) \<Longrightarrow> c \<noteq> CHR 0x0A \<and> c \<noteq> CHR 0x0D"
  by (induction p rule: base32.induct) (auto dest: b32_digits_visible simp del: b32_digits.simps)

text \<open>Every identifier is read back from its text.\<close>

lemma ParseID_String:
  assumes "length p = 32"
  shows "ParseID (String p) = Some p"
proof -
  have "filter (\<lambda>c. c \<noteq> CHR 0x0A \<and> c \<noteq> CHR 0x0D) (base32 p) = base32 p"
    using base32_visible by (intro filter_True) blast
  then have "DecodeString (base32 p) = Some p" using base32_decode [of p] by (auto simp: DecodeString_def)
  then show ?thesis using assms by (simp add: ParseID_def String_def)
qed

end
