(* ===== verification/Config_Store.thy ===== *)
theory Config_Store
  imports File_System Identifier "HOL-Library.List_Lexorder" "HOL-Library.Char_ord" "HOL-Library.Sublist"
begin

text \<open>
  The configuration store (\<open>src/internal/config/config.go\<close> and \<open>permissions.go\<close>): names, peer descriptors,
  reading with trust checks, creating files, and the operations \<open>Init\<close>, \<open>Identity\<close>, \<open>Peer\<close>, \<open>Peers\<close>,
  \<open>Add\<close> and \<open>Remove\<close>.

  A read takes two snapshots of the file system: the one in which the file is opened and the one in
  which its path is checked, between which another process may act. Encodings of descriptors and
  identity files are parameters (\<open>json\<close>); what the properties use of them is that decoding inverts
  encoding. Parsing an endpoint and the key providers are parameters, too.
\<close>

section \<open>Names and descriptors\<close>

definition MaxFile :: nat where "MaxFile = 128 * 1024"
definition IdentityVersion :: int where "IdentityVersion = 3"
definition PeerVersion :: int where "PeerVersion = 1"

definition alnum :: "char \<Rightarrow> bool" where
  "alnum c \<longleftrightarrow> (let n = (of_char c :: nat) in (97 \<le> n \<and> n \<le> 122) \<or> (65 \<le> n \<and> n \<le> 90) \<or> (48 \<le> n \<and> n \<le> 57))"

definition CheckName :: "string \<Rightarrow> bool" where
  "CheckName name \<longleftrightarrow>
     (case name of [] \<Rightarrow> False
      | c # cs \<Rightarrow> alnum c \<and> length cs \<le> 63 \<and> list_all (\<lambda>x. alnum x \<or> x = CHR ''_'' \<or> x = CHR ''-'') cs)"

record descriptor =
  d_version :: int
  d_name :: string
  d_peerid :: string
  d_public :: bytes
  d_endpoint :: string

record endpoint_info =
  e_psk_zero :: bool
  e_server_zero :: bool
  e_disco_zero :: bool

record identity_file =
  i_version :: int
  i_name :: string
  i_provider :: string
  i_private :: bytes
  i_node_zero :: bool

record json =
  enc_peer :: "descriptor \<Rightarrow> bytes"
  dec_peer :: "bytes \<Rightarrow> descriptor option"
  enc_identity :: "identity_file \<Rightarrow> bytes"
  dec_identity :: "bytes \<Rightarrow> identity_file option"

datatype cerror =
    FsError fserror | InvalidFile | SecretMode | FileChanged | BadEncoding | WriteFailed
  | BadName | BadPeerVersion | KeyMismatch | BadEndpoint | HasPSK | MissingKeys
  | AlreadyPaired | BackupExists | BadIdentityVersion | BadIdentity | BadProvider | ProviderFailed

definition Validate :: "crypto \<Rightarrow> (string \<Rightarrow> endpoint_info option) \<Rightarrow> descriptor \<Rightarrow> cerror option" where
  "Validate C parse_addr p =
     (if d_version p \<noteq> PeerVersion then Some BadPeerVersion
      else if \<not> CheckName (d_name p) then Some BadName
      else if length (d_public p) \<noteq> MLDSA87PublicKeySize \<or> d_peerid p \<noteq> String (ID C (d_public p)) then Some KeyMismatch
      else if d_endpoint p \<noteq> [] then
        (case parse_addr (d_endpoint p) of None \<Rightarrow> Some BadEndpoint
         | Some ci \<Rightarrow>
           if \<not> e_psk_zero ci then Some HasPSK
           else if e_server_zero ci \<or> e_disco_zero ci then Some MissingKeys
           else None)
      else None)"

section \<open>Reading and writing\<close>

definition read_file ::
  "(bytes \<Rightarrow> 'a option) \<Rightarrow> bool \<Rightarrow> bool \<Rightarrow> path \<Rightarrow> fs \<Rightarrow> fs \<Rightarrow> cerror + 'a" where
  "read_file dec secret authorization p opened checked =
     (case Stat (fs_nodes opened) p of None \<Rightarrow> Inl (FsError (stat_error (fs_nodes opened) p))
      | Some st \<Rightarrow>
        if n_kind st \<noteq> Regular \<or> length (n_data st) > MaxFile then Inl InvalidFile
        else if secret \<and> n_perm st AND 63 \<noteq> 0 then Inl SecretMode
        else
          (let guard =
             (if secret \<or> authorization then
                (if \<not> Owner (fs_euid opened) st then Some (FsError BadOwner)
                 else if loose st then Some (FsError GroupWritable)
                 else case Path checked p False of Some e \<Rightarrow> Some (FsError e)
                 | None \<Rightarrow>
                   (case Lstat (fs_nodes checked) p of None \<Rightarrow> Some (FsError (lstat_error (fs_nodes checked) p))
                    | Some current \<Rightarrow> if n_ino st \<noteq> n_ino current then Some FileChanged else None))
              else None) in
           case guard of Some e \<Rightarrow> Inl e
           | None \<Rightarrow> (case dec (n_data st) of None \<Rightarrow> Inl BadEncoding | Some v \<Rightarrow> Inr v)))"

text \<open>
  How writing, syncing and closing the new file end is an input. After a failed write or sync the file
  is removed again; a failed close is reported and leaves it.
\<close>

datatype written = Written | WriteError | CloseError

definition WriteNew :: "written \<Rightarrow> path \<Rightarrow> bytes \<Rightarrow> fs \<Rightarrow> cerror option \<times> fs" where
  "WriteNew wr p data f =
     (case MkdirAll [] (butlast p) 448 f of Inl (e, g) \<Rightarrow> (Some (FsError e), g)
      | Inr g \<Rightarrow>
        (case create p Regular 384 data g of Inl e \<Rightarrow> (Some (FsError e), g)
         | Inr h \<Rightarrow>
           (case wr of Written \<Rightarrow> (None, h)
            | WriteError \<Rightarrow> (Some WriteFailed, Remove_file p h)
            | CloseError \<Rightarrow> (Some WriteFailed, h))))"

section \<open>The store\<close>

definition checkStore :: "path \<Rightarrow> fs \<Rightarrow> fserror option" where
  "checkStore dir f = (case Path f dir True of Some e \<Rightarrow> Some e | None \<Rightarrow> Ancestors f dir)"

definition checkPeers :: "path \<Rightarrow> fs \<Rightarrow> fserror option" where
  "checkPeers dir f = (case checkStore dir f of Some e \<Rightarrow> Some e | None \<Rightarrow> Path f (dir @ [''peers'']) True)"

definition peer_path :: "path \<Rightarrow> string \<Rightarrow> path" where
  "peer_path dir file = dir @ [''peers'', file]"

definition identity_path :: "path \<Rightarrow> path" where
  "identity_path dir = dir @ [''identity.json'']"

definition default_kind :: "bool \<Rightarrow> string \<Rightarrow> string" where
  "default_kind darwin kind =
     (if kind = [] then (if darwin then ''secure-enclave'' else ''software'') else kind)"

definition Init ::
  "json \<Rightarrow> bool \<Rightarrow> (string \<Rightarrow> bytes option) \<Rightarrow> written \<Rightarrow> path \<Rightarrow> string \<Rightarrow> string \<Rightarrow> fs \<Rightarrow> cerror option \<times> fs" where
  "Init J darwin generate wr dir name kind f =
     (if \<not> CheckName name then (Some BadName, f)
      else case MkdirAll [] dir 448 f of Inl (e, g) \<Rightarrow> (Some (FsError e), g)
      | Inr g \<Rightarrow>
        (case checkStore dir g of Some e \<Rightarrow> (Some (FsError e), g)
         | None \<Rightarrow>
           (let k = default_kind darwin kind in
            if k \<noteq> ''software'' \<and> k \<noteq> ''secure-enclave'' then (Some BadProvider, g)
            else case generate k of None \<Rightarrow> (Some ProviderFailed, g)
            | Some priv \<Rightarrow>
              WriteNew wr (identity_path dir)
                (enc_identity J \<lparr>i_version = IdentityVersion, i_name = name, i_provider = k, i_private = priv,
                                 i_node_zero = False\<rparr>) g)))"

definition Identity ::
  "json \<Rightarrow> (string \<Rightarrow> bytes \<Rightarrow> bool) \<Rightarrow> path \<Rightarrow> fs \<Rightarrow> fs \<Rightarrow> cerror + identity_file" where
  "Identity J load dir opened checked =
     (case checkStore dir opened of Some e \<Rightarrow> Inl (FsError e)
      | None \<Rightarrow>
        (case read_file (dec_identity J) True False (identity_path dir) opened checked of Inl e \<Rightarrow> Inl e
         | Inr i \<Rightarrow>
           if i_version i \<noteq> IdentityVersion then Inl BadIdentityVersion
           else if i_node_zero i then Inl BadIdentity
           else if i_provider i \<noteq> ''software'' \<and> i_provider i \<noteq> ''secure-enclave'' then Inl BadProvider
           else if load (i_provider i) (i_private i) then Inr i else Inl ProviderFailed))"

definition load_peer ::
  "crypto \<Rightarrow> json \<Rightarrow> (string \<Rightarrow> endpoint_info option) \<Rightarrow> path \<Rightarrow> fs \<Rightarrow> cerror + descriptor" where
  "load_peer C J parse_addr p f =
     (case Path f p False of Some e \<Rightarrow> Inl (FsError e)
      | None \<Rightarrow>
        (case read_file (dec_peer J) False True p f f of Inl e \<Rightarrow> Inl e
         | Inr d \<Rightarrow> (case Validate C parse_addr d of Some e \<Rightarrow> Inl e | None \<Rightarrow> Inr d)))"

definition Store_Peer ::
  "crypto \<Rightarrow> json \<Rightarrow> (string \<Rightarrow> endpoint_info option) \<Rightarrow> path \<Rightarrow> string \<Rightarrow> fs \<Rightarrow> cerror + descriptor" where
  "Store_Peer C J parse_addr dir name f =
     (if \<not> CheckName name then Inl BadName
      else case checkPeers dir f of Some e \<Rightarrow> Inl (FsError e)
      | None \<Rightarrow> load_peer C J parse_addr (peer_path dir (name @ ''.qpeer'')) f)"

definition entries :: "path \<Rightarrow> fs \<Rightarrow> (string \<times> node) list" where
  "entries dir f =
     (case EvalSymlinks (fs_nodes f) dir of None \<Rightarrow> []
      | Some d \<Rightarrow> sort_key fst (map (\<lambda>(p, n). (last p, n)) (filter (\<lambda>(p, n). p \<noteq> [] \<and> butlast p = d) (fs_nodes f))))"

fun load_peers ::
  "crypto \<Rightarrow> json \<Rightarrow> (string \<Rightarrow> endpoint_info option) \<Rightarrow> path \<Rightarrow> fs \<Rightarrow> (string \<times> node) list \<Rightarrow> cerror + descriptor list"
where
  "load_peers C J parse_addr dir f [] = Inr []"
| "load_peers C J parse_addr dir f ((file, n) # es) =
     (if is_dir n \<or> \<not> suffix ''.qpeer'' file then load_peers C J parse_addr dir f es
      else case load_peer C J parse_addr (peer_path dir file) f of Inl e \<Rightarrow> Inl e
      | Inr d \<Rightarrow>
        (case load_peers C J parse_addr dir f es of Inl e \<Rightarrow> Inl e | Inr ds \<Rightarrow> Inr (d # ds)))"

definition Peers ::
  "crypto \<Rightarrow> json \<Rightarrow> (string \<Rightarrow> endpoint_info option) \<Rightarrow> path \<Rightarrow> fs \<Rightarrow> cerror + descriptor list" where
  "Peers C J parse_addr dir f =
     (case checkPeers dir f of
        Some e \<Rightarrow> if e = NotExist then Inr [] else Inl (FsError e)
      | None \<Rightarrow> load_peers C J parse_addr dir f (entries (dir @ [''peers'']) f))"

definition Add ::
  "crypto \<Rightarrow> json \<Rightarrow> (string \<Rightarrow> endpoint_info option) \<Rightarrow> written \<Rightarrow> path \<Rightarrow> string \<Rightarrow> path \<Rightarrow> fs \<Rightarrow> cerror option \<times> fs"
where
  "Add C J parse_addr wr dir name source f =
     (if \<not> CheckName name then (Some BadName, f)
      else case MkdirAll [] dir 448 f of Inl (e, g) \<Rightarrow> (Some (FsError e), g)
      | Inr g \<Rightarrow>
        (case checkStore dir g of Some e \<Rightarrow> (Some (FsError e), g)
         | None \<Rightarrow>
           (case read_file (dec_peer J) False False source g g of Inl e \<Rightarrow> (Some e, g)
            | Inr p \<Rightarrow>
              (case Validate C parse_addr p of Some e \<Rightarrow> (Some e, g)
               | None \<Rightarrow>
                 (case Peers C J parse_addr dir g of Inl e \<Rightarrow> (Some e, g)
                  | Inr peers \<Rightarrow>
                    if list_ex (\<lambda>q. d_public q = d_public p) peers then (Some AlreadyPaired, g)
                    else WriteNew wr (peer_path dir (name @ ''.qpeer'')) (enc_peer J (p\<lparr>d_name := name\<rparr>)) g)))))"

definition Remove ::
  "crypto \<Rightarrow> json \<Rightarrow> (string \<Rightarrow> endpoint_info option) \<Rightarrow> path \<Rightarrow> string \<Rightarrow> fs \<Rightarrow> cerror option \<times> fs" where
  "Remove C J parse_addr dir name f =
     (case Store_Peer C J parse_addr dir name f of Inl e \<Rightarrow> (Some e, f)
      | Inr p \<Rightarrow>
        (let src = peer_path dir (name @ ''.qpeer''); dst = peer_path dir (name @ ''.qpeer.revoked'') in
         case Lstat (fs_nodes f) dst of Some n \<Rightarrow> (Some BackupExists, f)
         | None \<Rightarrow>
           if lstat_error (fs_nodes f) dst \<noteq> NotExist then (Some BackupExists, f)
           else (case Rename src dst f of Inl e \<Rightarrow> (Some (FsError e), f) | Inr g \<Rightarrow> (None, g))))"

section \<open>Lemmas\<close>

lemma checkStore_None: "checkStore dir f = None \<longleftrightarrow> Path f dir True = None \<and> Ancestors f dir = None"
  by (simp add: checkStore_def split: option.splits)

lemma checkPeers_None:
  "checkPeers dir f = None \<longleftrightarrow> checkStore dir f = None \<and> Path f (dir @ [''peers'']) True = None"
  by (simp add: checkPeers_def split: option.splits)

lemma checkStore_mono: "checkStore dir f = None \<Longrightarrow> extends f g \<Longrightarrow> checkStore dir g = None"
  unfolding checkStore_None using Path_mono Ancestors_mono by metis

lemma Path_dir_at:
  assumes "rooted (fs_nodes f)" "dir_at (fs_nodes f) p" "Path f (p @ [c]) True = None"
  shows "dir_at (fs_nodes f) (p @ [c])"
proof -
  obtain n where n: "Lstat (fs_nodes f) (p @ [c]) = Some n" "is_dir n" using assms(3) by (auto simp: Path_None)
  then have "\<not> is_symlink n" by (simp add: is_dir_def is_symlink_def)
  from dir_at_plain [OF assms(1,2) n(1) this] n(2) show ?thesis by (auto simp: dir_at_def)
qed

lemma checkStore_dir_at:
  assumes "rooted (fs_nodes f)" "checkStore dir f = None"
  shows "dir_at (fs_nodes f) dir"
proof (cases dir rule: rev_cases)
  case Nil
  then show ?thesis using assms(1) by (simp add: dir_at_def Stat_Some EvalSymlinks_def rooted_def)
next
  case (snoc p c)
  obtain q where "EvalSymlinks (fs_nodes f) (p @ [c]) = Some q"
    using assms(2) snoc by (auto simp: checkStore_None Ancestors_def split: option.splits)
  then have "dir_at (fs_nodes f) p" by (rule dir_at_parent [OF assms(1)])
  then show ?thesis using Path_dir_at [OF assms(1)] assms(2) snoc by (simp add: checkStore_None)
qed

lemma read_file_trusted:
  assumes "read_file dec secret authorization p opened checked = Inr v" "secret \<or> authorization"
  obtains st n where "Stat (fs_nodes opened) p = Some st" "dec (n_data st) = Some v" "n_kind st = Regular"
    "Owner (fs_euid opened) st" "\<not> loose st" "secret \<longrightarrow> n_perm st AND 63 = 0"
    "Lstat (fs_nodes checked) p = Some n" "n_ino n = n_ino st" "n_kind n = Regular" "Owner (fs_euid checked) n" "\<not> loose n"
proof -
  obtain st where st: "Stat (fs_nodes opened) p = Some st" using assms(1) by (auto simp: read_file_def split: option.splits)
  have ok: "n_kind st = Regular" "secret \<longrightarrow> n_perm st AND 63 = 0" "Owner (fs_euid opened) st" "\<not> loose st"
    "Path checked p False = None" "dec (n_data st) = Some v"
    using assms by (auto simp: read_file_def st Let_def split: option.splits if_splits)
  then obtain n where n: "Lstat (fs_nodes checked) p = Some n" "n_kind n = Regular" "Owner (fs_euid checked) n" "\<not> loose n"
    by (auto simp: Path_None)
  moreover have "n_ino n = n_ino st"
    using assms n(1) ok by (auto simp: read_file_def st Let_def split: option.splits if_splits)
  ultimately show thesis using st ok by (intro that) simp_all
qed

lemma load_peer_Inr:
  assumes "load_peer C J parse_addr p f = Inr d"
  shows "read_file (dec_peer J) False True p f f = Inr d" "Validate C parse_addr d = None" "Path f p False = None"
  using assms by (auto simp: load_peer_def split: option.splits sum.splits)

lemma load_peers_member:
  "load_peers C J parse_addr dir f es = Inr ds \<Longrightarrow> d \<in> set ds \<Longrightarrow>
   \<exists>fn n. (fn, n) \<in> set es \<and> suffix ''.qpeer'' fn \<and> load_peer C J parse_addr (peer_path dir fn) f = Inr d"
proof (induction es arbitrary: ds)
  case (Cons e es)
  obtain fn n where e: "e = (fn, n)" by fastforce
  show ?case
  proof (cases "is_dir n \<or> \<not> suffix ''.qpeer'' fn")
    case True
    with Cons e show ?thesis by auto
  next
    case False
    then obtain x xs where "load_peer C J parse_addr (peer_path dir fn) f = Inr x"
      "load_peers C J parse_addr dir f es = Inr xs" "ds = x # xs"
      using Cons.prems(1) e by (auto split: sum.splits)
    with Cons e False show ?thesis by (cases "d = x") auto
  qed
qed simp

lemma Validate_rename: "Validate C parse_addr p = None \<Longrightarrow> CheckName name \<Longrightarrow> Validate C parse_addr (p\<lparr>d_name := name\<rparr>) = None"
  by (auto simp: Validate_def split: if_splits option.splits)

lemma perm_new [simp]: "\<not> loose (created f kind 448 data)" "\<not> loose (created f kind 384 data)"
  by (simp_all add: loose_def created_def)

lemma owner_new [simp]: "fs_euid g = fs_euid f \<Longrightarrow> Owner (fs_euid g) (created f kind perm data)"
  by (simp add: Owner_def created_def)

lemma WriteNew_success:
  assumes "WriteNew wr p data f = (None, h)"
  obtains g where "MkdirAll [] (butlast p) 448 f = Inr g" "create p Regular 384 data g = Inr h"
  using assms by (auto simp: WriteNew_def split: sum.splits if_splits written.splits)

text \<open>After \<open>MkdirAll\<close> the peers directory of a trusted store is a trusted directory.\<close>

lemma peers_dir_made:
  assumes r: "rooted (fs_nodes g)" and s: "checkStore dir g = None"
    and p: "Path g (dir @ [''peers'']) True \<in> {None, Some NotExist}"
    and mk: "MkdirAll [] (dir @ [''peers'']) 448 g = Inr h"
  shows "Path h (dir @ [''peers'']) True = None"
proof -
  have d: "dir_at (fs_nodes g) dir" by (rule checkStore_dir_at [OF r s])
  have mk': "MkdirAll dir [''peers''] 448 g = Inr h"
    using mk MkdirAll_dir [OF r d, of 448] by (simp add: MkdirAll_snoc)
  show ?thesis
  proof (cases "Path g (dir @ [''peers'']) True")
    case None
    then show ?thesis using Path_mono MkdirAll_extends [OF mk] by blast
  next
    case (Some e)
    then have l: "Lstat (fs_nodes g) (dir @ [''peers'']) = None" using p by (auto simp: Path_def split: option.splits if_splits)
    have "Stat (fs_nodes g) (dir @ [''peers'']) = None"
    proof (rule ccontr)
      assume "Stat (fs_nodes g) (dir @ [''peers'']) \<noteq> None"
      then obtain q where "EvalSymlinks (fs_nodes g) (dir @ [''peers'']) = Some q" by (auto simp: Stat_def split: option.splits)
      then show False using walk_leaf_exists [of 255 "fs_nodes g" "[]" dir "''peers''" q] l by (auto simp: EvalSymlinks_def Lstat_def real_entry_def split: option.splits)
    qed
    then have "create (dir @ [''peers'']) Directory 448 [] g = Inr h" using mk' by (auto split: sum.splits)
    from create_Lstat [OF this] create_extends [OF this] show ?thesis
      by (auto simp: Path_None is_dir_def created_def extends_def Owner_def loose_def)
  qed
qed

text \<open>A file that was just created in an existing directory can be read back, as a secret, too.\<close>

lemma read_created:
  assumes mk: "create (d @ [c]) Regular 384 data k = Inr h" and root: "rooted (fs_nodes h)" and dir: "dir_at (fs_nodes h) d"
    and "length data \<le> MaxFile" "dec data = Some v"
  shows "read_file dec secret authorization (d @ [c]) h h = Inr v" "Path h (d @ [c]) False = None"
proof -
  have l: "Lstat (fs_nodes h) (d @ [c]) = Some (created k Regular 384 data)" by (rule create_Lstat [OF mk])
  have st: "Stat (fs_nodes h) (d @ [c]) = Some (created k Regular 384 data)"
    using dir_at_plain [OF root dir l] by (simp add: is_symlink_def created_def)
  have eu: "fs_euid h = fs_euid k" using create_extends [OF mk] by (simp add: extends_def)
  show path: "Path h (d @ [c]) False = None"
    using l eu by (simp add: Path_None is_dir_def) (simp add: created_def)
  show "read_file dec secret authorization (d @ [c]) h h = Inr v"
    using st l path eu assms(4,5) by (simp add: read_file_def) (simp add: created_def not_less)
qed

text \<open>A descriptor that comes from a trusted file of a trusted store.\<close>

definition trusted_descriptor ::
  "crypto \<Rightarrow> json \<Rightarrow> (string \<Rightarrow> endpoint_info option) \<Rightarrow> path \<Rightarrow> fs \<Rightarrow> descriptor \<Rightarrow> bool" where
  "trusted_descriptor C J parse_addr dir f d \<longleftrightarrow>
    Validate C parse_addr d = None \<and>
    (\<exists>fn st n. suffix ''.qpeer'' fn \<and> Stat (fs_nodes f) (peer_path dir fn) = Some st \<and> dec_peer J (n_data st) = Some d \<and>
       Lstat (fs_nodes f) (peer_path dir fn) = Some n \<and> n_ino n = n_ino st \<and> n_kind n = Regular \<and>
       Owner (fs_euid f) n \<and> \<not> loose n) \<and>
    (\<forall>q \<in> {dir, dir @ [''peers'']}. \<exists>n. Lstat (fs_nodes f) q = Some n \<and> is_dir n \<and> Owner (fs_euid f) n \<and> \<not> loose n) \<and>
    (\<exists>q. EvalSymlinks (fs_nodes f) dir = Some q \<and>
       (\<forall>k < length q. \<exists>n. Stat (fs_nodes f) (take k q) = Some n \<and> Owner (fs_euid f) n \<and> (loose n \<longrightarrow> n_sticky n)))"

lemma Peers_trusted:
  assumes "Peers C J parse_addr dir f = Inr ds" "d \<in> set ds"
  shows "trusted_descriptor C J parse_addr dir f d"
proof -
  have cp: "checkPeers dir f = None" and lp: "load_peers C J parse_addr dir f (entries (dir @ [''peers'']) f) = Inr ds"
    using assms by (auto simp: Peers_def split: option.splits if_splits)
  obtain fn where fn: "suffix ''.qpeer'' fn" "load_peer C J parse_addr (peer_path dir fn) f = Inr d"
    using load_peers_member [OF lp assms(2)] by blast
  note l = load_peer_Inr [OF fn(2)]
  obtain q where q: "EvalSymlinks (fs_nodes f) dir = Some q" "check_parents f (length q - 1) (butlast q) = None"
    using cp by (auto simp: checkPeers_None checkStore_None Ancestors_def split: option.splits)
  have up: "\<exists>n. Stat (fs_nodes f) (take k q) = Some n \<and> Owner (fs_euid f) n \<and> (loose n \<longrightarrow> n_sticky n)"
    if "k < length q" for k
  proof -
    have "parent_ok f (take (length (butlast q) - (length q - 1 - k)) (butlast q)) = None"
      by (rule check_parents_all [OF q(2)]) simp
    moreover have "take (length (butlast q) - (length q - 1 - k)) (butlast q) = take k q"
      using that by (simp add: take_butlast)
    ultimately show ?thesis by (simp add: parent_ok_None)
  qed
  obtain st n where "Stat (fs_nodes f) (peer_path dir fn) = Some st" "dec_peer J (n_data st) = Some d"
    "Lstat (fs_nodes f) (peer_path dir fn) = Some n" "n_ino n = n_ino st" "n_kind n = Regular" "Owner (fs_euid f) n" "\<not> loose n"
    using l(1) by (rule read_file_trusted) auto
  moreover have "\<forall>q \<in> {dir, dir @ [''peers'']}. \<exists>n. Lstat (fs_nodes f) q = Some n \<and> is_dir n \<and> Owner (fs_euid f) n \<and> \<not> loose n"
    using cp by (auto simp: checkPeers_None checkStore_None Path_None)
  ultimately show ?thesis unfolding trusted_descriptor_def using l(2) fn(1) q(1) up by blast
qed

section \<open>Properties\<close>

text \<open>
  C15. Authorization input is trusted end to end. Every peer that \<open>Peers\<close> returns is valid and was read
  from a regular file that is not a symbolic link, in a peers directory and a store directory that are
  not links either; the file (the very inode that was read) and both directories belong to root or the
  user and are writable by neither group nor others; and so does every directory above the store, up
  to the root, except that a sticky one may be writable.
\<close>

theorem peers_are_trusted:
  assumes "Peers C J parse_addr dir f = Inr ds" "d \<in> set ds"
  shows "Validate C parse_addr d = None \<and>
    (\<exists>fn st n. suffix ''.qpeer'' fn \<and> Stat (fs_nodes f) (peer_path dir fn) = Some st \<and> dec_peer J (n_data st) = Some d \<and>
       Lstat (fs_nodes f) (peer_path dir fn) = Some n \<and> n_ino n = n_ino st \<and> n_kind n = Regular \<and>
       Owner (fs_euid f) n \<and> \<not> loose n) \<and>
    (\<forall>q \<in> {dir, dir @ [''peers'']}. \<exists>n. Lstat (fs_nodes f) q = Some n \<and> is_dir n \<and> Owner (fs_euid f) n \<and> \<not> loose n) \<and>
    (\<exists>q. EvalSymlinks (fs_nodes f) dir = Some q \<and>
       (\<forall>k < length q. \<exists>n. Stat (fs_nodes f) (take k q) = Some n \<and> Owner (fs_euid f) n \<and> (loose n \<longrightarrow> n_sticky n)))"
  using Peers_trusted [OF assms] unfolding trusted_descriptor_def .

text \<open>
  A secret or an authorization is never taken from a file that was swapped while it was opened: if
  another process changes the file system between the open and the checks, a successful read still
  means that the inode that was opened is the one found, unlinked and trusted, under the path, and for
  a secret that nobody else had any permission on it.
\<close>

theorem read_is_race_free:
  assumes "read_file dec secret True p opened checked = Inr v"
  shows "\<exists>st n. Stat (fs_nodes opened) p = Some st \<and> dec (n_data st) = Some v \<and>
    Lstat (fs_nodes checked) p = Some n \<and> n_ino n = n_ino st \<and> \<not> is_symlink n \<and> Owner (fs_euid checked) n \<and>
    \<not> loose n \<and> (secret \<longrightarrow> n_perm st AND 63 = 0)"
proof -
  obtain st n where "Stat (fs_nodes opened) p = Some st" "dec (n_data st) = Some v"
    "secret \<longrightarrow> n_perm st AND 63 = 0" "Lstat (fs_nodes checked) p = Some n" "n_ino n = n_ino st" "n_kind n = Regular"
    "Owner (fs_euid checked) n" "\<not> loose n"
    using assms by (rule read_file_trusted) auto
  moreover from this(6) have "\<not> is_symlink n" by (simp add: is_symlink_def)
  ultimately show ?thesis by blast
qed

text \<open>
  C37. Pairing works: when \<open>Add\<close> succeeds, the peer it read can be looked up under the new name, with the
  key and endpoint it was given, and no peer that was paired before has that key.
\<close>

theorem add_then_peer:
  assumes add: "Add C J parse_addr wr dir name source f = (None, h)" and root: "rooted (fs_nodes f)"
    and made: "MkdirAll [] dir 448 f = Inr g" and read: "read_file (dec_peer J) False False source g g = Inr p"
    and json: "dec_peer J (enc_peer J (p\<lparr>d_name := name\<rparr>)) = Some (p\<lparr>d_name := name\<rparr>)"
      "length (enc_peer J (p\<lparr>d_name := name\<rparr>)) \<le> MaxFile"
  shows "Store_Peer C J parse_addr dir name h = Inr (p\<lparr>d_name := name\<rparr>) \<and>
    (\<exists>peers. Peers C J parse_addr dir g = Inr peers \<and> (\<forall>q \<in> set peers. d_public q \<noteq> d_public p))"
proof -
  obtain peers where g: "CheckName name" "MkdirAll [] dir 448 f = Inr g" "checkStore dir g = None"
    "read_file (dec_peer J) False False source g g = Inr p" "Validate C parse_addr p = None"
    "Peers C J parse_addr dir g = Inr peers" "\<not> list_ex (\<lambda>q. d_public q = d_public p) peers"
    "WriteNew wr (peer_path dir (name @ ''.qpeer'')) (enc_peer J (p\<lparr>d_name := name\<rparr>)) g = (None, h)"
    using add made read by (auto simp: Add_def split: if_splits sum.splits option.splits)
  let ?pp = "peer_path dir (name @ ''.qpeer'')" and ?data = "enc_peer J (p\<lparr>d_name := name\<rparr>)"
  have pp: "?pp = (dir @ [''peers'']) @ [name @ ''.qpeer'']" by (simp add: peer_path_def)
  have rg: "rooted (fs_nodes g)" by (rule rooted_extends [OF root MkdirAll_extends [OF g(2)]])
  obtain k where k: "MkdirAll [] (dir @ [''peers'']) 448 g = Inr k" "create ?pp Regular 384 ?data k = Inr h"
    using g(8) by (rule WriteNew_success) (simp add: peer_path_def butlast_append)
  have ext: "extends g k" "extends k h" using MkdirAll_extends [OF k(1)] create_extends [OF k(2)] .
  have "Path g (dir @ [''peers'']) True \<in> {None, Some NotExist}"
    using g(3,6) by (auto simp: Peers_def checkPeers_def split: option.splits if_splits)
  then have pk: "Path k (dir @ [''peers'']) True = None" by (rule peers_dir_made [OF rg g(3) _ k(1)])
  have cp: "checkPeers dir h = None"
    using checkStore_mono [OF g(3) extends_trans [OF ext]] Path_mono [OF pk ext(2)] by (simp add: checkPeers_None)
  have rh: "rooted (fs_nodes h)" by (rule rooted_extends [OF rg extends_trans [OF ext]])
  have "dir_at (fs_nodes h) (dir @ [''peers''])"
    using Path_dir_at [OF rh checkStore_dir_at [OF rh]] cp by (simp add: checkPeers_None)
  note rc = read_created [where dec = "dec_peer J", OF k(2) [unfolded pp] rh this json(2,1)]
  have path: "Path h ?pp False = None" unfolding pp by (rule rc(2))
  have "read_file (dec_peer J) False True ?pp h h = Inr (p\<lparr>d_name := name\<rparr>)" unfolding pp by (rule rc(1))
  then have "Store_Peer C J parse_addr dir name h = Inr (p\<lparr>d_name := name\<rparr>)"
    using path cp g(1) Validate_rename [OF g(5,1)] by (simp add: Store_Peer_def load_peer_def)
  with g(4,6,7) show ?thesis by (auto simp: list_ex_iff)
qed

text \<open>
  C36. Revocation works: after a successful \<open>Remove\<close> the peer cannot be looked up any more, not even
  as the result of an error elsewhere (the lookup fails because the descriptor does not exist), the
  descriptor is kept under the revoked name, and every other entry of the peers directory is untouched.
\<close>

theorem remove_revokes:
  assumes rm: "Remove C J parse_addr dir name f = (None, g)" and root: "rooted (fs_nodes f)"
  shows "Store_Peer C J parse_addr dir name g = Inl (FsError NotExist) \<and>
    Lstat (fs_nodes g) (peer_path dir (name @ ''.qpeer.revoked'')) = Lstat (fs_nodes f) (peer_path dir (name @ ''.qpeer'')) \<and>
    (\<forall>fn. fn \<notin> {name @ ''.qpeer'', name @ ''.qpeer.revoked''} \<longrightarrow>
       Lstat (fs_nodes g) (peer_path dir fn) = Lstat (fs_nodes f) (peer_path dir fn))"
proof -
  let ?peers = "dir @ [''peers'']"
  have nm: "CheckName name" and cp: "checkPeers dir f = None"
    and lp: "Path f (peer_path dir (name @ ''.qpeer'')) False = None"
    and none: "Lstat (fs_nodes f) (peer_path dir (name @ ''.qpeer.revoked'')) = None"
    and rn: "Rename (peer_path dir (name @ ''.qpeer'')) (peer_path dir (name @ ''.qpeer.revoked'')) f = Inr g"
    using rm by (auto simp: Remove_def Store_Peer_def load_peer_def Let_def split: sum.splits option.splits if_splits)
  have cs: "checkStore dir f = None" "Path f ?peers True = None" using cp by (simp_all add: checkPeers_None)
  have dd: "dir_at (fs_nodes f) dir" by (rule checkStore_dir_at [OF root cs(1)])
  have dp: "dir_at (fs_nodes f) ?peers" by (rule Path_dir_at [OF root dd cs(2)])
  then obtain d where d: "EvalSymlinks (fs_nodes f) ?peers = Some d" by (auto simp: dir_at_def Stat_Some)
  have pp: "peer_path dir fn = ?peers @ [fn]" for fn by (simp add: peer_path_def)
  have re: "real_entry (fs_nodes f) (peer_path dir fn) = Some (d @ [fn])" for fn
    using d by (simp add: real_entry_def peer_path_def butlast_append)
  let ?a = "d @ [name @ ''.qpeer'']" and ?b = "d @ [name @ ''.qpeer.revoked'']"
  obtain n where n: "map_of (fs_nodes f) ?a = Some n" "n_kind n = Regular"
    using lp by (auto simp: Path_None Lstat_Some re)
  have nb: "map_of (fs_nodes f) ?b = None" using none by (simp add: Lstat_def re)
  have mv: "moved f ?a ?b g" by (rule Rename_moved [OF rn re re n nb])
  have re': "real_entry (fs_nodes g) (peer_path dir fn) = Some (d @ [fn])" for fn
    using moved_entry [OF mv dp, of fn] re [of fn] by (simp only: pp)
  have mg: "map_of (fs_nodes g) = (map_of (fs_nodes f))(?a := None, ?b \<mapsto> n)" and eu: "fs_euid g = fs_euid f"
    using mv n by (auto simp: moved_def)
  have keep: "Path g q True = None" if "Path f q True = None" "q = [] \<or> dir_at (fs_nodes f) (butlast q)" for q
  proof -
    note ok = that(1)
    obtain x where x: "Lstat (fs_nodes f) q = Some x" "is_dir x" "Owner (fs_euid f) x" "\<not> loose x"
      using ok by (auto simp: Path_None)
    then obtain e where e: "real_entry (fs_nodes f) q = Some e" "map_of (fs_nodes f) e = Some x" by (auto simp: Lstat_Some)
    have "real_entry (fs_nodes g) q = Some e"
      using that(2) e(1) moved_entry [OF mv, of "butlast q" "last q"] by (cases "q = []") (simp_all add: real_entry_def)
    with x e moved_node [OF mv e(2)] moved_not_dir [OF mv e(2) x(2)] eu show ?thesis by (auto simp: Path_None Lstat_Some)
  qed
  have "dir = [] \<or> dir_at (fs_nodes f) (butlast dir)"
    using dir_at_prefix [OF root dd, of "length dir - 1"] by (simp add: butlast_conv_take)
  then have "checkPeers dir g = None"
    using keep cs dd dp moved_Ancestors [OF mv root] by (simp add: checkPeers_None checkStore_None)
  moreover have "Lstat (fs_nodes g) (peer_path dir fn) = map_of (fs_nodes g) (d @ [fn])"
    "Lstat (fs_nodes f) (peer_path dir fn) = map_of (fs_nodes f) (d @ [fn])" for fn
    by (simp_all add: Lstat_def re re')
  moreover have "dir_at (fs_nodes g) ?peers" using dp moved_dir [OF mv] by (auto simp: dir_at_def)
  then have "lstat_error (fs_nodes g) (peer_path dir fn) = NotExist" for fn by (simp only: pp lstat_error_dir)
  ultimately show ?thesis using nm n(1) by (simp add: Store_Peer_def load_peer_def Path_def mg)
qed

text \<open>
  C26. A new identity can be used: when \<open>Init\<close> succeeds, \<open>Identity\<close> loads what it wrote, the given name,
  the provider that was asked for (or the default of the system) and the key that was generated, from a
  file nobody else has any permission on.
\<close>

theorem init_then_identity:
  assumes init: "Init J darwin generate wr dir name kind f = (None, h)" and root: "rooted (fs_nodes f)"
    and loads: "\<forall>priv. generate (default_kind darwin kind) = Some priv \<longrightarrow> load (default_kind darwin kind) priv"
    and json: "\<forall>i. generate (i_provider i) = Some (i_private i) \<and> i_name i = name \<and> i_version i = IdentityVersion \<and> \<not> i_node_zero i \<longrightarrow>
      dec_identity J (enc_identity J i) = Some i \<and> length (enc_identity J i) \<le> MaxFile"
  shows "\<exists>priv n. generate (default_kind darwin kind) = Some priv \<and>
    Identity J load dir h h = Inr \<lparr>i_version = IdentityVersion, i_name = name, i_provider = default_kind darwin kind,
      i_private = priv, i_node_zero = False\<rparr> \<and>
    Lstat (fs_nodes h) (identity_path dir) = Some n \<and> n_perm n = 384"
proof -
  let ?k = "default_kind darwin kind"
  obtain g priv where g: "MkdirAll [] dir 448 f = Inr g" "checkStore dir g = None"
    "?k = ''software'' \<or> ?k = ''secure-enclave''" "generate ?k = Some priv"
    and wn: "WriteNew wr (identity_path dir) (enc_identity J \<lparr>i_version = IdentityVersion, i_name = name, i_provider = ?k,
      i_private = priv, i_node_zero = False\<rparr>) g = (None, h)"
    using init by (auto simp: Init_def Let_def split: if_splits sum.splits option.splits prod.splits)
  let ?i = "\<lparr>i_version = IdentityVersion, i_name = name, i_provider = ?k, i_private = priv, i_node_zero = False\<rparr>"
  have rg: "rooted (fs_nodes g)" by (rule rooted_extends [OF root MkdirAll_extends [OF g(1)]])
  have dg: "dir_at (fs_nodes g) dir" by (rule checkStore_dir_at [OF rg g(2)])
  obtain k where k: "MkdirAll [] dir 448 g = Inr k" "create (dir @ [''identity.json'']) Regular 384 (enc_identity J ?i) k = Inr h"
    using wn by (rule WriteNew_success) (simp add: identity_path_def)
  have "k = g" using k(1) MkdirAll_dir [OF rg dg, of 448] by simp
  note ext = create_extends [OF k(2) [unfolded this]]
  have j: "dec_identity J (enc_identity J ?i) = Some ?i" "length (enc_identity J ?i) \<le> MaxFile"
    using json [rule_format, of ?i] g(4) by simp_all
  have "read_file (dec_identity J) True False (identity_path dir) h h = Inr ?i"
    unfolding identity_path_def
    by (rule read_created(1) [where dec = "dec_identity J", OF k(2) rooted_extends [OF rg ext] dir_at_extends [OF dg ext] j(2,1)])
  then have "Identity J load dir h h = Inr ?i"
    using checkStore_mono [OF g(2) ext] g(3,4) loads by (auto simp: Identity_def)
  moreover have "Lstat (fs_nodes h) (identity_path dir) = Some (created k Regular 384 (enc_identity J ?i))"
    unfolding identity_path_def by (rule create_Lstat [OF k(2)])
  ultimately show ?thesis using g(4) by (auto simp: created_def)
qed

section \<open>Examples\<close>

text \<open>
  A store in the root directory of a machine whose root user runs the commands, and a descriptor to be
  paired. The example's decoder yields the same descriptor for every file.
\<close>

definition plain_crypto :: crypto where
  "plain_crypto = \<lparr>sha384 = (\<lambda>m. take 48 (m @ zeros 48)), sha512_256 = (\<lambda>m. take 32 (m @ zeros 32)),
     hmac384 = (\<lambda>k m. take 48 (m @ zeros 48)), hkdf_extract = (\<lambda>s salt. None), hkdf_expand = (\<lambda>k m n. None),
     mldsa_key_ok = (\<lambda>_. True), mldsa_verify = (\<lambda>_ _ _ _. True), mlkem_key_ok = (\<lambda>_. True)\<rparr>"

definition alice :: descriptor where
  "alice = \<lparr>d_version = 1, d_name = ''alice'', d_peerid = String (ID plain_crypto (replicate 2592 1)),
     d_public = replicate 2592 1, d_endpoint = []\<rparr>"

definition alice_json :: json where
  "alice_json = \<lparr>enc_peer = (\<lambda>_. [1]), dec_peer = (\<lambda>_. Some alice), enc_identity = (\<lambda>_. []), dec_identity = (\<lambda>_. None)\<rparr>"

definition entry_node :: "node_kind \<Rightarrow> 9 word \<Rightarrow> nat \<Rightarrow> node" where
  "entry_node kind perm ino = \<lparr>n_kind = kind, n_uid = 0, n_perm = perm, n_sticky = False, n_ino = ino, n_data = [1]\<rparr>"

definition disk :: fs where
  "disk = \<lparr>fs_nodes = [([], entry_node Directory 493 0), ([''src''], entry_node Regular 420 1), ([''q''], entry_node Directory 448 2),
     ([''q'', ''peers''], entry_node Directory 448 3)], fs_euid = 0, fs_ino = 4\<rparr>"

definition disk_paired :: fs where
  "disk_paired = disk\<lparr>fs_nodes := fs_nodes disk @ [([''q'', ''peers'', ''alice.qpeer''],
     \<lparr>n_kind = Regular, n_uid = 0, n_perm = 384, n_sticky = False, n_ino = 4, n_data = [1]\<rparr>)], fs_ino := 5\<rparr>"

lemmas tree_defs = Stat_def Lstat_def real_entry_def EvalSymlinks_def entry_node_def

lemma alice_valid: "Validate plain_crypto parse_addr alice = None"
  by (simp add: Validate_def alice_def PeerVersion_def MLDSA87PublicKeySize_def CheckName_def alnum_def Let_def)

lemma disk_checks:
  "checkStore [''q''] disk = None" "Path disk [''q'', ''peers''] True = None" "rooted (fs_nodes disk)"
  "checkStore [''q''] disk_paired = None" "Path disk_paired [''q'', ''peers''] True = None"
  by (simp_all add: checkStore_def Path_def Ancestors_def parent_ok_def disk_paired_def disk_def tree_defs
      is_dir_def is_symlink_def Owner_def loose_def rooted_def)

lemma disk_mkdir: "MkdirAll [] [''q''] 448 disk = Inr disk" "MkdirAll [] [''q'', ''peers''] 448 disk = Inr disk"
  by (simp_all add: disk_def tree_defs is_dir_def)

lemma disk_read: "read_file (dec_peer alice_json) False False [''src''] disk disk = Inr alice"
  by (simp add: read_file_def disk_def tree_defs alice_json_def MaxFile_def)

lemma disk_peers: "Peers C J parse_addr [''q''] disk = Inr []"
  using disk_checks(1,2)
  by (simp add: Peers_def checkPeers_def entries_def) (simp add: disk_def tree_defs)

lemma disk_add: "Add plain_crypto alice_json parse_addr Written [''q''] ''alice'' [''src''] disk = (None, disk_paired)"
proof -
  have "create [''q'', ''peers'', ''alice.qpeer''] Regular 384 [1] disk = Inr disk_paired"
    by (simp add: create_def disk_paired_def disk_def tree_defs)
  then have "WriteNew Written [''q'', ''peers'', ''alice.qpeer''] [1] disk = (None, disk_paired)"
    by (simp add: WriteNew_def disk_mkdir del: MkdirAll.simps)
  then show ?thesis
    by (simp add: Add_def CheckName_def alnum_def Let_def disk_mkdir disk_checks disk_read alice_valid disk_peers
        peer_path_def del: MkdirAll.simps) (simp add: alice_json_def)
qed

lemma disk_paired_load:
  assumes "dec_peer J [1] = Some d" "Validate C parse_addr d = None"
  shows "load_peer C J parse_addr [''q'', ''peers'', ''alice.qpeer''] disk_paired = Inr d"
  using assms
  by (simp add: load_peer_def read_file_def Path_def disk_paired_def disk_def tree_defs is_dir_def is_symlink_def
      Owner_def loose_def MaxFile_def)

lemma disk_paired_peers:
  assumes "dec_peer J [1] = Some d" "Validate C parse_addr d = None"
  shows "Peers C J parse_addr [''q''] disk_paired = Inr [d]"
  using disk_checks(4,5) disk_paired_load [OF assms]
  by (simp add: Peers_def checkPeers_def entries_def)
    (simp add: disk_paired_def disk_def tree_defs is_dir_def peer_path_def suffix_def)

lemma alice_paired: "Peers plain_crypto alice_json (\<lambda>_. None) [''q''] disk_paired = Inr [alice]"
  by (rule disk_paired_peers) (simp_all add: alice_json_def alice_valid)

theorem add_then_peer_witness:
  "Store_Peer plain_crypto alice_json (\<lambda>_. None) [''q''] ''alice'' disk_paired = Inr (alice\<lparr>d_name := ''alice''\<rparr>)"
  using add_then_peer [OF disk_add disk_checks(3) disk_mkdir(1) disk_read]
  by (simp add: alice_json_def alice_def MaxFile_def)

theorem peers_are_trusted_witness:
  "\<exists>fn n. suffix ''.qpeer'' fn \<and> Lstat (fs_nodes disk_paired) (peer_path [''q''] fn) = Some n \<and> n_kind n = Regular"
  using peers_are_trusted [OF alice_paired, of alice] by auto

theorem read_is_race_free_witness:
  "\<exists>st n. Stat (fs_nodes disk) [''src''] = Some st \<and> Lstat (fs_nodes disk) [''src''] = Some n \<and> n_ino n = n_ino st"
proof -
  have "read_file (dec_peer alice_json) False True [''src''] disk disk = Inr alice"
    by (simp add: read_file_def Path_def disk_def tree_defs alice_json_def MaxFile_def is_dir_def is_symlink_def
        Owner_def loose_def)
  from read_is_race_free [OF this] show ?thesis by blast
qed

theorem remove_revokes_witness:
  "Store_Peer plain_crypto alice_json (\<lambda>_. None) [''q''] ''alice''
     (snd (Remove plain_crypto alice_json (\<lambda>_. None) [''q''] ''alice'' disk_paired)) = Inl (FsError NotExist)"
proof -
  have "Store_Peer plain_crypto alice_json (\<lambda>_. None) [''q''] ''alice'' disk_paired = Inr alice"
    using disk_checks(4,5) disk_paired_load [of alice_json alice plain_crypto "\<lambda>_. None"] alice_valid
    by (simp add: alice_json_def Store_Peer_def CheckName_def alnum_def checkPeers_def peer_path_def Let_def)
  moreover have "\<exists>g. Rename [''q'', ''peers'', ''alice.qpeer''] [''q'', ''peers'', ''alice.qpeer.revoked''] disk_paired = Inr g"
    by (simp add: Rename_def disk_paired_def disk_def tree_defs)
  moreover have "Lstat (fs_nodes disk_paired) [''q'', ''peers'', ''alice.qpeer.revoked''] = None"
    "lstat_error (fs_nodes disk_paired) [''q'', ''peers'', ''alice.qpeer.revoked''] = NotExist"
    by (simp_all add: lstat_error_def disk_paired_def disk_def tree_defs)
  ultimately obtain g where "Remove plain_crypto alice_json (\<lambda>_. None) [''q''] ''alice'' disk_paired = (None, g)"
    by (auto simp: Remove_def Let_def peer_path_def)
  moreover have "rooted (fs_nodes disk_paired)" by (simp add: rooted_def disk_paired_def disk_def tree_defs is_dir_def)
  ultimately show ?thesis using remove_revokes by fastforce
qed

definition fresh_identity :: identity_file where
  "fresh_identity = \<lparr>i_version = 3, i_name = ''alice'', i_provider = ''software'', i_private = [7], i_node_zero = False\<rparr>"

definition identity_json :: json where
  "identity_json = alice_json\<lparr>enc_identity := (\<lambda>_. [1]), dec_identity := (\<lambda>_. Some fresh_identity)\<rparr>"

theorem init_then_identity_witness:
  "\<exists>h. Init identity_json False (\<lambda>k. if k = ''software'' then Some [7] else None) Written [''q''] ''alice'' [] disk = (None, h) \<and>
     Identity identity_json (\<lambda>_ _. True) [''q''] h h = Inr fresh_identity"
proof -
  let ?gen = "\<lambda>k. if k = ''software'' then Some [7] else None"
  obtain h where c: "create [''q'', ''identity.json''] Regular 384 [1] disk = Inr h"
    by (simp add: create_def disk_def tree_defs)
  then have "WriteNew Written [''q'', ''identity.json''] [1] disk = (None, h)"
    by (simp add: WriteNew_def disk_mkdir del: MkdirAll.simps)
  then have i: "Init identity_json False ?gen Written [''q''] ''alice'' [] disk = (None, h)"
    by (simp add: Init_def CheckName_def alnum_def Let_def disk_mkdir disk_checks default_kind_def identity_json_def
        identity_path_def del: MkdirAll.simps)
  have "\<exists>priv n. ?gen (default_kind False []) = Some priv \<and>
      Identity identity_json (\<lambda>_ _. True) [''q''] h h = Inr \<lparr>i_version = IdentityVersion, i_name = ''alice'',
        i_provider = default_kind False [], i_private = priv, i_node_zero = False\<rparr> \<and>
      Lstat (fs_nodes h) (identity_path [''q'']) = Some n \<and> n_perm n = 384"
    by (rule init_then_identity [OF i disk_checks(3)])
      (auto simp: identity_json_def fresh_identity_def IdentityVersion_def MaxFile_def split: if_splits)
  with i show ?thesis by (auto simp: default_kind_def fresh_identity_def IdentityVersion_def)
qed

end
