(* ===== verification/Socks.thy ===== *)
theory Socks
  imports Go_Strings
begin

text \<open>
  The SOCKS5 CONNECT negotiation between the two ends of a tunnel (\<open>src/internal/proxy/socks.go\<close>):
  \<open>Dial\<close> on the client, \<open>Serve\<close> on the server, \<open>readAddress\<close> and \<open>ValidateTarget\<close>.

  A connection is the bytes still to be read, the writes made so far and whether it is closed. Which
  writes fail, whether the dial succeeds and which targets are allowed are parameters.
\<close>

section \<open>Connections\<close>

record sconn =
  c_in :: bytes
  c_out :: "bytes list"
  c_closed :: bool

datatype socks_error =
    AddrError addr_error | InvalidTarget | IOError | AuthRejected | RemoteDenied | EmptyHost | BadAddressType

text \<open>\<open>io.ReadFull\<close>: all \<open>n\<close> bytes, or an error, after which nobody reads from the connection again.\<close>

definition ReadFull :: "nat \<Rightarrow> bytes \<Rightarrow> (bytes \<times> bytes) option" where
  "ReadFull n inp = (if length inp < n then None else Some (take n inp, drop n inp))"

definition conn_write :: "(nat \<Rightarrow> bool) \<Rightarrow> bytes \<Rightarrow> sconn \<Rightarrow> sconn \<times> bool" where
  "conn_write wok b c = (if wok (length (c_out c)) then (c\<lparr>c_out := c_out c @ [b]\<rparr>, True) else (c, False))"

definition conn_close :: "sconn \<Rightarrow> sconn" where
  "conn_close c = c\<lparr>c_closed := True\<rparr>"

section \<open>Addresses\<close>

definition chars_of :: "bytes \<Rightarrow> string" where
  "chars_of b = map (\<lambda>x. char_of (unat x)) b"

definition read_host :: "byte \<Rightarrow> bytes \<Rightarrow> (socks_error + string) \<times> bytes" where
  "read_host kind inp =
     (if kind = 1 then
        (case ReadFull 4 inp of None \<Rightarrow> (Inl IOError, []) | Some (b, rest) \<Rightarrow> (Inr (ip_text b), rest))
      else if kind = 4 then
        (case ReadFull 16 inp of None \<Rightarrow> (Inl IOError, []) | Some (b, rest) \<Rightarrow> (Inr (ip_text b), rest))
      else if kind = 3 then
        (case ReadFull 1 inp of None \<Rightarrow> (Inl IOError, [])
         | Some (n, rest) \<Rightarrow>
           if n ! 0 = 0 then (Inl EmptyHost, rest)
           else (case ReadFull (unat (n ! 0)) rest of None \<Rightarrow> (Inl IOError, [])
             | Some (b, rest) \<Rightarrow> (Inr (chars_of b), rest)))
      else (Inl BadAddressType, inp))"

definition readAddress :: "byte \<Rightarrow> bytes \<Rightarrow> (socks_error + string) \<times> bytes" where
  "readAddress kind inp =
     (case read_host kind inp of (Inl e, rest) \<Rightarrow> (Inl e, rest)
      | (Inr host, rest) \<Rightarrow>
        (case ReadFull 2 rest of None \<Rightarrow> (Inl IOError, [])
         | Some (port, rest) \<Rightarrow> (Inr (JoinHostPort host (itoa (be_get port))), rest)))"

section \<open>Client\<close>

definition dial_target :: "string \<Rightarrow> socks_error + string \<times> nat" where
  "dial_target target =
     (case SplitHostPort target of Inl e \<Rightarrow> Inl (AddrError e)
      | Inr (host, port) \<Rightarrow>
        (case parse_uint16 port of None \<Rightarrow> Inl InvalidTarget
         | Some n \<Rightarrow> if n = 0 \<or> length host = 0 \<or> length host > 255 then Inl InvalidTarget else Inr (host, n)))"

definition dial_request :: "string \<Rightarrow> nat \<Rightarrow> bytes" where
  "dial_request host n = [5, 1, 0, 3, of_nat (length host)] @ bytes_of host @ be_put 2 n"

definition dial_reply :: "sconn \<Rightarrow> socks_error option \<times> sconn" where
  "dial_reply c =
     (case ReadFull 4 (c_in c) of None \<Rightarrow> (Some IOError, c)
      | Some (header, rest) \<Rightarrow>
        (let c1 = c\<lparr>c_in := rest\<rparr> in
         if header ! 0 \<noteq> 5 \<or> header ! 1 \<noteq> 0 \<or> header ! 2 \<noteq> 0 then (Some RemoteDenied, c1)
         else case readAddress (header ! 3) rest of (Inl e, rest) \<Rightarrow> (Some e, c1\<lparr>c_in := rest\<rparr>)
           | (Inr s, rest) \<Rightarrow> (None, c1\<lparr>c_in := rest\<rparr>)))"

definition dial_negotiate :: "(nat \<Rightarrow> bool) \<Rightarrow> string \<Rightarrow> nat \<Rightarrow> sconn \<Rightarrow> socks_error option \<times> sconn" where
  "dial_negotiate wok host n c =
     (let (c1, ok) = conn_write wok [5, 1, 0] c in
      if \<not> ok then (Some IOError, c1)
      else case ReadFull 2 (c_in c1) of None \<Rightarrow> (Some IOError, c1)
      | Some (reply, rest) \<Rightarrow>
        (let c2 = c1\<lparr>c_in := rest\<rparr> in
         if reply \<noteq> [5, 0] then (Some AuthRejected, c2)
         else
           (let (c3, ok) = conn_write wok (dial_request host n) c2 in
            if \<not> ok then (Some IOError, c3) else dial_reply c3)))"

definition Dial :: "(nat \<Rightarrow> bool) \<Rightarrow> string \<Rightarrow> sconn \<Rightarrow> (socks_error option) \<times> sconn" where
  "Dial wok target c =
     (case dial_target target of Inl e \<Rightarrow> (Some e, conn_close c)
      | Inr (host, n) \<Rightarrow>
        (case dial_negotiate wok host n c of (Some e, c1) \<Rightarrow> (Some e, conn_close c1)
         | (None, c1) \<Rightarrow> (None, c1)))"

section \<open>Server\<close>

definition serve_reply :: "byte \<Rightarrow> bytes" where
  "serve_reply code = [5, code, 0, 1, 0, 0, 0, 0, 0, 0]"

text \<open>What \<open>Serve\<close> does: the target it connected the tunnel to, if any, and the connection it leaves.\<close>

definition serve_request ::
  "(string \<Rightarrow> bool) \<Rightarrow> (string \<Rightarrow> bool) \<Rightarrow> (nat \<Rightarrow> bool) \<Rightarrow> sconn \<Rightarrow> string option \<times> sconn" where
  "serve_request allowed dial wok c =
     (case ReadFull 4 (c_in c) of None \<Rightarrow> (None, c)
      | Some (request, rest) \<Rightarrow>
        (let c1 = c\<lparr>c_in := rest\<rparr>; reply = (\<lambda>code c. fst (conn_write wok (serve_reply code) c)) in
         if request ! 0 \<noteq> 5 \<or> request ! 1 \<noteq> 1 \<or> request ! 2 \<noteq> 0 then (None, reply 7 c1)
         else case readAddress (request ! 3) rest of
           (Inl e, rest) \<Rightarrow> (None, reply 8 (c1\<lparr>c_in := rest\<rparr>))
         | (Inr target, rest) \<Rightarrow>
           (let c2 = c1\<lparr>c_in := rest\<rparr> in
            if \<not> allowed target then (None, reply 2 c2)
            else if \<not> dial target then (None, reply 5 c2)
            else (Some target, reply 0 c2))))"

definition Serve ::
  "(string \<Rightarrow> bool) \<Rightarrow> (string \<Rightarrow> bool) \<Rightarrow> (nat \<Rightarrow> bool) \<Rightarrow> sconn \<Rightarrow> string option \<times> sconn" where
  "Serve allowed dial wok c =
     (case ReadFull 2 (c_in c) of None \<Rightarrow> (None, conn_close c)
      | Some (h, rest) \<Rightarrow>
        if h ! 0 \<noteq> 5 \<or> h ! 1 = 0 then (None, conn_close c)
        else case ReadFull (unat (h ! 1)) rest of None \<Rightarrow> (None, conn_close c)
        | Some (methods, rest) \<Rightarrow>
          (let c1 = c\<lparr>c_in := rest\<rparr> in
           if \<not> list_ex (\<lambda>m. m = 0) methods
           then (None, conn_close (fst (conn_write wok [5, 255] c1)))
           else
             (let (c2, ok) = conn_write wok [5, 0] c1 in
              if \<not> ok then (None, conn_close c2)
              else (let (r, c3) = serve_request allowed dial wok c2 in (r, conn_close c3)))))"

definition ValidateTarget :: "string \<Rightarrow> socks_error option" where
  "ValidateTarget target =
     (case SplitHostPort target of Inl e \<Rightarrow> Some (AddrError e)
      | Inr (h, p) \<Rightarrow>
        (case parse_uint16 p of None \<Rightarrow> Some InvalidTarget
         | Some n \<Rightarrow> if n = 0 \<or> h = [] then Some InvalidTarget else None))"

section \<open>Lemmas\<close>

lemma chars_of_bytes_of [simp]: "chars_of (bytes_of s) = s"
proof -
  have "char_of (unat (of_char c :: byte)) = c" for c
  proof -
    have "(of_char c :: byte) = of_nat (of_char c)" by (cases c) (simp add: of_char_def horner_sum_simps)
    then have "unat (of_char c :: byte) = of_char c" by (simp add: unat_of_nat)
    then show ?thesis by simp
  qed
  then show ?thesis by (simp add: chars_of_def bytes_of_def map_idI)
qed

lemma ReadFull_append: "length a = n \<Longrightarrow> ReadFull n (a @ b) = Some (a, b)"
  by (simp add: ReadFull_def)

lemma dial_target_bounds:
  "dial_target target = Inr (host, n) \<Longrightarrow> 0 < length host \<and> length host \<le> 255 \<and> 0 < n \<and> n \<le> 65535"
  by (auto simp: dial_target_def split: sum.splits option.splits prod.splits if_splits dest: parse_uint16_bound)

lemma readAddress_domain:
  assumes "0 < length host" "length host \<le> 255" "n \<le> 65535"
  shows "readAddress 3 (of_nat (length host) # bytes_of host @ be_put 2 n @ rest) =
    (Inr (JoinHostPort host (itoa n)), rest)"
proof -
  have u: "unat (of_nat (length host) :: byte) = length host"
    using assms(2) by (simp add: unat_of_nat)
  then have nz: "(of_nat (length host) :: byte) \<noteq> 0" using assms(1) by (metis less_numeral_extra(3) unat_0)
  have "read_host 3 (of_nat (length host) # bytes_of host @ be_put 2 n @ rest) = (Inr host, be_put 2 n @ rest)"
    using u nz by (simp add: read_host_def ReadFull_def)
  then show ?thesis
    using assms(3) by (simp add: readAddress_def ReadFull_append be_get_be_put)
qed

lemma readAddress_zero: "readAddress 1 (0 # 0 # 0 # 0 # 0 # 0 # rest) = (Inr ''0.0.0.0:0'', rest)"
proof -
  have z: "itoa 0 = ''0''" by code_simp
  have "ipv4_text [0, 0, 0, 0] = ''0.0.0.0''" by (simp add: ipv4_text_def z)
  then show ?thesis
    by (simp add: readAddress_def read_host_def ReadFull_def ip_text_def be_get_def z JoinHostPort_def)
qed

section \<open>Properties\<close>

definition always :: "nat \<Rightarrow> bool" where "always _ = True"

definition fresh_conn :: "bytes \<Rightarrow> sconn" where
  "fresh_conn inp = \<lparr>c_in = inp, c_out = [], c_closed = False\<rparr>"

text \<open>
  C35. The two ends agree. When \<open>Dial\<close> accepts a target and the server allows and reaches it, then
  \<open>Serve\<close>, fed with what \<open>Dial\<close> writes, connects to exactly the host and port of the target, and
  \<open>Dial\<close>, fed with what \<open>Serve\<close> answers, succeeds with its connection open and no byte of the answer left
  over in the stream it hands to its caller.
\<close>

theorem socks_end_to_end:
  assumes "dial_target target = Inr (host, n)" "allowed (JoinHostPort host (itoa n))"
    "dial (JoinHostPort host (itoa n))"
  shows "\<exists>cs cc. Serve allowed dial always (fresh_conn (concat [[5, 1, 0], dial_request host n])) =
      (Some (JoinHostPort host (itoa n)), cs) \<and>
    Dial always target (fresh_conn (concat (c_out cs))) = (None, cc) \<and>
    c_out cc = [[5, 1, 0], dial_request host n] \<and> c_in cc = [] \<and> \<not> c_closed cc"
proof -
  note b = dial_target_bounds [OF assms(1)]
  have addr: "readAddress 3 (of_nat (length host) # bytes_of host @ be_put 2 n) =
      (Inr (JoinHostPort host (itoa n)), [])"
    using readAddress_domain [of host n "[]"] b by simp
  have "Serve allowed dial always (fresh_conn (concat [[5, 1, 0], dial_request host n])) =
      (Some (JoinHostPort host (itoa n)),
       \<lparr>c_in = [], c_out = [[5, 0], serve_reply 0], c_closed = True\<rparr>)"
    using assms(2,3) addr
    by (simp add: Serve_def fresh_conn_def dial_request_def ReadFull_def conn_write_def always_def
        serve_request_def conn_close_def)
  moreover have "Dial always target (fresh_conn (concat [[5, 0], serve_reply 0])) =
      (None, \<lparr>c_in = [], c_out = [[5, 1, 0], dial_request host n], c_closed = False\<rparr>)"
    using readAddress_zero [of "[]"]
    by (simp add: Dial_def assms(1) dial_negotiate_def fresh_conn_def ReadFull_def conn_write_def always_def
        dial_reply_def serve_reply_def)
  ultimately show ?thesis by simp
qed

theorem socks_end_to_end_witness:
  "\<exists>cs cc. Serve (\<lambda>_. True) (\<lambda>_. True) always (fresh_conn (concat [[5, 1, 0], dial_request ''h'' 22])) =
      (Some (JoinHostPort ''h'' (itoa 22)), cs) \<and>
    Dial always (JoinHostPort ''h'' (itoa 22)) (fresh_conn (concat (c_out cs))) = (None, cc) \<and> \<not> c_closed cc"
proof -
  have "dial_target (JoinHostPort ''h'' (itoa 22)) = Inr (''h'', 22)"
    by (simp add: dial_target_def split_join parse_uint16_itoa)
  from socks_end_to_end [OF this, of "\<lambda>_. True" "\<lambda>_. True"] show ?thesis by blast
qed

lemma serve_reply_long [simp]: "serve_reply k \<noteq> [5, x]" "[5, x] \<noteq> serve_reply k"
  by (simp_all add: serve_reply_def)

lemma serve_request_result:
  assumes "serve_request allowed dial wok c = (r, c')" "serve_reply 0 \<notin> set (c_out c)"
  shows "(case r of None \<Rightarrow> serve_reply 0 \<notin> set (c_out c') | Some t \<Rightarrow> allowed t \<and> dial t)"
  using assms
  by (auto simp: serve_request_def Let_def conn_write_def serve_reply_def
      split: option.splits prod.splits sum.splits if_splits)

lemma Serve_result:
  assumes "Serve allowed dial wok (fresh_conn inp) = (r, c')"
  shows "c_closed c' \<and> (case r of None \<Rightarrow> serve_reply 0 \<notin> set (c_out c') | Some t \<Rightarrow> allowed t \<and> dial t)"
proof -
  have "case r of None \<Rightarrow> serve_reply 0 \<notin> set (c_out c3) | Some t \<Rightarrow> allowed t \<and> dial t"
    if "serve_request allowed dial wok \<lparr>c_in = rest, c_out = [[5, 0]], c_closed = False\<rparr> = (r, c3)" for rest c3
    using serve_request_result [OF that] by simp
  with assms show ?thesis
    by (auto simp: Serve_def Let_def conn_write_def conn_close_def fresh_conn_def
        split: option.splits prod.splits if_splits)
qed

text \<open>
  The server connects only to targets its policy allows, it always closes the tunnel side in the
  end, and it never reports success to the client without having connected.
\<close>

lemma serve_allowed_only:
  assumes "Serve allowed dial wok (fresh_conn inp) = (r, c')"
  shows "c_closed c' \<and> (case r of None \<Rightarrow> serve_reply 0 \<notin> set (c_out c') | Some t \<Rightarrow> allowed t \<and> dial t)"
  by (rule Serve_result [OF assms])

lemma serve_allowed_only_witness:
  "c_closed (snd (Serve (\<lambda>_. False) (\<lambda>_. True) always (fresh_conn [4])))"
  using serve_allowed_only [OF prod.collapse [symmetric]] by blast

text \<open>
  A failed \<open>Dial\<close> always closes the connection it was given; a successful one leaves it as open as it
  was and has written exactly the greeting and the request for the target.
\<close>

lemma dial_outcome:
  assumes "Dial wok target c = (r, c')"
  shows "case r of Some e \<Rightarrow> c_closed c'
    | None \<Rightarrow> c_closed c' = c_closed c \<and>
        (\<exists>host n. dial_target target = Inr (host, n) \<and> c_out c' = c_out c @ [[5, 1, 0], dial_request host n])"
  using assms
  by (auto simp: Dial_def dial_negotiate_def dial_reply_def conn_write_def conn_close_def Let_def
      split: option.splits prod.splits sum.splits if_splits)

lemma dial_outcome_witness:
  "c_closed (snd (Dial always [] (fresh_conn [])))"
proof -
  have "Dial always [] (fresh_conn []) = (Some (AddrError MissingPort), snd (Dial always [] (fresh_conn [])))"
    by (simp add: Dial_def dial_target_def SplitHostPort_def)
  from dial_outcome [OF this] show ?thesis by simp
qed

text \<open>
  Every host without brackets (an IPv6 address included) and every port from 1 to 65535 make a
  target that validates and is dialled under the same host and port, and only such ports do.
\<close>

lemma target_roundtrip:
  assumes "CHR ''['' \<notin> set host" "CHR '']'' \<notin> set host" "host \<noteq> []" "length host \<le> 255" "n \<le> 65535"
  shows "ValidateTarget (JoinHostPort host (itoa n)) = (if n = 0 then Some InvalidTarget else None) \<and>
    dial_target (JoinHostPort host (itoa n)) = (if n = 0 then Inl InvalidTarget else Inr (host, n))"
  using assms by (auto simp: ValidateTarget_def dial_target_def split_join parse_uint16_itoa)

lemma target_roundtrip_witness:
  "dial_target (JoinHostPort ''::1'' (itoa 80)) = Inr (''::1'', 80)"
  using target_roundtrip [of "''::1''" 80] by simp

end
