(* ===== verification/Udp_Frame.thy ===== *)
theory Udp_Frame
  imports Prelude "HOL-Library.Multiset"
begin

text \<open>
  Framing of UDP datagrams over the tunnel (\<open>src/internal/proxy/udp_frame.go\<close>): fragmentation in
  \<open>framedUDP.Write\<close> and reassembly in \<open>udpDecoder.accept\<close>.

  A decoder is the map of its incomplete datagrams. The \<open>seen\<close> bit set keeps its 64 bits, \<open>remaining\<close>
  is a Go \<open>int\<close>. The connection under a \<open>framedUDP\<close> is a function from the frames written so far and
  the next frame to what \<open>Write\<close> returns.
\<close>

unbundle bit_operations_syntax

section \<open>Constants\<close>

definition MaxUDPDatagram :: nat where [size_defs]: "MaxUDPDatagram = 65507"
definition MaxUDPPayload :: nat where [size_defs]: "MaxUDPPayload = 1232"
definition UDPWirePacketLimit :: nat where [size_defs]: "UDPWirePacketLimit = 1200"
definition udpFrameHeader :: nat where [size_defs]: "udpFrameHeader = 16"
definition udpInnerIPLimit :: nat where
  [size_defs]: "udpInnerIPLimit = (UDPWirePacketLimit - 40 - 8 - 32) - (UDPWirePacketLimit - 40 - 8 - 32) mod 16"
definition udpFrameLimit :: nat where
  [size_defs]: "udpFrameLimit = min MaxUDPPayload (udpInnerIPLimit - 48)"
definition udpChunkSize :: nat where [size_defs]: "udpChunkSize = udpFrameLimit - udpFrameHeader"
definition udpMaxAssemblies :: nat where [size_defs]: "udpMaxAssemblies = 8"
definition udpAssemblyLifetime :: duration where "udpAssemblyLifetime = 2 * second"

section \<open>Frames\<close>

definition frag_count :: "nat \<Rightarrow> nat" where
  "frag_count n = (let count = (n + udpChunkSize - 1) div udpChunkSize in if count = 0 then 1 else count)"

definition chunk_len :: "nat \<Rightarrow> nat \<Rightarrow> nat" where
  "chunk_len n index = min udpChunkSize (n - index * udpChunkSize)"

definition udp_frame :: "nat \<Rightarrow> nat \<Rightarrow> nat \<Rightarrow> bytes \<Rightarrow> bytes" where
  "udp_frame fid n index payload =
     bytes_of ''QUD1'' @ be_put 8 fid @ be_put 2 n @ be_put 2 index @ payload"

record fragment =
  f_id :: nat
  f_size :: nat
  f_index :: nat
  f_payload :: bytes

definition parse_fragment :: "bytes \<Rightarrow> fragment option" where
  "parse_fragment frame =
     (if length frame < udpFrameHeader \<or> length frame > udpFrameLimit \<or> take 4 frame \<noteq> bytes_of ''QUD1''
      then None
      else
        (let fid = be_get (slice 4 12 frame); n = be_get (slice 12 14 frame);
             index = be_get (slice 14 16 frame) in
         if n > MaxUDPDatagram then None
         else if index \<ge> frag_count n then None
         else if length frame \<noteq> udpFrameHeader + chunk_len n index then None
         else Some \<lparr>f_id = fid, f_size = n, f_index = index, f_payload = drop udpFrameHeader frame\<rparr>))"

section \<open>Reassembly\<close>

record assembly =
  chunks :: "bytes list"
  a_size :: nat
  seen :: "64 word"
  remaining :: int
  expires :: gotime

type_synonym decoder = "(nat, assembly) gomap"

definition new_assembly :: "nat \<Rightarrow> gotime \<Rightarrow> assembly" where
  "new_assembly n now =
     \<lparr>chunks = replicate 64 [], a_size = n, seen = 0, remaining = int (frag_count n),
      expires = now + udpAssemblyLifetime\<rparr>"

definition scan_expires :: "nat \<times> gotime \<Rightarrow> nat \<times> assembly \<Rightarrow> nat \<times> gotime" where
  "scan_expires acc e = (if snd acc = 0 \<or> expires (snd e) < snd acc then (fst e, expires (snd e)) else acc)"

definition evict_assembly :: "decoder \<Rightarrow> decoder" where
  "evict_assembly d = AList.delete (fst (foldl scan_expires (0, 0) d)) d"

definition go_copy :: "bytes \<Rightarrow> nat \<Rightarrow> bytes \<Rightarrow> bytes" where
  "go_copy dst off src =
     (let n = min (length dst - off) (length src) in take off dst @ take n src @ drop (off + n) dst)"

fun assemble :: "bytes \<Rightarrow> nat \<Rightarrow> bytes list \<Rightarrow> bytes" where
  "assemble data i [] = data"
| "assemble data i (c # cs) =
     assemble (go_copy data (min (i * udpChunkSize) (length data)) c) (Suc i) cs"

definition drop_expired :: "gotime \<Rightarrow> decoder \<Rightarrow> decoder" where
  "drop_expired now d = filter (\<lambda>(k, p). now < expires p) d"

definition open_assembly :: "nat \<Rightarrow> nat \<Rightarrow> gotime \<Rightarrow> decoder \<Rightarrow> decoder" where
  "open_assembly fid n now d =
     (if fid \<in> mkeys d then d
      else AList.update fid (new_assembly n now) (if udpMaxAssemblies \<le> length d then evict_assembly d else d))"

definition add_chunk :: "fragment \<Rightarrow> assembly \<Rightarrow> assembly" where
  "add_chunk f p =
     p\<lparr>chunks := (chunks p)[f_index f := f_payload f], seen := seen p OR push_bit (f_index f) 1,
       remaining := remaining p - 1\<rparr>"

definition accept_fragment :: "fragment \<Rightarrow> gotime \<Rightarrow> decoder \<Rightarrow> decoder \<times> bytes option" where
  "accept_fragment f now d =
     (let d1 = open_assembly (f_id f) (f_size f) now d in
      case map_of d1 (f_id f) of None \<Rightarrow> (d1, None)
      | Some p \<Rightarrow>
        if a_size p \<noteq> f_size f then (d1, None)
        else if seen p AND push_bit (f_index f) 1 \<noteq> 0 then (d1, None)
        else
          (let q = add_chunk f p in
           if remaining q \<noteq> 0 then (AList.update (f_id f) q d1, None)
           else (AList.delete (f_id f) d1, Some (assemble (zeros (f_size f)) 0 (chunks q)))))"

definition accept :: "bytes \<Rightarrow> gotime \<Rightarrow> decoder \<Rightarrow> decoder \<times> bytes option" where
  "accept frame now d =
     (let d1 = drop_expired now d in
      case parse_fragment frame of None \<Rightarrow> (d1, None)
      | Some f \<Rightarrow>
        if frag_count (f_size f) = 1 then (d1, Some (f_payload f))
        else accept_fragment f now d1)"

section \<open>Writing and reading\<close>

datatype uerror = DatagramTooLarge | ConnFailed | ErrShortWrite | ErrShortBuffer

type_synonym conn_write = "bytes list \<Rightarrow> bytes \<Rightarrow> nat option"

record framedUDP =
  nextid :: "64 word"
  decoder :: decoder

fun write_chunks ::
  "conn_write \<Rightarrow> bytes \<Rightarrow> 64 word \<Rightarrow> nat \<Rightarrow> nat list \<Rightarrow> bytes list \<Rightarrow> bytes list \<times> (uerror + nat)" where
  "write_chunks wr packet fid n [] sent = (sent, Inr n)"
| "write_chunks wr packet fid n (index # is) sent =
     (let frame = udp_frame (unat fid) n index
                    (take (udpFrameLimit - udpFrameHeader) (drop (index * udpChunkSize) packet)) in
      case wr sent frame of None \<Rightarrow> (sent @ [frame], Inl ConnFailed)
      | Some written \<Rightarrow>
        if written \<noteq> length frame then (sent @ [frame], Inl ErrShortWrite)
        else write_chunks wr packet fid n is (sent @ [frame]))"

definition Write :: "conn_write \<Rightarrow> framedUDP \<Rightarrow> bytes \<Rightarrow> framedUDP \<times> bytes list \<times> (uerror + nat)" where
  "Write wr c packet =
     (if length packet > MaxUDPDatagram then (c, [], Inl DatagramTooLarge)
      else
        (let c1 = c\<lparr>nextid := nextid c + 1\<rparr> in
         (c1, write_chunks wr packet (nextid c1) (length packet) [0..<frag_count (length packet)] [])))"

text \<open>
  \<open>Read\<close> consumes what the connection delivers: a list of frames with their arrival times, \<open>None\<close> for
  a failing read. It returns the unread rest too; on an exhausted list it is still waiting.
\<close>

fun Read ::
  "nat \<Rightarrow> framedUDP \<Rightarrow> (bytes \<times> gotime) option list
   \<Rightarrow> framedUDP \<times> (bytes \<times> gotime) option list \<times> (uerror + bytes) option" where
  "Read cap c [] = (c, [], None)"
| "Read cap c (None # ins) = (c\<lparr>decoder := []\<rparr>, ins, Some (Inl ConnFailed))"
| "Read cap c (Some (frame, now) # ins) =
     (let (d, out) = accept (take (udpFrameLimit + 1) frame) now (decoder c); c1 = c\<lparr>decoder := d\<rparr> in
      case out of None \<Rightarrow> Read cap c1 ins
      | Some packet \<Rightarrow>
        if cap < length packet then (c1, ins, Some (Inl ErrShortBuffer)) else (c1, ins, Some (Inr packet)))"

section \<open>Sizes\<close>

lemma udp_sizes [simp]:
  "udpChunkSize = 1056" "udpFrameLimit = 1072" "udpFrameHeader = 16" "MaxUDPDatagram = 65507"
  "udpMaxAssemblies = 8"
  by (simp_all add: size_defs)

lemma frag_count_eq: "frag_count n = max 1 ((n + 1055) div 1056)"
  by (auto simp: frag_count_def Let_def max_def)

lemma frag_count_le: "n \<le> 65507 \<Longrightarrow> frag_count n \<le> 63"
  by (simp add: frag_count_eq)

lemma frag_count_pos [simp]: "0 < frag_count n" "frag_count n \<noteq> 0"
  by (simp_all add: frag_count_eq)

lemma frag_count_covers: "n \<le> frag_count n * 1056"
  by (simp add: frag_count_eq max_def) linarith

lemma frag_count_tight: "i < frag_count n \<Longrightarrow> i * 1056 \<le> n"
  by (auto simp: frag_count_eq less_max_iff_disj)

lemma chunk_len_beyond: "frag_count n \<le> i \<Longrightarrow> chunk_len n i = 0"
  using frag_count_covers [of n] mult_le_mono1 [of "frag_count n" i 1056]
  by (simp add: chunk_len_def)

lemma chunk_len_le: "chunk_len n i \<le> 1056"
  by (simp add: chunk_len_def)

section \<open>The fragment codec\<close>

definition fragment_ok :: "fragment \<Rightarrow> bool" where
  "fragment_ok f \<longleftrightarrow> f_id f < 2 ^ 64 \<and> f_size f \<le> 65507 \<and> f_index f < frag_count (f_size f) \<and>
     length (f_payload f) = chunk_len (f_size f) (f_index f)"

definition frame_of :: "fragment \<Rightarrow> bytes" where
  "frame_of f = udp_frame (f_id f) (f_size f) (f_index f) (f_payload f)"

lemma udp_frame_parts:
  "length (udp_frame i n k p) = 16 + length p" "take 4 (udp_frame i n k p) = bytes_of ''QUD1''"
  "slice 4 12 (udp_frame i n k p) = be_put 8 i" "slice 12 14 (udp_frame i n k p) = be_put 2 n"
  "slice 14 16 (udp_frame i n k p) = be_put 2 k" "drop 16 (udp_frame i n k p) = p"
  by (simp_all add: udp_frame_def slice_def)

lemma frame_split:
  assumes "16 \<le> length b"
  shows "b = take 4 b @ slice 4 12 b @ slice 12 14 b @ slice 14 16 b @ drop 16 b"
proof -
  have "slice 4 12 b @ slice 12 14 b = slice 4 14 b" "slice 4 14 b @ slice 14 16 b = slice 4 16 b"
    by (rule slice_split; simp)+
  moreover have "take 4 b @ slice 4 16 b = take 16 b"
    using slice_split [of 0 4 16 b] by (simp add: slice_def)
  ultimately show ?thesis by (metis append_assoc append_take_drop_id)
qed

interpretation fragment_codec: canonical_codec fragment_ok frame_of parse_fragment
proof
  fix f
  assume ok: "fragment_ok f"
  have "f_index f \<le> 63" using ok frag_count_le [of "f_size f"] by (simp add: fragment_ok_def)
  then have "be_get (be_put 2 (f_index f)) = f_index f" "be_get (be_put 2 (f_size f)) = f_size f"
    "be_get (be_put 8 (f_id f)) = f_id f"
    using ok by (simp_all add: be_get_be_put fragment_ok_def)
  then show "parse_fragment (frame_of f) = Some f"
    using ok chunk_len_le [of "f_size f" "f_index f"]
    by (simp add: parse_fragment_def frame_of_def udp_frame_parts fragment_ok_def)
next
  fix b f
  assume p: "parse_fragment b = Some f"
  then have len: "16 \<le> length b" and q: "take 4 b = bytes_of ''QUD1''"
    and f: "f = \<lparr>f_id = be_get (slice 4 12 b), f_size = be_get (slice 12 14 b),
      f_index = be_get (slice 14 16 b), f_payload = drop 16 b\<rparr>"
    and ok: "f_size f \<le> 65507" "f_index f < frag_count (f_size f)"
      "length b = 16 + chunk_len (f_size f) (f_index f)"
    by (auto simp: parse_fragment_def Let_def split: if_splits)
  have l: "length (slice 4 12 b) = 8" "length (slice 12 14 b) = 2" "length (slice 14 16 b) = 2"
    using len by simp_all
  have "be_put 8 (be_get (slice 4 12 b)) = slice 4 12 b" "be_put 2 (be_get (slice 12 14 b)) = slice 12 14 b"
    "be_put 2 (be_get (slice 14 16 b)) = slice 14 16 b"
    using be_put_be_get [of "slice 4 12 b"] be_put_be_get [of "slice 12 14 b"]
      be_put_be_get [of "slice 14 16 b"] by (simp_all only: l)
  then have "frame_of f = take 4 b @ slice 4 12 b @ slice 12 14 b @ slice 14 16 b @ drop 16 b"
    using q by (simp add: frame_of_def f udp_frame_def)
  then have "frame_of f = b" by (rule trans [OF _ frame_split [OF len, symmetric]])
  moreover have "f_id f < 2 ^ 64" using be_get_lt [of "slice 4 12 b"] l(1) by (simp add: f)
  moreover have "f_payload f = drop 16 b" by (simp add: f)
  ultimately show "fragment_ok f \<and> frame_of f = b"
    using ok by (simp add: fragment_ok_def)
qed

section \<open>Reassembling chunks\<close>

definition pieces :: "nat \<Rightarrow> nat \<Rightarrow> bytes list \<Rightarrow> bool" where
  "pieces n i cs \<longleftrightarrow> (\<forall>j < length cs. length (cs ! j) = chunk_len n (i + j))"

lemma pieces_Cons: "pieces n i (c # cs) \<longleftrightarrow> length c = chunk_len n i \<and> pieces n (Suc i) cs"
  by (auto simp: pieces_def nth_Cons split: nat.splits)

lemma go_copy_chunk:
  assumes "length data = n" "length c = chunk_len n i"
  shows "go_copy data (min (i * 1056) n) c = take (i * 1056) data @ c @ drop (Suc i * 1056) data"
proof (cases "Suc i * 1056 \<le> n")
  case True
  with assms show ?thesis by (simp add: go_copy_def chunk_len_def Let_def add.commute)
next
  case False
  with assms show ?thesis by (auto simp: go_copy_def chunk_len_def Let_def min_def)
qed

lemma assemble_pieces:
  "length data = n \<Longrightarrow> pieces n i cs \<Longrightarrow>
   assemble data i cs = take (i * 1056) data @ concat cs @ drop ((i + length cs) * 1056) data"
proof (induction cs arbitrary: data i)
  case (Cons c cs)
  have c: "length c = chunk_len n i" and cs: "pieces n (Suc i) cs"
    using Cons.prems(2) by (simp_all add: pieces_Cons)
  let ?d = "take (i * 1056) data @ c @ drop (Suc i * 1056) data"
  have len: "length ?d = n" using Cons.prems(1) c by (auto simp: chunk_len_def min_def)
  have "assemble data i (c # cs) = assemble ?d (Suc i) cs"
    using go_copy_chunk [OF Cons.prems(1) c] Cons.prems(1) by simp
  also have "\<dots> = take (Suc i * 1056) ?d @ concat cs @ drop ((Suc i + length cs) * 1056) ?d"
    by (rule Cons.IH [OF len cs])
  also have "take (Suc i * 1056) ?d = take (i * 1056) data @ c"
    using Cons.prems(1) c by (auto simp: chunk_len_def min_def)
  also have "drop ((Suc i + length cs) * 1056) ?d = drop ((i + length (c # cs)) * 1056) data"
    using Cons.prems(1) c by (auto simp: chunk_len_def min_def algebra_simps)
  finally show ?case by simp
qed simp

lemma assemble_concat:
  assumes "pieces n 0 cs" "frag_count n \<le> length cs"
  shows "assemble (zeros n) 0 cs = concat cs"
  using assemble_pieces [of "zeros n" n 0 cs] assms frag_count_covers [of n]
  by (simp add: order.trans [OF frag_count_covers])

lemma length_concat_pieces:
  "pieces n i cs \<Longrightarrow> length (concat cs) = min (n - i * 1056) (length cs * 1056)"
proof (induction cs arbitrary: i)
  case (Cons c cs)
  obtain x where x: "length (concat cs) = x" by blast
  have "x = min (n - Suc i * 1056) (length cs * 1056)" "length c = chunk_len n i"
    using Cons x by (auto simp: pieces_Cons)
  with x show ?case by (auto simp: chunk_len_def min_def)
qed simp

lemma slice_concat_pieces:
  "pieces n i cs \<Longrightarrow> j < length cs \<Longrightarrow> slice (j * 1056) (j * 1056 + 1056) (concat cs) = cs ! j"
proof (induction cs arbitrary: i j)
  case (Cons c cs)
  have c: "length c = chunk_len n i" and cs: "pieces n (Suc i) cs"
    using Cons.prems(1) by (simp_all add: pieces_Cons)
  show ?case
  proof (cases "length c = 1056")
    case True
    show ?thesis
    proof (cases j)
      case 0
      with True show ?thesis by (simp add: slice_def)
    next
      case (Suc k)
      with True Cons.IH [OF cs, of k] Cons.prems(2) show ?thesis by (simp add: slice_def add.commute)
    qed
  next
    case False
    then have "n - Suc i * 1056 = 0" using c by (auto simp: chunk_len_def min_def split: if_splits)
    then have nil: "concat cs = []" using length_concat_pieces [OF cs] by (simp del: concat_eq_Nil_conv)
    have le: "length c \<le> 1056" using c chunk_len_le by simp
    show ?thesis
    proof (cases j)
      case 0
      with nil le show ?thesis by (simp add: slice_def)
    next
      case (Suc k)
      then have "cs ! k = []" using nil Cons.prems(2) by simp
      with Suc nil le show ?thesis by (simp add: slice_def del: concat_eq_Nil_conv)
    qed
  qed
qed simp

section \<open>The decoder's invariant\<close>

definition got :: "assembly \<Rightarrow> nat set" where
  "got p = {i. bit (seen p) i}"

text \<open>
  An incomplete datagram: the bits of \<open>seen\<close> are the indices whose chunk is stored, each stored chunk
  came in a fragment of the same datagram, and \<open>remaining\<close> counts the missing ones.
\<close>

definition asm_ok :: "fragment set \<Rightarrow> nat \<Rightarrow> assembly \<Rightarrow> bool" where
  "asm_ok H fid p \<longleftrightarrow> length (chunks p) = 64 \<and> a_size p \<le> 65507 \<and> got p \<subseteq> {..< frag_count (a_size p)} \<and>
     (\<forall>i < 64. if i \<in> got p
        then \<lparr>f_id = fid, f_size = a_size p, f_index = i, f_payload = chunks p ! i\<rparr> \<in> H \<and>
             length (chunks p ! i) = chunk_len (a_size p) i
        else chunks p ! i = []) \<and>
     remaining p = int (frag_count (a_size p) - card (got p)) \<and> 0 < remaining p"

definition dec_ok :: "fragment set \<Rightarrow> decoder \<Rightarrow> bool" where
  "dec_ok H d \<longleftrightarrow> mdistinct d \<and> (\<forall>(k, p) \<in> set d. asm_ok H k p)"

lemma asm_ok_mono: "asm_ok H k p \<Longrightarrow> H \<subseteq> H' \<Longrightarrow> asm_ok H' k p"
  by (fastforce simp: asm_ok_def)

lemma dec_ok_mono: "dec_ok H d \<Longrightarrow> H \<subseteq> H' \<Longrightarrow> dec_ok H' d"
  using asm_ok_mono by (fastforce simp: dec_ok_def)

lemma dec_ok_filter: "dec_ok H d \<Longrightarrow> dec_ok H (filter P d)"
  by (auto simp: dec_ok_def mdistinct_filter)

lemma dec_ok_delete: "dec_ok H d \<Longrightarrow> dec_ok H (AList.delete k d)"
  by (simp add: AList.delete_eq dec_ok_filter)

lemma dec_ok_update: "dec_ok H d \<Longrightarrow> asm_ok H k p \<Longrightarrow> dec_ok H (AList.update k p d)"
  using set_update_subset [of k p d] by (auto simp: dec_ok_def AList.distinct_update)

lemma asm_ok_new: "n \<le> 65507 \<Longrightarrow> asm_ok H k (new_assembly n now)"
  by (simp add: asm_ok_def new_assembly_def got_def)

lemma scan_expires_key: "fst (foldl scan_expires acc d) \<in> insert (fst acc) (mkeys d)"
  by (induction d arbitrary: acc) (force simp: scan_expires_def)+

lemma scan_expires_table: "d \<noteq> [] \<Longrightarrow> fst (foldl scan_expires (k, 0) d) \<in> mkeys d"
  using scan_expires_key [of "scan_expires (k, 0) (hd d)" "tl d"]
  by (cases d) (auto simp: scan_expires_def)

lemma length_evict_assembly:
  "mdistinct d \<Longrightarrow> d \<noteq> [] \<Longrightarrow> length (evict_assembly d) < length d"
  using length_delete_member [OF _ scan_expires_table [of d 0]] by (force simp: evict_assembly_def)

lemma set_evict_assembly: "set (evict_assembly d) \<subseteq> set d"
  by (auto simp: evict_assembly_def set_delete_eq)

text \<open>The decoder is a table of at most eight datagrams.\<close>

interpretation assembly_table: bounded_table "dec_ok H" evict_assembly "\<lambda>p. \<forall>k. asm_ok H k p" 8 for H
proof
  show "length (evict_assembly m) < length m" if "dec_ok H m" "m \<noteq> []" for m
    using that length_evict_assembly by (simp add: dec_ok_def)
  show "dec_ok H (evict_assembly m)" if "dec_ok H m" for m
    using that by (simp add: evict_assembly_def dec_ok_delete)
qed (auto simp: set_evict_assembly dec_ok_update)

lemma open_assembly_ok:
  assumes "dec_ok H d" "length d \<le> 8" "n \<le> 65507"
  shows "dec_ok H (open_assembly k n now d)" "length (open_assembly k n now d) \<le> 8"
  using assms assembly_table.capped_insert_length [OF assms(1,2), of k "new_assembly n now"]
    assembly_table.capped_insert_invar [OF assms(1), of "new_assembly n now" k "8 \<le> length d"] asm_ok_new
  by (auto simp: open_assembly_def)

lemma open_assembly_member: "\<exists>p. map_of (open_assembly k n now d) k = Some p"
proof (cases "k \<in> mkeys d")
  case True
  then show ?thesis using map_of_in_mkeys [of d k] by (simp add: open_assembly_def)
qed (simp add: open_assembly_def AList.update_conv')

lemma seen_test: "i < 64 \<Longrightarrow> (w :: 64 word) AND push_bit i 1 \<noteq> 0 \<longleftrightarrow> bit w i"
  by (simp add: push_bit_of_1 and_exp_eq_0_iff_not_bit)

lemma got_add_chunk: "f_index f < 64 \<Longrightarrow> got (add_chunk f p) = insert (f_index f) (got p)"
  by (auto simp: got_def add_chunk_def bit_simps)

lemma add_chunk_simps [simp]:
  "chunks (add_chunk f p) = (chunks p)[f_index f := f_payload f]" "a_size (add_chunk f p) = a_size p"
  "remaining (add_chunk f p) = remaining p - 1"
  by (simp_all add: add_chunk_def)

lemma asm_ok_chunk:
  assumes "asm_ok H k p" "i < 64"
  shows "i \<in> got p \<Longrightarrow> \<lparr>f_id = k, f_size = a_size p, f_index = i, f_payload = chunks p ! i\<rparr> \<in> H \<and>
      length (chunks p ! i) = chunk_len (a_size p) i"
    "i \<notin> got p \<Longrightarrow> chunks p ! i = []"
  using assms by (auto simp: asm_ok_def)

lemma asm_ok_shape:
  assumes "asm_ok H k p"
  shows "length (chunks p) = 64" "a_size p \<le> 65507" "got p \<subseteq> {..< frag_count (a_size p)}"
    "remaining p = int (frag_count (a_size p) - card (got p))" "0 < remaining p"
  using assms by (auto simp: asm_ok_def)

lemma asm_ok_add:
  assumes p: "asm_ok H (f_id f) p" "a_size p = f_size f" and f: "fragment_ok f"
    and new: "f_index f \<notin> got p"
  shows "(remaining (add_chunk f p) \<noteq> 0 \<longrightarrow> asm_ok (insert f H) (f_id f) (add_chunk f p)) \<and>
    (remaining (add_chunk f p) = 0 \<longrightarrow> got (add_chunk f p) = {..< frag_count (f_size f)})"
proof -
  let ?q = "add_chunk f p" and ?n = "frag_count (f_size f)"
  have i: "f_index f < ?n" "f_index f < 64" using f frag_count_le [of "f_size f"] by (auto simp: fragment_ok_def)
  have got: "got ?q = insert (f_index f) (got p)" by (rule got_add_chunk [OF i(2)])
  have sub: "got p \<subseteq> {..< ?n}" "got ?q \<subseteq> {..< ?n}" using p i(1) got by (auto simp: asm_ok_def)
  have fin: "finite (got p)" using sub(1) finite_subset by blast
  have card: "card (got ?q) = Suc (card (got p))" using new fin got by simp
  have le: "card (got ?q) \<le> ?n" using card_mono [OF _ sub(2)] by simp
  have rem: "remaining ?q = int (?n - card (got ?q))"
    using asm_ok_shape(4) [OF p(1)] p(2) card le by (simp add: of_nat_diff)
  have len: "length (chunks ?q) = 64" using asm_ok_shape(1) [OF p(1)] by simp
  have entry: "if k \<in> got ?q
      then \<lparr>f_id = f_id f, f_size = a_size ?q, f_index = k, f_payload = chunks ?q ! k\<rparr> \<in> insert f H \<and>
           length (chunks ?q ! k) = chunk_len (a_size ?q) k
      else chunks ?q ! k = []" if k: "k < 64" for k
  proof (cases "k = f_index f")
    case True
    with got k p(2) f asm_ok_shape(1) [OF p(1)] show ?thesis by (simp add: fragment_ok_def)
  next
    case False
    with got asm_ok_chunk [OF p(1) k] show ?thesis by auto
  qed
  have "asm_ok (insert f H) (f_id f) ?q" if "remaining ?q \<noteq> 0"
    unfolding asm_ok_def
  proof (intro conjI)
    show "\<forall>k < 64. if k \<in> got ?q
      then \<lparr>f_id = f_id f, f_size = a_size ?q, f_index = k, f_payload = chunks ?q ! k\<rparr> \<in> insert f H \<and>
           length (chunks ?q ! k) = chunk_len (a_size ?q) k
      else chunks ?q ! k = []"
      using entry by blast
    show "a_size ?q \<le> 65507" using asm_ok_shape(2) [OF p(1)] by simp
    show "0 < remaining ?q" using that asm_ok_shape(5) [OF p(1)] by simp
    show "remaining ?q = int (frag_count (a_size ?q) - card (got ?q))" using rem p(2) by simp
  qed (use len sub(2) p(2) in simp_all)
  moreover have "got ?q = {..< ?n}" if "remaining ?q = 0"
    using that rem le sub(2) by (intro card_subset_eq) auto
  ultimately show ?thesis by blast
qed

text \<open>A datagram is whole when every one of its fragments is among those received.\<close>

definition whole :: "fragment set \<Rightarrow> nat \<Rightarrow> bytes \<Rightarrow> bool" where
  "whole H fid data \<longleftrightarrow> length data \<le> 65507 \<and> (\<forall>i < frag_count (length data).
     \<lparr>f_id = fid, f_size = length data, f_index = i,
      f_payload = slice (i * 1056) (i * 1056 + 1056) data\<rparr> \<in> H)"

lemma add_chunk_complete:
  assumes p: "asm_ok H (f_id f) p" "a_size p = f_size f" and f: "fragment_ok f"
    and all: "got (add_chunk f p) = {..< frag_count (f_size f)}"
  shows "whole (insert f H) (f_id f) (assemble (zeros (f_size f)) 0 (chunks (add_chunk f p)))"
proof -
  let ?cs = "chunks (add_chunk f p)" and ?n = "frag_count (f_size f)"
  have i: "f_index f < ?n" "?n \<le> 63" using f frag_count_le [of "f_size f"] by (auto simp: fragment_ok_def)
  have got: "got (add_chunk f p) = insert (f_index f) (got p)" using i by (intro got_add_chunk) simp
  have len: "length ?cs = 64" using asm_ok_shape(1) [OF p(1)] by simp
  have stored: "\<lparr>f_id = f_id f, f_size = f_size f, f_index = k, f_payload = ?cs ! k\<rparr> \<in> insert f H \<and>
      length (?cs ! k) = chunk_len (f_size f) k" if "k < ?n" for k
  proof (cases "k = f_index f")
    case True
    with f i len show ?thesis by (simp add: fragment_ok_def)
  next
    case False
    then have "k \<in> got p" using all got that by blast
    with False asm_ok_chunk(1) [OF p(1), of k] p(2) i(2) that show ?thesis by simp
  qed
  have pcs: "pieces (f_size f) 0 ?cs"
  proof -
    have "length (?cs ! k) = chunk_len (f_size f) k" if "k < 64" for k
    proof (cases "k < ?n")
      case False
      then have "k \<notin> got p" "k \<noteq> f_index f" using all got i by auto
      then have "?cs ! k = []" using asm_ok_chunk(2) [OF p(1) that] by simp
      with False show ?thesis by (simp add: chunk_len_beyond)
    qed (use stored in blast)
    then show ?thesis using len by (simp add: pieces_def)
  qed
  have data: "assemble (zeros (f_size f)) 0 ?cs = concat ?cs"
    using pcs i(2) len by (intro assemble_concat) simp_all
  have size: "length (concat ?cs) = f_size f"
    using length_concat_pieces [OF pcs] len f by (simp add: fragment_ok_def)
  have "slice (k * 1056) (k * 1056 + 1056) (concat ?cs) = ?cs ! k" if "k < ?n" for k
    using that i(2) len by (intro slice_concat_pieces [OF pcs]) simp
  then show ?thesis
    using stored size data f by (simp add: whole_def fragment_ok_def)
qed

lemma whole_single:
  assumes "fragment_ok f" "frag_count (f_size f) = 1"
  shows "whole (insert f H) (f_id f) (f_payload f)"
proof -
  have i: "f_index f = 0" using assms by (simp add: fragment_ok_def)
  have "f_size f \<le> 1056" using frag_count_covers [of "f_size f"] assms(2) by simp
  then have len: "length (f_payload f) = f_size f" using assms(1) i by (simp add: fragment_ok_def chunk_len_def)
  with \<open>f_size f \<le> 1056\<close> assms i show ?thesis by (simp add: whole_def slice_def fragment_ok_def)
qed

lemma accept_fragment_ok:
  assumes d: "dec_ok H d" "length d \<le> 8" and f: "fragment_ok f"
    and res: "accept_fragment f now d = (d', out)"
  shows "dec_ok (insert f H) d' \<and> length d' \<le> 8 \<and> (\<forall>data. out = Some data \<longrightarrow> whole (insert f H) (f_id f) data)"
proof -
  let ?d = "open_assembly (f_id f) (f_size f) now d"
  have sz: "f_size f \<le> 65507" "f_index f < 64"
    using f frag_count_le [of "f_size f"] by (auto simp: fragment_ok_def)
  have dd: "dec_ok H ?d" "length ?d \<le> 8" using open_assembly_ok [OF d sz(1)] by simp_all
  obtain p where p: "map_of ?d (f_id f) = Some p" using open_assembly_member by blast
  have ok: "asm_ok H (f_id f) p" using dd(1) map_of_SomeD [OF p] by (auto simp: dec_ok_def)
  have mono: "dec_ok (insert f H) ?d" using dec_ok_mono [OF dd(1)] by blast
  have eq: "accept_fragment f now d =
      (if a_size p \<noteq> f_size f \<or> f_index f \<in> got p then (?d, None)
       else if remaining (add_chunk f p) \<noteq> 0 then (AList.update (f_id f) (add_chunk f p) ?d, None)
       else (AList.delete (f_id f) ?d, Some (assemble (zeros (f_size f)) 0 (chunks (add_chunk f p)))))"
    by (simp add: accept_fragment_def Let_def got_def p seen_test [OF sz(2)] del: push_bit_of_1)
  show ?thesis
  proof (cases "a_size p = f_size f \<and> f_index f \<notin> got p")
    case False
    with eq res mono dd show ?thesis by auto
  next
    case True
    note add = asm_ok_add [OF ok _ f]
    have len: "length (AList.update (f_id f) (add_chunk f p) ?d) = length ?d"
      using map_of_SomeD [OF p] by (force simp: length_update)
    show ?thesis
    proof (cases "remaining (add_chunk f p) = 0")
      case False
      with eq res add True mono len dd(2) show ?thesis by (auto intro: dec_ok_update)
    next
      case fin: True
      with eq res True add have "out = Some (assemble (zeros (f_size f)) 0 (chunks (add_chunk f p)))"
        "d' = AList.delete (f_id f) ?d" "got (add_chunk f p) = {..< frag_count (f_size f)}" by auto
      with add_chunk_complete [OF ok _ f] True mono dd(2) show ?thesis
        by (auto intro: dec_ok_delete order.trans [OF length_delete_le'])
    qed
  qed
qed

lemma accept_ok:
  assumes "dec_ok H d" "length d \<le> 8" "accept b now d = (d', out)"
  shows "dec_ok (H \<union> set_option (parse_fragment b)) d' \<and> length d' \<le> 8 \<and>
    (\<forall>data. out = Some data \<longrightarrow> (\<exists>fid. whole (H \<union> set_option (parse_fragment b)) fid data))"
proof -
  have d: "dec_ok H (drop_expired now d)" "length (drop_expired now d) \<le> 8"
    using assms(1,2) by (auto simp: drop_expired_def dec_ok_filter intro: order.trans [OF length_filter_le])
  show ?thesis
  proof (cases "parse_fragment b")
    case None
    with assms(3) d show ?thesis by (auto simp: accept_def)
  next
    case (Some f)
    then have f: "fragment_ok f" using fragment_codec.enc_dec by blast
    show ?thesis
    proof (cases "frag_count (f_size f) = 1")
      case True
      with Some assms(3) have "d' = drop_expired now d" "out = Some (f_payload f)" by (auto simp: accept_def)
      with d whole_single [OF f True] dec_ok_mono [OF d(1), of "insert f H"] Some show ?thesis by auto
    next
      case False
      with Some assms(3) have "accept_fragment f now (drop_expired now d) = (d', out)"
        by (simp add: accept_def Let_def)
      from accept_fragment_ok [OF d f this] Some show ?thesis by auto
    qed
  qed
qed

section \<open>Runs of a decoder\<close>

fun accept_all :: "decoder \<Rightarrow> (bytes \<times> gotime) list \<Rightarrow> decoder \<times> bytes list" where
  "accept_all d [] = (d, [])"
| "accept_all d ((b, now) # ins) =
     (let (d1, out) = accept b now d; (d2, outs) = accept_all d1 ins in
      (d2, (case out of None \<Rightarrow> [] | Some data \<Rightarrow> [data]) @ outs))"

lemma accept_all_ok:
  assumes "dec_ok H d" "length d \<le> 8" "accept_all d ins = (d', outs)"
  shows "dec_ok (H \<union> (\<Union>b \<in> fst ` set ins. set_option (parse_fragment b))) d' \<and> length d' \<le> 8 \<and>
    (\<forall>data \<in> set outs. \<exists>fid. whole (H \<union> (\<Union>b \<in> fst ` set ins. set_option (parse_fragment b))) fid data)"
  using assms
proof (induction ins arbitrary: H d d' outs)
  case (Cons a ins)
  obtain b now where a: "a = (b, now)" by fastforce
  obtain d1 out where acc: "accept b now d = (d1, out)" by fastforce
  obtain outs' where rest: "accept_all d1 ins = (d', outs')"
    and outs: "outs = (case out of None \<Rightarrow> [] | Some data \<Rightarrow> [data]) @ outs'"
    using Cons.prems(3) by (auto simp: a acc split: prod.splits)
  let ?H = "H \<union> set_option (parse_fragment b)"
  let ?all = "H \<union> (\<Union>b \<in> fst ` set (a # ins). set_option (parse_fragment b))"
  note first = accept_ok [OF Cons.prems(1,2) acc]
  have eq: "?H \<union> (\<Union>b \<in> fst ` set ins. set_option (parse_fragment b)) = ?all" using a by auto
  have mono: "whole ?H fid data \<Longrightarrow> whole ?all fid data" for fid data
    using a by (auto simp: whole_def)
  from Cons.IH [of ?H d1 d' outs'] first rest have
    "dec_ok ?all d' \<and> length d' \<le> 8 \<and> (\<forall>data \<in> set outs'. \<exists>fid. whole ?all fid data)"
    unfolding eq by blast
  with first mono outs show ?case by (auto split: option.splits)
qed (auto simp: dec_ok_mono)

section \<open>Round trip\<close>

definition packet_fragment :: "nat \<Rightarrow> bytes \<Rightarrow> nat \<Rightarrow> fragment" where
  "packet_fragment fid packet i =
     \<lparr>f_id = fid, f_size = length packet, f_index = i,
      f_payload = slice (i * 1056) (i * 1056 + 1056) packet\<rparr>"

lemma packet_fragment_simps [simp]:
  "f_id (packet_fragment fid packet i) = fid" "f_size (packet_fragment fid packet i) = length packet"
  "f_index (packet_fragment fid packet i) = i"
  "f_payload (packet_fragment fid packet i) = slice (i * 1056) (i * 1056 + 1056) packet"
  by (simp_all add: packet_fragment_def)

lemma packet_fragment_ok:
  "fid < 2 ^ 64 \<Longrightarrow> length packet \<le> 65507 \<Longrightarrow> i < frag_count (length packet) \<Longrightarrow>
   fragment_ok (packet_fragment fid packet i)"
  by (simp add: fragment_ok_def packet_fragment_def chunk_len_def min.commute)

lemma whole_unique:
  assumes "whole (packet_fragment fid packet ` I) fid' data" 
  shows "data = packet"
proof -
  have f: "\<lparr>f_id = fid', f_size = length data, f_index = i,
      f_payload = slice (i * 1056) (i * 1056 + 1056) data\<rparr> \<in> packet_fragment fid packet ` I"
    if "i < frag_count (length data)" for i
    using assms that by (simp add: whole_def)
  have len: "length data = length packet" using f [of 0] by (auto simp: packet_fragment_def)
  have sl: "slice (i * 1056) (i * 1056 + 1056) data = slice (i * 1056) (i * 1056 + 1056) packet"
    if "i < frag_count (length data)" for i
    using f [OF that] by (auto simp: packet_fragment_def)
  have "take (k * 1056) data = take (k * 1056) packet" if "k \<le> frag_count (length data)" for k
    using that
  proof (induction k)
    case (Suc k)
    have "take (k * 1056) data @ slice (k * 1056) (k * 1056 + 1056) data =
        take (k * 1056) packet @ slice (k * 1056) (k * 1056 + 1056) packet"
      using Suc sl [of k] by simp
    then show ?case
      using take_add [of "k * 1056" 1056 data] take_add [of "k * 1056" 1056 packet]
      by (simp add: slice_def add.commute)
  qed simp
  from this [of "frag_count (length data)"] frag_count_covers [of "length data"] len
  show ?thesis by simp
qed

text \<open>
  The state of one datagram in a decoder: the fragments of \<open>S\<close> have arrived, and the assembly lives
  beyond \<open>T\<close>.
\<close>

definition partial :: "nat \<Rightarrow> bytes \<Rightarrow> nat set \<Rightarrow> gotime \<Rightarrow> decoder \<Rightarrow> bool" where
  "partial fid packet S T d \<longleftrightarrow> mdistinct d \<and>
     (if S = {} then fid \<notin> mkeys d
      else \<exists>p. map_of d fid = Some p \<and> asm_ok (packet_fragment fid packet ` S) fid p \<and>
             a_size p = length packet \<and> got p = S \<and> T < expires p)"

lemma mdistinct_accept: "mdistinct d \<Longrightarrow> mdistinct (fst (accept b now d))"
proof -
  have "mdistinct (fst (accept_fragment f now d))" if "mdistinct d" for f d
    using that
    by (auto simp: accept_fragment_def Let_def open_assembly_def evict_assembly_def AList.distinct_update
        AList.distinct_delete split: option.splits)
  then show "mdistinct d \<Longrightarrow> mdistinct (fst (accept b now d))"
    by (auto simp: accept_def Let_def drop_expired_def mdistinct_filter split: option.splits)
qed

lemma partial_drop_expired:
  "partial fid packet S T d \<Longrightarrow> now \<le> T \<Longrightarrow> partial fid packet S T (drop_expired now d)"
proof (cases "S = {}")
  case True
  then show "partial fid packet S T d \<Longrightarrow> partial fid packet S T (drop_expired now d)"
    by (auto simp: partial_def drop_expired_def mdistinct_filter image_iff)
next
  case False
  then show "partial fid packet S T d \<Longrightarrow> now \<le> T \<Longrightarrow> partial fid packet S T (drop_expired now d)"
    by (auto simp: partial_def drop_expired_def mdistinct_filter map_of_eq_Some_iff)
qed

lemma partial_open:
  assumes "partial fid packet S T d" "T < now + udpAssemblyLifetime" "length packet \<le> 65507"
  obtains p where "map_of (open_assembly fid (length packet) now d) fid = Some p"
    "asm_ok (packet_fragment fid packet ` S) fid p" "a_size p = length packet" "got p = S" "T < expires p"
proof (cases "S = {}")
  case True
  then have "map_of (open_assembly fid (length packet) now d) fid = Some (new_assembly (length packet) now)"
    using assms(1) by (simp add: partial_def open_assembly_def AList.update_conv')
  with True assms(2,3) show thesis
    by (intro that [of "new_assembly (length packet) now"])
      (auto simp: asm_ok_new, simp_all add: new_assembly_def got_def)
next
  case False
  then obtain p where "map_of d fid = Some p" "asm_ok (packet_fragment fid packet ` S) fid p"
    "a_size p = length packet" "got p = S" "T < expires p"
    using assms(1) unfolding partial_def by (metis (no_types))
  moreover from this(1) have "fid \<in> mkeys d" by (force dest: map_of_SomeD)
  ultimately show thesis by (intro that) (simp_all add: open_assembly_def)
qed

lemma expires_add_chunk [simp]: "expires (add_chunk f p) = expires p"
  by (simp add: add_chunk_def)

lemma accept_step:
  assumes pt: "partial fid packet S T d" and fid: "fid < 2 ^ 64" and len: "length packet \<le> 65507"
    and i: "i < frag_count (length packet)" "i \<notin> S" and multi: "frag_count (length packet) \<noteq> 1"
    and time: "now \<le> T" "T < now + udpAssemblyLifetime"
    and res: "accept (frame_of (packet_fragment fid packet i)) now d = (d', out)"
  shows "if insert i S = {..< frag_count (length packet)} then out = Some packet \<and> partial fid packet {} T d'
    else out = None \<and> partial fid packet (insert i S) T d'"
proof -
  let ?f = "packet_fragment fid packet i" and ?d = "drop_expired now d"
  let ?o = "open_assembly fid (length packet) now ?d"
  have fok: "fragment_ok ?f" by (rule packet_fragment_ok [OF fid len i(1)])
  have f: "f_id ?f = fid" "f_size ?f = length packet" "f_index ?f = i" by (simp_all add: packet_fragment_def)
  have i64: "i < 64" using i(1) frag_count_le [OF len] by simp
  obtain p where p: "map_of ?o fid = Some p" "asm_ok (packet_fragment fid packet ` S) fid p"
    "a_size p = length packet" "got p = S" "T < expires p"
    using partial_open [OF partial_drop_expired [OF pt time(1)] time(2) len] by blast
  let ?q = "add_chunk ?f p"
  have got: "got ?q = insert i S" using got_add_chunk [of ?f p] i64 p(4) f by simp
  have eq: "accept_fragment ?f now ?d =
      (if remaining ?q \<noteq> 0 then (AList.update fid ?q ?o, None)
       else (AList.delete fid ?o, Some (assemble (zeros (length packet)) 0 (chunks ?q))))"
    using p(1,3) i(2) [folded p(4)] i64
    by (simp add: accept_fragment_def Let_def f seen_test [OF i64] got_def del: push_bit_of_1)
  have "accept_fragment ?f now ?d = (d', out)"
    using res multi f by (simp add: accept_def fragment_codec.dec_enc [OF fok])
  note out = this [unfolded eq]
  have d': "mdistinct d'" using mdistinct_accept [of d] res pt by (metis fst_conv partial_def)
  note add = asm_ok_add [of "packet_fragment fid packet ` S" ?f p, unfolded f, OF p(2,3) fok]
  have new: "i \<notin> got p" using i(2) p(4) by simp
  have ins: "insert ?f (packet_fragment fid packet ` S) = packet_fragment fid packet ` insert i S" by simp
  show ?thesis
  proof (cases "remaining ?q = 0")
    case True
    then have all: "insert i S = {..< frag_count (length packet)}" using add new got by simp
    have "whole (packet_fragment fid packet ` insert i S) fid (assemble (zeros (length packet)) 0 (chunks ?q))"
      using add_chunk_complete [of "packet_fragment fid packet ` S" ?f p, unfolded f, OF p(2,3) fok]
        all got unfolding ins by simp
    then have "assemble (zeros (length packet)) 0 (chunks ?q) = packet" by (rule whole_unique)
    then have "out = Some packet" "d' = AList.delete fid ?o" using out True by simp_all
    moreover from this(2) have "fid \<notin> mkeys d'" by (auto simp: set_delete_eq)
    ultimately show ?thesis using all d' by (simp only: partial_def if_True simp_thms)
  next
    case False
    then have ok: "asm_ok (packet_fragment fid packet ` insert i S) fid ?q" using add new unfolding ins by simp
    then have rem: "remaining ?q = int (frag_count (length packet) - card (insert i S))"
      using asm_ok_shape(4) [OF ok] got p(3) by simp
    have "insert i S \<noteq> {..< frag_count (length packet)}"
    proof
      assume "insert i S = {..< frag_count (length packet)}"
      then have "card (insert i S) = frag_count (length packet)" by simp
      with rem False show False by (simp only: diff_self_eq_0 of_nat_0)
    qed
    moreover have "map_of d' fid = Some ?q" using out False by (auto simp: AList.update_conv')
    ultimately show ?thesis
      using out False ok got p(3,5) d' by (auto simp: partial_def)
  qed
qed

lemma accept_rest:
  assumes "fid < 2 ^ 64" "length packet \<le> 65507" "frag_count (length packet) \<noteq> 1"
    "partial fid packet S T d" "distinct is" "set is \<inter> S = {}" "is \<noteq> []"
    "set is \<union> S = {..< frag_count (length packet)}" "length ts = length is"
    "\<forall>t \<in> set ts. t \<le> T \<and> T < t + udpAssemblyLifetime"
  shows "\<exists>d'. accept_all d (zip (map (\<lambda>i. frame_of (packet_fragment fid packet i)) is) ts) = (d', [packet]) \<and>
    fid \<notin> mkeys d'"
  using assms(4-)
proof (induction "is" arbitrary: S d ts)
  case (Cons i js)
  obtain t ts' where ts: "ts = t # ts'" using Cons.prems(6) by (cases ts) auto
  obtain d1 out where acc: "accept (frame_of (packet_fragment fid packet i)) t d = (d1, out)" by fastforce
  have i: "i < frag_count (length packet)" "i \<notin> S" using Cons.prems(3,5) by auto
  note step = accept_step [OF Cons.prems(1) assms(1,2) i assms(3) _ _ acc]
  have time: "t \<le> T" "T < t + udpAssemblyLifetime" using Cons.prems(7) ts by auto
  show ?case
  proof (cases js)
    case Nil
    then have "insert i S = {..< frag_count (length packet)}" using Cons.prems(5) by auto
    with step [OF time] acc Nil ts Cons.prems(6) show ?thesis by (auto simp: partial_def)
  next
    case (Cons j ks)
    have j: "j \<in> {..< frag_count (length packet)}" "j \<notin> insert i S"
      using Cons Cons.prems(2,3,5) by auto
    then have "insert i S \<noteq> {..< frag_count (length packet)}" by blast
    then have one: "out = None" "partial fid packet (insert i S) T d1" using step [OF time] by auto
    have "\<exists>d'. accept_all d1 (zip (map (\<lambda>i. frame_of (packet_fragment fid packet i)) js) ts') = (d', [packet]) \<and>
        fid \<notin> mkeys d'"
      using Cons.prems Cons ts by (intro Cons.IH [OF one(2)]) auto
    with acc one(1) ts show ?thesis by (auto simp: Let_def)
  qed
qed simp

lemma write_chunks_ok:
  "write_chunks wr packet fid n is sent = (frames, Inr m) \<Longrightarrow>
   m = n \<and> frames = sent @ map (\<lambda>i. udp_frame (unat fid) n i (slice (i * 1056) (i * 1056 + 1056) packet)) is"
proof (induction "is" arbitrary: sent)
  case (Cons i js)
  let ?f = "udp_frame (unat fid) n i (slice (i * 1056) (i * 1056 + 1056) packet)"
  have "write_chunks wr packet fid n js (sent @ [?f]) = (frames, Inr m)"
    using Cons.prems by (auto simp: Let_def slice_def split: option.splits if_splits)
  then show ?case using Cons.IH by fastforce
qed simp

lemma mset_map_ex: "mset ys = mset (map f xs) \<Longrightarrow> \<exists>zs. mset zs = mset xs \<and> ys = map f zs"
proof (induction ys arbitrary: xs)
  case (Cons y ys)
  have "y \<in> f ` set xs" using mset_eq_setD [OF Cons.prems] by auto
  then obtain x where x: "x \<in> set xs" "y = f x" by blast
  have "mset xs = add_mset x (mset (remove1 x xs))" using x(1) by simp
  then have "mset ys = mset (map f (remove1 x xs))" using Cons.prems x(2) by (simp del: mset_remove1)
  from Cons.IH [OF this] obtain zs where "mset zs = mset (remove1 x xs)" "ys = map f zs" by blast
  with x show ?case by (intro exI [of _ "x # zs"]) simp
qed simp

lemma Write_frames:
  assumes "Write wr c packet = (c', frames, Inr n)"
  shows "length packet \<le> 65507" "c' = c\<lparr>nextid := nextid c + 1\<rparr>" "n = length packet"
    "frames = map (\<lambda>i. frame_of (packet_fragment (unat (nextid c')) packet i)) [0..<frag_count (length packet)]"
  using assms write_chunks_ok [of wr packet "nextid c + 1" "length packet" "[0..<frag_count (length packet)]" "[]" frames n]
  by (auto simp: Write_def frame_of_def packet_fragment_def Let_def split: if_splits)

lemma unat_64_less: "unat (w :: 64 word) < 2 ^ 64"
  using unsigned_less [of w] by simp

lemma accept_datagram:
  assumes "Write wr c packet = (c', frames, Inr n)" "mset arrivals = mset frames"
    "length ts = length arrivals" "\<forall>t \<in> set ts. T \<le> t \<and> t < T + udpAssemblyLifetime"
    "mdistinct d" "unat (nextid c') \<notin> mkeys d"
  shows "\<exists>d'. accept_all d (zip arrivals ts) = (d', [packet]) \<and> unat (nextid c') \<notin> mkeys d'"
proof -
  let ?fid = "unat (nextid c')" and ?n = "frag_count (length packet)"
  let ?fr = "\<lambda>i. frame_of (packet_fragment ?fid packet i)"
  note W = Write_frames [OF assms(1)]
  obtain js where js: "mset js = mset [0..<?n]" "arrivals = map ?fr js"
    using mset_map_ex assms(2) W(4) by metis
  have "distinct js = distinct [0..<?n]" by (rule mset_eq_imp_distinct_iff [OF js(1)])
  moreover have "set js = set [0..<?n]" by (rule mset_eq_setD [OF js(1)])
  ultimately have d: "distinct js" "set js = {..< ?n}" by (simp_all add: atLeast0LessThan)
  have fid: "?fid < 2 ^ 64" by (rule unat_64_less)
  show ?thesis
  proof (cases "?n = 1")
    case True
    then have j: "js = [0]" using js(1) by (simp add: upt_rec)
    have le: "length packet \<le> 1056" using frag_count_covers [of "length packet"] True by simp
    have ok: "fragment_ok (packet_fragment ?fid packet 0)"
      by (rule packet_fragment_ok [OF fid W(1)]) simp
    obtain t where t: "ts = [t]" using assms(3) js(2) j by (cases ts) auto
    have "accept (?fr 0) t d = (drop_expired t d, Some packet)"
      by (simp add: accept_def fragment_codec.dec_enc [OF ok] True slice_full [OF le])
    then have "accept_all d (zip arrivals ts) = (drop_expired t d, [packet])" by (simp add: js(2) j t)
    moreover have "?fid \<notin> mkeys (drop_expired t d)" using assms(6) by (auto simp: drop_expired_def image_iff)
    ultimately show ?thesis by blast
  next
    case False
    have "0 \<in> set js" unfolding d(2) by simp
    then have "js \<noteq> []" by (rule list.set_cases) simp_all
    moreover have "partial ?fid packet {} (T + udpAssemblyLifetime - 1) d" using assms(5,6) by (simp add: partial_def)
    moreover have "t \<le> T + udpAssemblyLifetime - 1 \<and> T + udpAssemblyLifetime - 1 < t + udpAssemblyLifetime"
      if "t \<in> set ts" for t
      using assms(4) that by force
    ultimately show ?thesis
      unfolding js(2) using assms(3) js(2) d False
      by (intro accept_rest [OF fid W(1), where S = "{}" and T = "T + udpAssemblyLifetime - 1"]) auto
  qed
qed

section \<open>Properties\<close>

text \<open>
  C16. Fragmentation and reassembly are inverse in any order of arrival. Let \<open>Write\<close> send a datagram,
  let its frames arrive in any order within the two seconds an assembly lives, at a decoder that holds
  no datagram under that identifier (whatever else it holds): the decoder delivers exactly one
  datagram, the one written, and keeps nothing of it.
\<close>

theorem datagram_roundtrip:
  assumes "Write wr c packet = (c', frames, Inr n)" "mset arrivals = mset frames"
    "length ts = length arrivals" "\<forall>t \<in> set ts. T \<le> t \<and> t < T + udpAssemblyLifetime"
    "mdistinct d" "unat (nextid c') \<notin> mkeys d"
  shows "\<exists>d'. accept_all d (zip arrivals ts) = (d', [packet]) \<and> unat (nextid c') \<notin> mkeys d'"
  using assms by (rule accept_datagram)

theorem datagram_roundtrip_witness:
  "\<exists>d'. accept_all [] (zip (rev (fst (snd (Write (\<lambda>_ b. Some (length b)) \<lparr>nextid = - 1, decoder = []\<rparr> (zeros 1100)))))
     [5, 6]) = (d', [zeros 1100]) \<and> 0 \<notin> mkeys d'"
proof -
  let ?wr = "\<lambda>_ b. Some (length b)" and ?c = "\<lparr>nextid = - 1, decoder = []\<rparr> :: framedUDP"
  obtain frames where w: "Write ?wr ?c (zeros 1100) = (?c\<lparr>nextid := 0\<rparr>, frames, Inr 1100)" and "length frames = 2"
    by (simp add: Write_def frag_count_eq upt_rec)
  then show ?thesis
    using datagram_roundtrip [OF w, of "rev frames" "[5, 6]" 5 "[]"]
    by (simp add: udpAssemblyLifetime_def second_def)
qed

text \<open>
  A decoder never delivers a datagram with missing, mixed or altered parts: whatever sequence of
  frames it has seen, every datagram it delivers was received in full, as the complete set of fragments
  of one identifier and one size.
\<close>

theorem delivered_whole:
  assumes "accept_all [] ins = (d', outs)" "data \<in> set outs"
  shows "\<exists>fid. length data \<le> MaxUDPDatagram \<and> (\<forall>i < frag_count (length data).
    udp_frame fid (length data) i (slice (i * udpChunkSize) (i * udpChunkSize + udpChunkSize) data) \<in> fst ` set ins)"
proof -
  have "dec_ok {} []" by (simp add: dec_ok_def)
  from accept_all_ok [OF this _ assms(1)] assms(2) obtain fid where
    w: "whole (\<Union>b \<in> fst ` set ins. set_option (parse_fragment b)) fid data" by auto
  have "frame_of f = b" if "parse_fragment b = Some f" for b f
    using fragment_codec.enc_dec [OF that] by simp
  then have part: "frame_of f \<in> fst ` set ins"
    if "f \<in> (\<Union>b \<in> fst ` set ins. set_option (parse_fragment b))" for f
    using that by auto
  have len: "length data \<le> MaxUDPDatagram" using w by (simp add: whole_def)
  show ?thesis
  proof (intro exI [of _ fid] conjI len allI impI)
    fix i
    assume "i < frag_count (length data)"
    then have "\<lparr>f_id = fid, f_size = length data, f_index = i, f_payload = slice (i * 1056) (i * 1056 + 1056) data\<rparr> \<in>
        (\<Union>b \<in> fst ` set ins. set_option (parse_fragment b))"
      using w unfolding whole_def by blast
    from part [OF this]
    show "udp_frame fid (length data) i (slice (i * udpChunkSize) (i * udpChunkSize + udpChunkSize) data) \<in> fst ` set ins"
      by (simp add: frame_of_def)
  qed
qed

theorem delivered_whole_witness:
  "\<exists>fid. udp_frame fid 3 0 [1, 2, 3] \<in> {udp_frame 9 3 0 [1, 2, 3]}"
proof -
  have "fragment_ok \<lparr>f_id = 9, f_size = 3, f_index = 0, f_payload = [1, 2, 3]\<rparr>"
    by (simp add: fragment_ok_def frag_count_eq chunk_len_def)
  from fragment_codec.dec_enc [OF this] have "accept_all [] [(udp_frame 9 3 0 [1, 2, 3], 1)] = ([], [[1, 2, 3]])"
    by (simp add: frame_of_def accept_def drop_expired_def frag_count_eq)
  from delivered_whole [OF this] show ?thesis by (simp add: frag_count_eq slice_def numeral_3_eq_3)
qed

text \<open>
  A decoder holds at most eight incomplete datagrams, whatever it receives.
\<close>

lemma decoder_bounded:
  "length (fst (accept_all [] ins)) \<le> udpMaxAssemblies"
proof -
  obtain d outs where r: "accept_all [] ins = (d, outs)" by fastforce
  have "dec_ok {} []" by (simp add: dec_ok_def)
  from accept_all_ok [OF this _ r] r show ?thesis by simp
qed

text \<open>
  Every frame \<open>Write\<close> sends fits the wire budget: with outer IPv6 and UDP headers, the WireGuard
  header and tag, the inner IPv6 and UDP headers and padding to 16 bytes, the packet on the wire is at
  most 1200 bytes, and the payload fits the tunnel's MTU.
\<close>

lemma write_fits_wire:
  assumes "Write wr c packet = (c', frames, r)" "b \<in> set frames"
  shows "length b \<le> MaxUDPPayload \<and>
    40 + 8 + 32 + (48 + length b + 15) div 16 * 16 \<le> UDPWirePacketLimit"
proof -
  have "length b \<le> 1072" if "write_chunks wr packet fid n is sent = (frames, r)" "b \<in> set frames"
    "\<forall>x \<in> set sent. length x \<le> 1072" for fid n "is" sent
    using that
    by (induction "is" arbitrary: sent)
      (auto simp: Let_def udp_frame_parts split: option.splits if_splits)
  from this [of "nextid c + 1" "length packet" "[0..<frag_count (length packet)]" "[]"] assms
  have "length b \<le> 1072" by (auto simp: Write_def Let_def split: if_splits)
  then show ?thesis by (simp add: MaxUDPPayload_def UDPWirePacketLimit_def)
qed

lemma write_fits_wire_witness:
  "length (hd (fst (snd (Write (\<lambda>_ b. Some (length b)) \<lparr>nextid = 0, decoder = []\<rparr> (zeros 1100))))) \<le> 1232"
proof -
  obtain c' frames where w: "Write (\<lambda>_ b. Some (length b)) \<lparr>nextid = 0, decoder = []\<rparr> (zeros 1100) = (c', frames, Inr 1100)"
    and "length frames = 2"
    by (simp add: Write_def frag_count_eq upt_rec)
  then have "hd frames \<in> set frames" by (cases frames) auto
  from write_fits_wire [OF w this] show ?thesis by (simp add: w MaxUDPPayload_def)
qed

end
