(* ===== verification/Udp_Services.thy ===== *)
theory Udp_Services
  imports Socks Udp_Frame "HOL-Library.Sublist"
begin

text \<open>
  Published UDP services and local UDP forwards: the command-line forms (\<open>src/cmd/qcat/udp.go\<close>), the
  fixed destinations of \<open>UDPServices\<close> and the flow table of \<open>ForwardUDP\<close> (\<open>src/internal/proxy/udp.go\<close>).

  The goroutines of \<open>ForwardUDP\<close> interleave at their channel operations. The model has one event per
  such operation: a packet arrives, a flow's worker takes a packet and writes it to the remote, its
  reader writes an answer back to the source, a worker ends. A flow is identified by the number it was allocated under, as Go compares pointers; while a
  packet is put into a full queue the worker may take packets between the three \<open>select\<close> statements, and
  the event carries how many.
\<close>

section \<open>Command-line forms\<close>

datatype spec_error =
    NeedsLocalTunnel | BadLocalPort | BadTunnelPort
  | NeedsPortTarget | BadServicePort | BadRange | BadTarget socks_error | RangeExceeds | DuplicatePort nat

definition udpForwardSpec :: "string \<Rightarrow> spec_error + string \<times> nat" where
  "udpForwardSpec spec =
     (let (l, r, ok) = cut CHR '':'' spec in
      if \<not> ok then Inl NeedsLocalTunnel
      else case parse_uint16 l of None \<Rightarrow> Inl BadLocalPort
      | Some lp \<Rightarrow>
        (case parse_uint16 r of None \<Rightarrow> Inl BadTunnelPort
         | Some rp \<Rightarrow>
           if rp = 0 then Inl BadTunnelPort else Inr (JoinHostPort ''127.0.0.1'' (itoa lp), rp)))"

fun add_ports ::
  "bool \<Rightarrow> string \<Rightarrow> string \<Rightarrow> nat \<Rightarrow> nat \<Rightarrow> nat list \<Rightarrow> (nat, string) gomap \<Rightarrow> spec_error + (nat, string) gomap"
where
  "add_ports ranged target host base first [] targets = Inr targets"
| "add_ports ranged target host base first (port # ports) targets =
     (if port \<in> mkeys targets then Inl (DuplicatePort port)
      else
        (let mapped = (if ranged then JoinHostPort host (itoa (base + port - first)) else target) in
         add_ports ranged target host base first ports (AList.update port mapped targets)))"

definition port_range :: "string \<Rightarrow> spec_error + nat \<times> nat \<times> bool" where
  "port_range p =
     (let (firstText, lastText, ranged) = cut CHR '':'' p in
      case parse_uint16 firstText of None \<Rightarrow> Inl BadServicePort
      | Some first \<Rightarrow>
        if first = 0 then Inl BadServicePort
        else if \<not> ranged then Inr (first, first, False)
        else (case parse_uint16 lastText of None \<Rightarrow> Inl BadRange
          | Some end \<Rightarrow> if end < first then Inl BadRange else Inr (first, end, True)))"

definition add_service :: "string \<Rightarrow> (nat, string) gomap \<Rightarrow> spec_error + (nat, string) gomap" where
  "add_service entry targets =
     (let (p, target, ok) = cut CHR ''='' entry in
      if \<not> ok then Inl NeedsPortTarget
      else case port_range p of Inl e \<Rightarrow> Inl e
      | Inr (first, end, ranged) \<Rightarrow>
        (case ValidateTarget target of Some e \<Rightarrow> Inl (BadTarget e)
         | None \<Rightarrow>
           (let (host, baseText) = (case SplitHostPort target of Inr hp \<Rightarrow> hp | Inl e \<Rightarrow> ([], []));
                base = (case parse_uint16 baseText of Some n \<Rightarrow> n | None \<Rightarrow> 0) in
            if base + end - first > 65535 then Inl RangeExceeds
            else add_ports ranged target host base first [first..<Suc end] targets)))"

fun add_services :: "string list \<Rightarrow> (nat, string) gomap \<Rightarrow> spec_error + (nat, string) gomap" where
  "add_services [] targets = Inr targets"
| "add_services (e # es) targets =
     (case add_service e targets of Inl err \<Rightarrow> Inl err | Inr t \<Rightarrow> add_services es t)"

definition udpServiceSpecs :: "string list \<Rightarrow> spec_error + (nat, string) gomap" where
  "udpServiceSpecs entries = add_services entries []"

section \<open>Published services\<close>

fun configure :: "(nat, string) gomap \<Rightarrow> (nat, string) gomap \<Rightarrow> spec_error + (nat, string) gomap" where
  "configure [] conf = Inr conf"
| "configure ((port, target) # ts) conf =
     (if port = 0 then Inl BadServicePort
      else case ValidateTarget target of Some e \<Rightarrow> Inl (BadTarget e)
      | None \<Rightarrow> configure ts (AList.update port target conf))"

definition MaxUDPFlows :: nat where "MaxUDPFlows = 128"
definition udpQueueDepth :: nat where "udpQueueDepth = 3"

text \<open>
  The handler of a port: an unknown port has none; a known one takes a slot of the shared pool or
  closes the flow. The result is the new number of slots in use and the destination dialled.
\<close>

definition service_flow :: "(nat, string) gomap \<Rightarrow> bool \<Rightarrow> nat \<Rightarrow> nat \<Rightarrow> nat \<times> string option" where
  "service_flow configured done slots port =
     (case map_of configured port of None \<Rightarrow> (slots, None)
      | Some target \<Rightarrow>
        if done then (slots, None)
        else if slots < MaxUDPFlows then (Suc slots, Some target)
        else (slots, None))"

definition service_end :: "nat \<Rightarrow> nat" where
  "service_end slots = slots - 1"

section \<open>Local forwards\<close>

record flow =
  fl_ref :: nat
  queue :: "bytes list"

record forward =
  flows :: "(string, flow) gomap"
  sent :: "(nat \<times> bytes) list"
  next_flow :: nat
  started :: "(nat \<times> string) list"
  replies :: "(string \<times> nat \<times> bytes) list"

definition no_flows :: forward where
  "no_flows = \<lparr>flows = [], sent = [], next_flow = 0, started = [], replies = []\<rparr>"

text \<open>
  The three \<open>select\<close> statements on a queue of depth three: \<open>k\<close> and \<open>m\<close> packets are taken by the worker
  after the first and after the second one. The result is the packets the worker took and the queue.
\<close>

definition enqueue :: "nat \<Rightarrow> nat \<Rightarrow> bytes list \<Rightarrow> bytes \<Rightarrow> bytes list \<times> bytes list" where
  "enqueue k m q packet =
     (if length q < udpQueueDepth then ([], q @ [packet])
      else
        (let q1 = drop k q; q2 = drop 1 q1; q3 = drop m q2 in
         (take k q @ take m q2, if length q3 < udpQueueDepth then q3 @ [packet] else q3)))"

definition log_sent :: "nat \<Rightarrow> bytes list \<Rightarrow> (nat \<times> bytes) list" where
  "log_sent ref ps = map (Pair ref) ps"

definition put_packet :: "nat \<Rightarrow> nat \<Rightarrow> string \<Rightarrow> flow \<Rightarrow> bytes \<Rightarrow> forward \<Rightarrow> forward" where
  "put_packet k m source f packet s =
     (let (taken, q) = enqueue k m (queue f) packet in
      s\<lparr>flows := AList.update source (f\<lparr>queue := q\<rparr>) (flows s), sent := sent s @ log_sent (fl_ref f) taken\<rparr>)"

definition arrive :: "nat \<Rightarrow> nat \<Rightarrow> string \<Rightarrow> bytes \<Rightarrow> forward \<Rightarrow> forward" where
  "arrive k m source packet s =
     (if length packet > MaxUDPDatagram then s
      else case map_of (flows s) source of
        Some f \<Rightarrow> put_packet k m source f packet s
      | None \<Rightarrow>
        if length (flows s) \<ge> MaxUDPFlows then s
        else put_packet k m source \<lparr>fl_ref = next_flow s, queue = []\<rparr> packet
          (s\<lparr>next_flow := Suc (next_flow s), started := started s @ [(next_flow s, source)]\<rparr>))"

definition deliver :: "string \<Rightarrow> forward \<Rightarrow> forward" where
  "deliver source s =
     (case map_of (flows s) source of None \<Rightarrow> s
      | Some f \<Rightarrow>
        (case queue f of [] \<Rightarrow> s
         | p # q \<Rightarrow> s\<lparr>flows := AList.update source (f\<lparr>queue := q\<rparr>) (flows s), sent := sent s @ [(fl_ref f, p)]\<rparr>))"

definition end_flow :: "string \<Rightarrow> nat \<Rightarrow> forward \<Rightarrow> forward" where
  "end_flow source ref s =
     (case map_of (flows s) source of None \<Rightarrow> s
      | Some f \<Rightarrow> if fl_ref f = ref then s\<lparr>flows := AList.delete source (flows s)\<rparr> else s)"

text \<open>The reader of a flow: what its tunnel connection delivers goes to the source the flow was started for.\<close>

definition reply_packet :: "string \<Rightarrow> bytes \<Rightarrow> forward \<Rightarrow> forward" where
  "reply_packet source packet s =
     (case map_of (flows s) source of None \<Rightarrow> s
      | Some f \<Rightarrow>
        if length packet > MaxUDPDatagram then s
        else s\<lparr>replies := replies s @ [(source, fl_ref f, packet)]\<rparr>)"

datatype forward_event =
    Packet string bytes nat nat
  | Deliver string
  | Answer string bytes
  | EndFlow string nat

inductive forward_step :: "forward \<Rightarrow> forward_event \<Rightarrow> forward \<Rightarrow> bool" where
  fwd_packet: "forward_step s (Packet src p k m) (arrive k m src p s)"
| fwd_deliver: "forward_step s (Deliver src) (deliver src s)"
| fwd_answer: "forward_step s (Answer src p) (reply_packet src p s)"
| fwd_end: "forward_step s (EndFlow src ref) (end_flow src ref s)"

inductive_cases forward_stepE: "forward_step s e t"

text \<open>
  The function itself: it checks its arguments and takes events until reading the local socket fails; a
  failure after cancellation is the normal end. It returns when all its workers have ended, so that no
  flow is left; \<open>None\<close> is a forward that still runs.
\<close>

fun forward_apply :: "forward_event \<Rightarrow> forward \<Rightarrow> forward" where
  "forward_apply (Packet src p k m) s = arrive k m src p s"
| "forward_apply (Deliver src) s = deliver src s"
| "forward_apply (Answer src p) s = reply_packet src p s"
| "forward_apply (EndFlow src ref) s = end_flow src ref s"

datatype listener_event = Flow forward_event | ListenerFails bool

datatype forward_error = IdleNotPositive | EndsRequired | ListenerError

fun forward_loop :: "forward \<Rightarrow> listener_event list \<Rightarrow> (forward_error option \<times> forward) option" where
  "forward_loop s [] = None"
| "forward_loop s (Flow e # es) = forward_loop (forward_apply e s) es"
| "forward_loop s (ListenerFails cancelled # es) =
     Some (if cancelled then None else Some ListenerError, s\<lparr>flows := []\<rparr>)"

definition ForwardUDP :: "bool \<Rightarrow> duration \<Rightarrow> listener_event list \<Rightarrow> (forward_error option \<times> forward) option" where
  "ForwardUDP ends idle es =
     (if idle \<le> 0 then Some (Some IdleNotPositive, no_flows)
      else if \<not> ends then Some (Some EndsRequired, no_flows)
      else forward_loop no_flows es)"

section \<open>The specifications\<close>

lemma SplitHostPort_host:
  assumes "SplitHostPort target = Inr (host, port)"
  shows "CHR ''['' \<notin> set host" "CHR '']'' \<notin> set host"
proof -
  obtain i where i: "last_index_byte CHR '':'' target = Some i"
    using assms by (auto simp: SplitHostPort_def split: option.splits)
  have "CHR ''['' \<notin> set host \<and> CHR '']'' \<notin> set host"
  proof (cases "target ! 0 = CHR ''[''")
    case False
    then have "host = take i target" "CHR ''['' \<notin> set target" "CHR '']'' \<notin> set target"
      using assms by (auto simp: SplitHostPort_def i Let_def split: if_splits)
    then show ?thesis using set_take_subset [of i target] by auto
  next
    case True
    then obtain e where e: "index_byte CHR '']'' target = Some e" "host = slice 1 e target"
      "CHR ''['' \<notin> set (drop 1 target)"
      using assms by (auto simp: SplitHostPort_def i Let_def split: if_splits option.splits)
    have "CHR '']'' \<notin> set (take e target)" using index_byte_Some [OF e(1)] by simp
    moreover have "host = take (e - 1) (drop 1 target)" "host = drop 1 (take e target)"
      using e(2) by (simp_all add: slice_def drop_take)
    then have "set host \<subseteq> set (drop 1 target)" "set host \<subseteq> set (take e target)"
      using set_take_subset set_drop_subset by metis+
    ultimately show ?thesis using e(3) by auto
  qed
  then show "CHR ''['' \<notin> set host" "CHR '']'' \<notin> set host" by simp_all
qed

lemma ValidateTarget_None:
  "ValidateTarget target = None \<longleftrightarrow>
   (\<exists>h p n. SplitHostPort target = Inr (h, p) \<and> parse_uint16 p = Some n \<and> n \<noteq> 0 \<and> h \<noteq> [])"
  by (auto simp: ValidateTarget_def split: sum.splits option.splits)

definition services_ok :: "(nat, string) gomap \<Rightarrow> bool" where
  "services_ok m \<longleftrightarrow> mdistinct m \<and>
     (\<forall>(port, target) \<in> set m. 1 \<le> port \<and> port \<le> 65535 \<and> ValidateTarget target = None)"

lemma services_ok_update:
  "services_ok m \<Longrightarrow> 1 \<le> port \<Longrightarrow> port \<le> 65535 \<Longrightarrow> ValidateTarget t = None \<Longrightarrow>
   services_ok (AList.update port t m)"
  using set_update_subset [of port t m] by (auto simp: services_ok_def AList.distinct_update)

lemma add_ports_ok:
  assumes "add_ports ranged target host base first ports m = Inr m'" "services_ok m"
    "\<forall>p \<in> set ports. 1 \<le> p \<and> p \<le> 65535"
    "\<forall>p \<in> set ports. ValidateTarget (if ranged then JoinHostPort host (itoa (base + p - first)) else target) = None"
  shows "services_ok m'"
  using assms
proof (induction ports arbitrary: m)
  case (Cons p ports)
  then show ?case by (auto simp: Let_def services_ok_update split: if_splits)
qed simp

lemma join_valid:
  assumes "CHR ''['' \<notin> set host" "CHR '']'' \<notin> set host" "host \<noteq> []" "1 \<le> n" "n \<le> 65535"
  shows "ValidateTarget (JoinHostPort host (itoa n)) = None"
  using assms by (simp add: ValidateTarget_None split_join parse_uint16_itoa)

lemma port_range_bounds:
  "port_range p = Inr (first, end, ranged) \<Longrightarrow> 1 \<le> first \<and> first \<le> end \<and> end \<le> 65535 \<and> (\<not> ranged \<longrightarrow> end = first)"
  by (auto simp: port_range_def Let_def split: prod.splits option.splits if_splits dest: parse_uint16_bound)

lemma add_service_ok:
  assumes "add_service e m = Inr m'" "services_ok m"
  shows "services_ok m'"
proof -
  obtain p target where c: "cut CHR ''='' e = (p, target, True)"
    using assms(1) by (auto simp: add_service_def split: prod.splits if_splits)
  obtain first final ranged where r: "port_range p = Inr (first, final, ranged)"
    using assms(1) by (auto simp: add_service_def c split: sum.splits)
  have v: "ValidateTarget target = None" using assms(1) by (auto simp: add_service_def c r split: option.splits)
  then obtain h bt n where t: "SplitHostPort target = Inr (h, bt)" "parse_uint16 bt = Some n" "n \<noteq> 0" "h \<noteq> []"
    using ValidateTarget_None by blast
  have le: "n + final - first \<le> 65535"
    and add: "add_ports ranged target h n first [first..<Suc final] m = Inr m'"
    using assms(1) by (auto simp: add_service_def c r v t split: if_splits)
  note b = port_range_bounds [OF r]
  have "ValidateTarget (JoinHostPort h (itoa (n + q - first))) = None" if "q \<in> set [first..<Suc final]" for q
    using that t(3,4) le SplitHostPort_host [OF t(1)] by (intro join_valid) auto
  then show ?thesis using add_ports_ok [OF add assms(2)] b v by auto
qed

lemma add_services_ok: "add_services es m = Inr m' \<Longrightarrow> services_ok m \<Longrightarrow> services_ok m'"
  by (induction es arbitrary: m) (auto split: sum.splits dest: add_service_ok)

lemma configure_ok:
  "services_ok m \<Longrightarrow> mdistinct (conf @ m) \<Longrightarrow> configure m conf = Inr (conf @ m)"
proof (induction m arbitrary: conf)
  case (Cons e m)
  obtain port target where e: "e = (port, target)" by fastforce
  have "AList.update port target conf = conf @ [(port, target)]"
    using Cons.prems(2) e by (induction conf) auto
  moreover have "services_ok m" "port \<noteq> 0" "ValidateTarget target = None"
    using Cons.prems(1) e by (auto simp: services_ok_def)
  ultimately show ?case using Cons.IH [of "conf @ [(port, target)]"] Cons.prems(2) e by simp
qed simp

section \<open>The flow table\<close>

fun arrivals :: "string \<Rightarrow> forward_event list \<Rightarrow> bytes list" where
  "arrivals src [] = []"
| "arrivals src (Packet s p k m # es) = (if s = src then [p] else []) @ arrivals src es"
| "arrivals src (e # es) = arrivals src es"

definition sent_by :: "nat \<Rightarrow> forward \<Rightarrow> bytes list" where
  "sent_by ref s = map snd (filter (\<lambda>e. fst e = ref) (sent s))"

text \<open>
  After the events \<open>es\<close>: at most 128 flows, queues of at most three packets, distinct allocations, and
  for every flow the packets already sent and those queued are, in this order, a subsequence of what
  arrived from its source. Workers are numbered as they are started; what an earlier one has sent is a
  subsequence of what arrived from its source too, and replies go to the source of their worker.
\<close>

definition flow_ok :: "forward_event list \<Rightarrow> forward \<Rightarrow> string \<times> flow \<Rightarrow> bool" where
  "flow_ok es s e \<longleftrightarrow> length (queue (snd e)) \<le> 3 \<and> fl_ref (snd e) < next_flow s \<and>
     subseq (sent_by (fl_ref (snd e)) s @ queue (snd e)) (arrivals (fst e) es)"

definition fwd_ok :: "forward_event list \<Rightarrow> forward \<Rightarrow> bool" where
  "fwd_ok es s \<longleftrightarrow> mdistinct (flows s) \<and> length (flows s) \<le> 128 \<and>
     distinct (map (fl_ref \<circ> snd) (flows s)) \<and> (\<forall>e \<in> set (flows s). flow_ok es s e) \<and>
     (\<forall>x \<in> set (sent s). fst x < next_flow s) \<and> map fst (started s) = [0..<next_flow s] \<and>
     (\<forall>e \<in> set (flows s). (fl_ref (snd e), fst e) \<in> set (started s)) \<and>
     (\<forall>x \<in> set (started s). subseq (sent_by (fst x) s) (arrivals (snd x) es)) \<and>
     (\<forall>x \<in> set (replies s). (fst (snd x), fst x) \<in> set (started s) \<and> length (snd (snd x)) \<le> MaxUDPDatagram)"

lemma arrivals_append: "arrivals src (es @ fs) = arrivals src es @ arrivals src fs"
proof (induction es)
  case (Cons e es)
  then show ?case by (cases e) auto
qed simp

lemma enqueue_parts:
  assumes "enqueue k m q p = (taken, q')" "length q \<le> 3"
  shows "subseq (taken @ q') (q @ [p])" "length q' \<le> 3"
proof -
  let ?r = "drop k q"
  have "subseq (drop 1 ?r) ?r" by (metis append_take_drop_id subseq_drop_many subseq_order.order_refl)
  then have s: "subseq (take k q @ drop 1 ?r) q"
    using subseq_append' [of "take k q" "drop 1 ?r" ?r] by (simp only: append_take_drop_id)
  have full: "subseq ((take k q @ drop 1 ?r) @ [p]) (q @ [p])" "subseq (take k q @ drop 1 ?r) (q @ [p])"
    using list_emb_append_mono [OF s, of "[p]" "[p]"] subseq_rev_drop_many [OF s] by simp_all
  show "subseq (taken @ q') (q @ [p])"
  proof (cases "length q < 3")
    case False
    then have "taken @ q' = (take k q @ drop 1 ?r) @ [p] \<or> taken @ q' = take k q @ drop 1 ?r"
      using assms(1) append_take_drop_id [of m "drop 1 ?r"]
      by (auto simp: enqueue_def udpQueueDepth_def Let_def simp del: drop_drop append_take_drop_id split: if_splits)
    with full show ?thesis by auto
  qed (use assms(1) in \<open>auto simp: enqueue_def udpQueueDepth_def\<close>)
  show "length q' \<le> 3"
    using assms by (auto simp: enqueue_def udpQueueDepth_def Let_def split: if_splits)
qed

text \<open>Replacing a flow's queue by what is left of it after sending a prefix, in the order of arrival.\<close>

lemma fwd_ok_replace:
  assumes ok: "fwd_ok es s" and f: "fl_ref f < n" "next_flow s \<le> n"
    and others: "\<forall>e \<in> set (flows s). fst e \<noteq> src \<longrightarrow> fl_ref (snd e) \<noteq> fl_ref f"
    and len: "length (AList.update src (f\<lparr>queue := q\<rparr>) (flows s)) \<le> 128" "length q \<le> 3"
    and sub: "subseq (sent_by (fl_ref f) s @ taken @ q) (arrivals src (es @ [ev]))"
    and st: "map fst st = [0..<n]" "set st = insert (fl_ref f, src) (set (started s))"
  shows "fwd_ok (es @ [ev]) (s\<lparr>flows := AList.update src (f\<lparr>queue := q\<rparr>) (flows s),
    sent := sent s @ log_sent (fl_ref f) taken, next_flow := n, started := st\<rparr>)" (is "fwd_ok _ ?t")
proof -
  have d: "mdistinct (flows s)" "distinct (map (fl_ref \<circ> snd) (flows s))" using ok by (simp_all add: fwd_ok_def)
  have set: "set (flows ?t) = insert (src, f\<lparr>queue := q\<rparr>) {x \<in> set (flows s). fst x \<noteq> src}"
    by (simp add: set_update_distinct [OF d(1)])
  have inj: "inj_on (fl_ref \<circ> snd) (set (flows s))" using d(2) by (simp add: distinct_map)
  have sent: "sent_by ref ?t = sent_by ref s @ (if fl_ref f = ref then taken else [])" for ref
    by (auto simp: sent_by_def log_sent_def filter_map comp_def)
  have "flow_ok (es @ [ev]) ?t e" if "e \<in> set (flows ?t)" for e
  proof (cases "e = (src, f\<lparr>queue := q\<rparr>)")
    case True
    with len(2) f(1) sub show ?thesis by (simp add: flow_ok_def sent)
  next
    case False
    then have e: "e \<in> set (flows s)" "fst e \<noteq> src" using that set by auto
    then have "flow_ok es s e" "fl_ref f \<noteq> fl_ref (snd e)" using ok others by (auto simp: fwd_ok_def)
    then show ?thesis
      using f(2) by (auto simp: flow_ok_def sent arrivals_append intro: subseq_rev_drop_many)
  qed
  moreover have "distinct (map (fl_ref \<circ> snd) (flows ?t))"
  proof -
    have "inj_on (fl_ref \<circ> snd) (set (flows ?t))"
      using inj others unfolding set by (auto simp: inj_on_def)
    moreover have "distinct (flows ?t)"
      using AList.distinct_update [OF d(1), of src "f\<lparr>queue := q\<rparr>"] by (simp add: distinct_map)
    ultimately show ?thesis by (simp only: distinct_map)
  qed
  moreover have "subseq (sent_by (fst x) ?t) (arrivals (snd x) (es @ [ev]))" if x: "x \<in> set st" for x
  proof (cases "x = (fl_ref f, src)")
    case True
    have "subseq (sent_by (fl_ref f) s @ taken) ((sent_by (fl_ref f) s @ taken) @ q)" by (rule subseq_rev_drop_many) simp
    with sub True show ?thesis by (auto simp: sent intro: subseq_order.trans)
  next
    case False
    have "inj_on fst (set st)" using st(1) by (metis distinct_map distinct_upt)
    then have "fst x \<noteq> fl_ref f" using x False st(2) by (force simp: inj_on_def)
    moreover have "x \<in> set (started s)" using x False st(2) by simp
    then have "subseq (sent_by (fst x) s) (arrivals (snd x) es)" using ok by (simp add: fwd_ok_def)
    ultimately show ?thesis by (auto simp: sent arrivals_append intro: subseq_rev_drop_many)
  qed
  moreover have "\<forall>e \<in> set (flows ?t). (fl_ref (snd e), fst e) \<in> set st"
    using ok unfolding set by (auto simp: fwd_ok_def st(2))
  moreover have "\<forall>x \<in> set (replies s). (fst (snd x), fst x) \<in> set st \<and> length (snd (snd x)) \<le> MaxUDPDatagram"
    using ok by (auto simp: fwd_ok_def st(2))
  moreover have "\<forall>x \<in> set (sent ?t). fst x < n"
    using ok f by (auto simp: fwd_ok_def log_sent_def)
  ultimately show ?thesis
    using len(1) st(1) AList.distinct_update [OF d(1)] by (simp add: fwd_ok_def)
qed

lemma fwd_ok_later: "fwd_ok es s \<Longrightarrow> fwd_ok (es @ [ev]) s"
  by (auto simp: fwd_ok_def flow_ok_def arrivals_append intro: subseq_rev_drop_many)

lemma sent_by_fresh: "fwd_ok es s \<Longrightarrow> sent_by (next_flow s) s = []"
  by (auto simp: fwd_ok_def sent_by_def filter_empty_conv)

lemma fwd_ok_member:
  assumes "fwd_ok es s" "map_of (flows s) src = Some f"
  shows "flow_ok es s (src, f)" "fl_ref f < next_flow s" "set (started s) = insert (fl_ref f, src) (set (started s))" "length (AList.update src g (flows s)) \<le> 128"
    "\<forall>e \<in> set (flows s). fst e \<noteq> src \<longrightarrow> fl_ref (snd e) \<noteq> fl_ref f"
proof -
  have mem: "(src, f) \<in> set (flows s)" using assms(2) by (rule map_of_SomeD)
  show "flow_ok es s (src, f)" "fl_ref f < next_flow s" using assms(1) mem by (auto simp: fwd_ok_def flow_ok_def)
  have "(fl_ref f, src) \<in> set (started s)" using assms(1) mem unfolding fwd_ok_def by fastforce
  then show "set (started s) = insert (fl_ref f, src) (set (started s))" by blast
  show "length (AList.update src g (flows s)) \<le> 128"
    using assms(1) image_eqI [OF _ mem, of src fst] by (simp add: fwd_ok_def length_update)
  have "inj_on (fl_ref \<circ> snd) (set (flows s))" using assms(1) by (simp add: fwd_ok_def distinct_map)
  then show "\<forall>e \<in> set (flows s). fst e \<noteq> src \<longrightarrow> fl_ref (snd e) \<noteq> fl_ref f"
    using mem by (force simp: inj_on_def)
qed

lemma fwd_ok_put:
  assumes ok: "fwd_ok es s" and q: "length (queue f) \<le> 3"
    and f: "fl_ref f < n" "next_flow s \<le> n"
    and others: "\<forall>e \<in> set (flows s). fst e \<noteq> src \<longrightarrow> fl_ref (snd e) \<noteq> fl_ref f"
    and len: "\<And>g. length (AList.update src g (flows s)) \<le> 128"
    and sub: "subseq (sent_by (fl_ref f) s @ queue f) (arrivals src es)"
    and st: "map fst st = [0..<n]" "set st = insert (fl_ref f, src) (set (started s))"
  shows "fwd_ok (es @ [Packet src p k m]) (put_packet k m src f p (s\<lparr>next_flow := n, started := st\<rparr>))"
proof -
  obtain taken q' where enq: "enqueue k m (queue f) p = (taken, q')" by fastforce
  note parts = enqueue_parts [OF enq q]
  have "subseq (sent_by (fl_ref f) s @ taken @ q') (sent_by (fl_ref f) s @ queue f @ [p])"
    using parts(1) by (simp add: subseq_append')
  moreover have "subseq ((sent_by (fl_ref f) s @ queue f) @ [p]) (arrivals src es @ [p])"
    by (rule list_emb_append_mono [OF sub]) simp
  ultimately have "subseq (sent_by (fl_ref f) s @ taken @ q') (arrivals src (es @ [Packet src p k m]))"
    using subseq_order.trans by (fastforce simp: arrivals_append)
  from fwd_ok_replace [OF ok f others len parts(2) this st]
  have "fwd_ok (es @ [Packet src p k m]) (s\<lparr>flows := AList.update src (f\<lparr>queue := q'\<rparr>) (flows s),
      sent := sent s @ log_sent (fl_ref f) taken, next_flow := n, started := st\<rparr>)" .
  then show ?thesis by (cases s) (simp add: put_packet_def enq)
qed

lemma fwd_ok_arrive:
  assumes "fwd_ok es s"
  shows "fwd_ok (es @ [Packet src p k m]) (arrive k m src p s)"
proof (cases "map_of (flows s) src")
  case (Some f)
  note mem = fwd_ok_member [OF assms Some]
  have "fwd_ok (es @ [Packet src p k m]) (put_packet k m src f p (s\<lparr>next_flow := next_flow s, started := started s\<rparr>))"
    using mem assms by (intro fwd_ok_put [OF assms]) (simp_all add: flow_ok_def, simp_all add: fwd_ok_def)
  with Some fwd_ok_later [OF assms] show ?thesis by (simp add: arrive_def)
next
  case None
  let ?f = "\<lparr>fl_ref = next_flow s, queue = []\<rparr>"
  have "fwd_ok (es @ [Packet src p k m]) (put_packet k m src ?f p
      (s\<lparr>next_flow := Suc (next_flow s), started := started s @ [(next_flow s, src)]\<rparr>))"
    if "length (flows s) < 128"
  proof (rule fwd_ok_put [OF assms])
    show "length (AList.update src g (flows s)) \<le> 128" for g
      using that length_update_le [of src g "flows s"] by simp
    show "\<forall>e \<in> set (flows s). fst e \<noteq> src \<longrightarrow> fl_ref (snd e) \<noteq> fl_ref ?f"
      using assms by (auto simp: fwd_ok_def flow_ok_def)
    show "map fst (started s @ [(next_flow s, src)]) = [0..<Suc (next_flow s)]"
      using assms by (simp add: fwd_ok_def)
  qed (simp_all add: sent_by_fresh [OF assms])
  with None fwd_ok_later [OF assms] show ?thesis by (simp add: arrive_def MaxUDPFlows_def)
qed

lemma fwd_ok_deliver:
  assumes "fwd_ok es s"
  shows "fwd_ok (es @ [Deliver src]) (deliver src s)"
proof (cases "\<exists>f p q. map_of (flows s) src = Some f \<and> queue f = p # q")
  case True
  then obtain f p q where f: "map_of (flows s) src = Some f" "queue f = p # q" by blast
  note mem = fwd_ok_member [OF assms f(1)]
  have sub: "subseq (sent_by (fl_ref f) s @ [p] @ q) (arrivals src (es @ [Deliver src]))"
    using mem(1) f(2) by (simp add: flow_ok_def arrivals_append)
  have st: "map fst (started s) = [0..<next_flow s]" using assms by (simp add: fwd_ok_def)
  from fwd_ok_replace [OF assms mem(2) order_refl mem(5) mem(4) _ sub st mem(3)] mem(1) f
  show ?thesis by (simp add: deliver_def log_sent_def flow_ok_def)
next
  case False
  then show ?thesis
    using fwd_ok_later [OF assms] by (auto simp: deliver_def split: option.splits list.splits)
qed

lemma fwd_ok_end:
  assumes "fwd_ok es s"
  shows "fwd_ok (es @ [EndFlow src ref]) (end_flow src ref s)"
proof -
  have "fwd_ok (es @ [EndFlow src ref]) (s\<lparr>flows := AList.delete src (flows s)\<rparr>)"
    using fwd_ok_later [OF assms, of "EndFlow src ref"] distinct_map_filter [of "fl_ref \<circ> snd" "flows s"]
    by (auto simp: fwd_ok_def flow_ok_def sent_by_def AList.delete_eq mdistinct_filter
        intro: order.trans [OF length_filter_le])
  then show ?thesis
    using fwd_ok_later [OF assms] by (auto simp: end_flow_def split: option.splits)
qed

lemma fwd_ok_answer:
  assumes "fwd_ok es s"
  shows "fwd_ok (es @ [Answer src p]) (reply_packet src p s)"
proof (cases "map_of (flows s) src")
  case (Some f)
  have "(fl_ref f, src) \<in> set (started s)" using fwd_ok_member(3) [OF assms Some] by blast
  then have "fwd_ok (es @ [Answer src p]) (s\<lparr>replies := replies s @ [(src, fl_ref f, p)]\<rparr>)" if "length p \<le> MaxUDPDatagram"
    using fwd_ok_later [OF assms, of "Answer src p"] that
    by (auto simp: fwd_ok_def flow_ok_def sent_by_def)
  with Some fwd_ok_later [OF assms] show ?thesis by (simp add: reply_packet_def)
qed (simp add: reply_packet_def fwd_ok_later [OF assms])

lemma fwd_ok_step: "fwd_ok es s \<Longrightarrow> forward_step s e t \<Longrightarrow> fwd_ok (es @ [e]) t"
  by (erule forward_stepE) (simp_all add: fwd_ok_arrive fwd_ok_deliver fwd_ok_answer fwd_ok_end)

text \<open>The history is part of the state of the machine whose invariant is \<open>fwd_ok\<close>.\<close>

definition logged :: "forward_event list \<times> forward \<Rightarrow> forward_event \<Rightarrow> forward_event list \<times> forward \<Rightarrow> bool" where
  "logged x e y \<longleftrightarrow> forward_step (snd x) e (snd y) \<and> fst y = fst x @ [e]"

interpretation forward_machine: invariant_machine "\<lambda>x. x = ([], no_flows)" logged "\<lambda>x. fwd_ok (fst x) (snd x)"
proof
  show "fwd_ok (fst x) (snd x)" if "x = ([], no_flows)" for x
    using that by (simp add: no_flows_def fwd_ok_def)
  show "fwd_ok (fst y) (snd y)" if "fwd_ok (fst x) (snd x)" "logged x e y" for x e y
    using that fwd_ok_step by (simp add: logged_def)
qed

lemma runs_logged: "runs forward_step s es t \<Longrightarrow> runs logged (hs, s) es (hs @ es, t)"
proof (induction arbitrary: hs rule: runs.induct)
  case (runs_cons s e t es u)
  have "logged (hs, s) e (hs @ [e], t)" using runs_cons.hyps by (simp add: logged_def)
  with runs_cons.IH [of "hs @ [e]"] show ?case by (auto simp: runs_Cons_iff)
qed simp

lemma forward_step_iff: "forward_step s e t \<longleftrightarrow> t = forward_apply e s"
  by (cases e) (auto elim: forward_stepE intro: forward_step.intros)

text \<open>What a forward leaves behind is the end of a run of its flow table.\<close>

lemma forward_loop_runs:
  "forward_loop s es = Some (err, t) \<Longrightarrow>
   \<exists>fs u. runs forward_step s fs u \<and> t = u\<lparr>flows := []\<rparr> \<and> map Flow fs @ [ListenerFails (err = None)] = take (Suc (length fs)) es"
proof (induction s es rule: forward_loop.induct)
  case (2 s e es)
  then obtain fs u where "runs forward_step (forward_apply e s) fs u" "t = u\<lparr>flows := []\<rparr>"
    "map Flow fs @ [ListenerFails (err = None)] = take (Suc (length fs)) es"
    by auto
  then show ?case by (intro exI [of _ "e # fs"] exI [of _ u]) (auto simp: runs_Cons_iff forward_step_iff [of s e])
next
  case (3 s cancelled es)
  then show ?case by (intro exI [of _ "[]"] exI [of _ s]) (auto split: if_splits)
qed simp

lemma run_fwd_ok: "runs forward_step no_flows es s \<Longrightarrow> fwd_ok es s"
  using forward_machine.run_start_inv [OF runs_logged, of no_flows es s "[]"] by simp

section \<open>Properties\<close>

text \<open>
  C19. UDP forwarding keeps the order of every application's datagrams and never duplicates, alters or
  crosses them: after any interleaving of arrivals, deliveries and flow ends, what a flow has sent
  followed by what it has queued is a subsequence of what arrived from its own source. There are at
  most 128 flows, each with at most three queued datagrams, and no two flows share an allocation.
\<close>

theorem forward_in_order:
  assumes "runs forward_step no_flows es s" "(src, f) \<in> set (flows s)"
  shows "subseq (sent_by (fl_ref f) s @ queue f) (arrivals src es) \<and>
    length (flows s) \<le> MaxUDPFlows \<and> length (queue f) \<le> udpQueueDepth \<and>
    distinct (map (fl_ref \<circ> snd) (flows s))"
  using run_fwd_ok [OF assms(1)] assms(2) by (auto simp: fwd_ok_def flow_ok_def MaxUDPFlows_def udpQueueDepth_def)

theorem forward_in_order_witness:
  "subseq [[1], [2]] (arrivals ''a'' [Packet ''a'' [1] 0 0, Packet ''a'' [2] 0 0, Deliver ''a''])"
proof -
  let ?es = "[Packet ''a'' [1] 0 0, Packet ''a'' [2] 0 0, Deliver ''a'']"
  let ?s = "deliver ''a'' (arrive 0 0 ''a'' [2] (arrive 0 0 ''a'' [1] no_flows))"
  have run: "runs forward_step no_flows ?es ?s"
    by (auto intro!: runs.intros forward_step.intros)
  have s: "flows ?s = [(''a'', \<lparr>fl_ref = 0, queue = [[2]]\<rparr>)]" "sent ?s = [(0, [1])]"
    by (simp_all add: no_flows_def arrive_def deliver_def put_packet_def enqueue_def udpQueueDepth_def
        MaxUDPFlows_def log_sent_def)
  from forward_in_order [OF run, of "''a''" "\<lparr>fl_ref = 0, queue = [[2]]\<rparr>"] s
  show ?thesis by (simp add: sent_by_def)
qed

text \<open>
  C20. Replies cannot cross between local applications: whoever a reply is written to is the one source
  whose datagrams the tunnel connection of that reply carries, also after the flow has ended or its
  source has started another one.
\<close>

theorem replies_do_not_cross:
  assumes "ForwardUDP True idle es = Some (err, s)" "(dst, ref, d) \<in> set (replies s)"
  shows "\<exists>fs. map Flow fs @ [ListenerFails (err = None)] = take (Suc (length fs)) es \<and>
    subseq (sent_by ref s) (arrivals dst fs) \<and> (\<forall>dst' d'. (dst', ref, d') \<in> set (replies s) \<longrightarrow> dst' = dst) \<and>
    length d \<le> MaxUDPDatagram"
proof (cases "0 < idle")
  case True
  then obtain fs u where u: "runs forward_step no_flows fs u" "s = u\<lparr>flows := []\<rparr>"
    "map Flow fs @ [ListenerFails (err = None)] = take (Suc (length fs)) es"
    using assms(1) forward_loop_runs by (force simp: ForwardUDP_def)
  have ok: "fwd_ok fs u" using u(1) by (rule run_fwd_ok)
  have "distinct (map fst (started u))" using ok by (simp add: fwd_ok_def)
  then have inj: "inj_on fst (set (started u))" by (simp add: distinct_map)
  have rep: "(ref', dst') \<in> set (started u) \<and> length d' \<le> MaxUDPDatagram" if "(dst', ref', d') \<in> set (replies s)" for dst' ref' d'
    using ok that u(2) unfolding fwd_ok_def by fastforce
  have "subseq (sent_by ref u) (arrivals dst fs)"
    using ok rep [OF assms(2)] unfolding fwd_ok_def by fastforce
  moreover have "sent_by ref s = sent_by ref u" by (simp add: sent_by_def u(2))
  moreover have "dst' = dst" if "(dst', ref, d') \<in> set (replies s)" for dst' d'
    using inj rep [OF that] rep [OF assms(2)] by (force simp: inj_on_def)
  ultimately show ?thesis using u(3) rep [OF assms(2)] by auto
qed (use assms in \<open>auto simp: ForwardUDP_def no_flows_def\<close>)

theorem replies_do_not_cross_witness:
  "\<exists>s. ForwardUDP True 5 [Flow (Packet ''a'' [1] 0 0), Flow (Deliver ''a''), Flow (Answer ''a'' [2]), ListenerFails True] = Some (None, s) \<and>
     (\<exists>fs. subseq (sent_by 0 s) (arrivals ''a'' fs))"
proof -
  let ?es = "[Flow (Packet ''a'' [1] 0 0), Flow (Deliver ''a''), Flow (Answer ''a'' [2]), ListenerFails True]"
  obtain s where s: "ForwardUDP True 5 ?es = Some (None, s)" "(''a'', 0, [2]) \<in> set (replies s)"
    by (simp add: ForwardUDP_def no_flows_def arrive_def deliver_def reply_packet_def put_packet_def enqueue_def
        udpQueueDepth_def MaxUDPFlows_def log_sent_def)
  from replies_do_not_cross [OF s] s(1) show ?thesis by blast
qed

text \<open>
  A datagram that arrives on a flow is never the one that is dropped: whatever the worker takes
  while it is put into the queue, it ends up last in the queue.
\<close>

lemma newest_is_kept:
  assumes "length q \<le> udpQueueDepth"
  shows "\<exists>front. snd (enqueue k m q packet) = front @ [packet] \<and> length front < udpQueueDepth"
  using assms by (auto simp: enqueue_def udpQueueDepth_def Let_def)

lemma newest_is_kept_witness:
  "\<exists>front. snd (enqueue 0 0 [[1], [2], [3]] [4]) = front @ [[4]] \<and> length front < 3"
  using newest_is_kept [of "[[1], [2], [3]]" 0 0 "[4]"] by (simp add: udpQueueDepth_def)

text \<open>
  Every service table the command line yields is accepted as it is by \<open>UDPServices\<close>: ports are
  distinct and nonzero and every destination, also the ones computed for a range, is a valid target.
\<close>

lemma specs_are_configurable:
  assumes "udpServiceSpecs entries = Inr targets"
  shows "configure targets [] = Inr targets \<and> mdistinct targets \<and>
    (\<forall>(port, target) \<in> set targets. 1 \<le> port \<and> port \<le> 65535 \<and> ValidateTarget target = None)"
proof -
  have "services_ok targets"
    using add_services_ok assms by (force simp: udpServiceSpecs_def services_ok_def)
  then show ?thesis using configure_ok [of targets "[]"] by (simp add: services_ok_def)
qed

lemma specs_are_configurable_witness:
  "configure [] [] = Inr [] \<and> mdistinct ([] :: (nat, string) gomap)"
  using specs_are_configurable [of "[]" "[]"] by (simp add: udpServiceSpecs_def)

lemma add_ports_range:
  assumes "\<forall>p \<in> set ports. p \<notin> mkeys m" "distinct ports"
  shows "add_ports True target host base first ports m =
    Inr (m @ map (\<lambda>p. (p, JoinHostPort host (itoa (base + p - first)))) ports)"
  using assms
proof (induction ports arbitrary: m)
  case (Cons p ports)
  have "AList.update p v m = m @ [(p, v)]" for v
    using Cons.prems(1) by (induction m) auto
  moreover have "add_ports True target host base first ports (m @ [(p, v)]) =
      Inr ((m @ [(p, v)]) @ map (\<lambda>p. (p, JoinHostPort host (itoa (base + p - first)))) ports)" for v
    using Cons.prems by (intro Cons.IH) auto
  ultimately show ?case using Cons.prems by (simp add: Let_def)
qed simp

lemma cut_itoa: "cut CHR '':'' (itoa n @ CHR '':'' # t) = (itoa n, t, True)"
  by (rule cut_found) simp

lemma digit_val_eq [simp]: "digit_val CHR ''='' = None"
  by (simp add: digit_val_def)

lemma itoa_no_eq [simp]: "CHR ''='' \<notin> set (itoa n)"
  using itoa_digits by fastforce

text \<open>
  A range maps consecutive tunnel ports to consecutive destination ports: for \<open>FIRST:LAST=HOST:BASE\<close>
  (the host may be an IPv6 address) the table maps every port of the range, and no other, to the host
  and the base port plus its distance from the first.
\<close>

lemma range_maps_consecutively:
  assumes "1 \<le> first" "first \<le> final" "final \<le> 65535" "1 \<le> base" "base + final - first \<le> 65535"
    "host \<noteq> []" "CHR ''['' \<notin> set host" "CHR '']'' \<notin> set host"
  shows "udpServiceSpecs [itoa first @ '':'' @ itoa final @ ''='' @ JoinHostPort host (itoa base)] =
    Inr (map (\<lambda>p. (p, JoinHostPort host (itoa (base + p - first)))) [first..<Suc final])"
proof -
  let ?p = "itoa first @ CHR '':'' # itoa final" and ?t = "JoinHostPort host (itoa base)"
  have c: "cut CHR ''='' (itoa first @ CHR '':'' # itoa final @ CHR ''='' # ?t) = (?p, ?t, True)"
    using cut_found [of "CHR ''=''" ?p ?t] by simp
  have b: "base \<le> 65535" using assms by simp
  have r: "port_range ?p = Inr (first, final, True)"
    using assms b by (simp add: port_range_def cut_itoa parse_uint16_itoa)
  have v: "ValidateTarget ?t = None" using assms b by (intro join_valid) auto
  have s: "SplitHostPort ?t = Inr (host, itoa base)" using assms by (intro split_join) auto
  show ?thesis
    using assms add_ports_range [of "[first..<Suc final]" "[]" ?t host base first]
    by (simp add: udpServiceSpecs_def add_service_def c r v s parse_uint16_itoa b del: upt_Suc)
qed

lemma range_maps_consecutively_witness:
  "udpServiceSpecs [itoa 60000 @ '':'' @ itoa 60001 @ ''='' @ JoinHostPort ''::1'' (itoa 7)] =
    Inr [(60000, JoinHostPort ''::1'' (itoa 7)), (60001, JoinHostPort ''::1'' (itoa 8))]"
  using range_maps_consecutively [of 60000 60001 7 "''::1''"] by (simp add: upt_rec)

text \<open>
  A local forward always listens on the IPv4 loopback address and never on tunnel port 0, and every
  pair of a local port and a nonzero tunnel port can be written as a specification.
\<close>

lemma forward_spec_loopback:
  "(case udpForwardSpec spec of Inl e \<Rightarrow> True
    | Inr (addr, port) \<Rightarrow> 0 < port \<and> port < 65536 \<and> (\<exists>lp < 65536. addr = ''127.0.0.1:'' @ itoa lp)) \<and>
   (\<forall>lp < 65536. \<forall>rp < 65536. udpForwardSpec (itoa lp @ '':'' @ itoa rp) =
      (if rp = 0 then Inl BadTunnelPort else Inr (''127.0.0.1:'' @ itoa lp, rp)))"
proof -
  have j: "JoinHostPort ''127.0.0.1'' x = ''127.0.0.1:'' @ x" for x by (simp add: JoinHostPort_def)
  have "case udpForwardSpec spec of Inl e \<Rightarrow> True
    | Inr (addr, port) \<Rightarrow> 0 < port \<and> port < 65536 \<and> (\<exists>lp < 65536. addr = ''127.0.0.1:'' @ itoa lp)"
    by (force simp: udpForwardSpec_def Let_def j dest: parse_uint16_bound split: prod.splits option.splits sum.splits if_splits)
  moreover have "udpForwardSpec (itoa lp @ '':'' @ itoa rp) =
      (if rp = 0 then Inl BadTunnelPort else Inr (''127.0.0.1:'' @ itoa lp, rp))" if "lp < 65536" "rp < 65536" for lp rp
    using that by (simp add: udpForwardSpec_def cut_itoa parse_uint16_itoa j)
  ultimately show ?thesis by blast
qed

lemma forward_spec_loopback_witness:
  "udpForwardSpec (itoa 53 @ '':'' @ itoa 5353) = Inr (''127.0.0.1:'' @ itoa 53, 5353)"
  using forward_spec_loopback [of "[]"] by simp

end
