(* ===== verification/Serve_Command.thy ===== *)
theory Serve_Command
  imports Config_Store Udp_Services
begin

text \<open>
  The \<open>serve\<close> command: the services named on its command line, what it publishes, its start, and the
  loop that keeps the authorized peers in step with the configuration store
  (\<open>src/cmd/qcat/main.go\<close> and \<open>src/cmd/qcat/authorization.go\<close>).

  What the loop waits for is an event: a tick, with the file system the reload then finds; the exit of
  the identity helper; cancellation. Error texts are a parameter.
\<close>

section \<open>Services on the command line\<close>

datatype serve_error =
    UnexpectedArguments | BadUdpIdle | UdpSpec spec_error
  | TcpSyntax | TcpPort | TcpTarget socks_error | TcpDuplicate nat
  | NothingServed | TunExclusive
  | StoreFailed cerror | NoPublicKey | TunFailed | StartFailed | ControlFailed | BadDescriptor cerror | EmitFailed

record serve_flags =
  sf_tcp :: "string list"
  sf_udp :: "string list"
  sf_allow :: "string list"
  sf_idle :: duration
  sf_tun :: bool
  sf_export :: path
  sf_nargs :: nat

record services =
  sv_targets :: "(nat, string) gomap"
  sv_allowed :: "string list"
  sv_udp :: "(nat, string) gomap"

fun add_tcp ::
  "string list \<Rightarrow> (nat, string) gomap \<times> string list \<Rightarrow> serve_error + (nat, string) gomap \<times> string list"
where
  "add_tcp [] acc = Inr acc"
| "add_tcp (entry # es) (targets, allowed) =
     (let (p, target, ok) = cut CHR ''='' entry in
      if \<not> ok then Inl TcpSyntax
      else case parse_uint16 p of None \<Rightarrow> Inl TcpPort
      | Some port \<Rightarrow>
        if port < 2 then Inl TcpPort
        else (case ValidateTarget target of Some e \<Rightarrow> Inl (TcpTarget e)
          | None \<Rightarrow>
            if port \<in> mkeys targets then Inl (TcpDuplicate port)
            else add_tcp es (AList.update port target targets, List.insert target allowed)))"

fun add_allow :: "string list \<Rightarrow> string list \<Rightarrow> serve_error + string list" where
  "add_allow [] allowed = Inr allowed"
| "add_allow (target # ts) allowed =
     (case ValidateTarget target of Some e \<Rightarrow> Inl (TcpTarget e)
      | None \<Rightarrow> add_allow ts (List.insert target allowed))"

definition serve_services :: "serve_flags \<Rightarrow> serve_error + services" where
  "serve_services fl =
     (if sf_nargs fl \<noteq> 0 then Inl UnexpectedArguments
      else if sf_idle fl \<le> 0 then Inl BadUdpIdle
      else case udpServiceSpecs (sf_udp fl) of Inl e \<Rightarrow> Inl (UdpSpec e)
      | Inr udpTargets \<Rightarrow>
        (case add_tcp (sf_tcp fl) ([], []) of Inl e \<Rightarrow> Inl e
         | Inr (targets, allowed0) \<Rightarrow>
           (case add_allow (sf_allow fl) allowed0 of Inl e \<Rightarrow> Inl e
            | Inr allowed \<Rightarrow>
              if length allowed = 0 \<and> length udpTargets = 0 \<and> \<not> sf_tun fl then Inl NothingServed
              else if sf_tun fl \<and> (length allowed > 0 \<or> length udpTargets > 0) then Inl TunExclusive
              else Inr \<lparr>sv_targets = targets, sv_allowed = allowed, sv_udp = udpTargets\<rparr>)))"

section \<open>What is published\<close>

type_synonym port_span = "nat \<times> nat"

definition publishedTCPPorts :: "(nat, string) gomap \<Rightarrow> port_span list" where
  "publishedTCPPorts targets = (1, 1) # map (\<lambda>(port, _). (port, port)) targets"

definition ServedUDPPorts :: "(nat, string) gomap \<Rightarrow> port_span list" where
  "ServedUDPPorts udpTargets = map (\<lambda>(port, _). (port, port)) udpTargets"

datatype tcp_handler = SocksProxy | Direct string

definition OnTCP :: "services \<Rightarrow> nat \<Rightarrow> tcp_handler option" where
  "OnTCP sv port =
     (if port = 1 then Some SocksProxy
      else case map_of (sv_targets sv) port of None \<Rightarrow> None | Some target \<Rightarrow> Some (Direct target))"

text \<open>Where a TCP connection to \<open>port\<close> of the tunnel is relayed to, if it is.\<close>

definition relay :: "services \<Rightarrow> (string \<Rightarrow> bool) \<Rightarrow> (nat \<Rightarrow> bool) \<Rightarrow> nat \<Rightarrow> bytes \<Rightarrow> string option" where
  "relay sv dial wok port inp =
     (case OnTCP sv port of None \<Rightarrow> None
      | Some SocksProxy \<Rightarrow> fst (Serve (\<lambda>t. t \<in> set (sv_allowed sv)) dial wok \<lparr>c_in = inp, c_out = [], c_closed = False\<rparr>)
      | Some (Direct target) \<Rightarrow> if dial target then Some target else None)"

section \<open>Reloading authorizations\<close>

type_synonym auths = "(bytes, bytes) gomap"

record authorizationReload =
  r_error :: string
  r_failures :: nat

definition no_failures :: authorizationReload where
  "no_failures = \<lparr>r_error = [], r_failures = 0\<rparr>"

datatype reload_log = KeepingLastKnownGood nat string | RevokingAll nat string | Restored

definition authorize :: "crypto \<Rightarrow> descriptor list \<Rightarrow> auths" where
  "authorize C peers = fold (\<lambda>p m. AList.update (ID C (d_public p)) (d_public p) m) peers []"

definition reloadAuthorizations ::
  "crypto \<Rightarrow> (cerror \<Rightarrow> string) \<Rightarrow> cerror + descriptor list \<Rightarrow> authorizationReload \<Rightarrow> auths \<Rightarrow>
   reload_log list \<times> authorizationReload \<times> auths" where
  "reloadAuthorizations C msg result state current =
     (case result of
        Inl err \<Rightarrow>
          (let n = Suc (r_failures state); message = msg err; speak = (message \<noteq> r_error state \<or> n = 3) in
           (if speak
            then [if n < 3 then KeepingLastKnownGood n message else RevokingAll (length current) message] else [],
            \<lparr>r_error = (if speak then message else r_error state), r_failures = n\<rparr>,
            if n < 3 then current else []))
      | Inr peers \<Rightarrow>
          (if r_failures state \<noteq> 0 then [Restored] else [],
           if r_failures state \<noteq> 0 then no_failures else state,
           authorize C peers))"

record serving =
  sg_reload :: authorizationReload
  sg_authorized :: auths
  sg_log :: "reload_log list"

datatype serve_event = IdentityExited | Cancelled | Reload fs
datatype serve_end = HelperExited | Stopped

definition serve_turn ::
  "crypto \<Rightarrow> json \<Rightarrow> (string \<Rightarrow> endpoint_info option) \<Rightarrow> (cerror \<Rightarrow> string) \<Rightarrow> path \<Rightarrow> serve_event \<Rightarrow> serving \<Rightarrow>
   serve_end + serving" where
  "serve_turn C J parse_addr msg dir ev s =
     (case ev of IdentityExited \<Rightarrow> Inl HelperExited
      | Cancelled \<Rightarrow> Inl Stopped
      | Reload f \<Rightarrow>
        (let (out, st, next) = reloadAuthorizations C msg (Peers C J parse_addr dir f) (sg_reload s) (sg_authorized s) in
         Inr \<lparr>sg_reload = st, sg_authorized = next, sg_log = sg_log s @ out\<rparr>))"

fun serve_loop ::
  "crypto \<Rightarrow> json \<Rightarrow> (string \<Rightarrow> endpoint_info option) \<Rightarrow> (cerror \<Rightarrow> string) \<Rightarrow> path \<Rightarrow> serve_event list \<Rightarrow> serving \<Rightarrow>
   serve_end + serving" where
  "serve_loop C J parse_addr msg dir [] s = Inr s"
| "serve_loop C J parse_addr msg dir (ev # evs) s =
     (case serve_turn C J parse_addr msg dir ev s of Inl e \<Rightarrow> Inl e
      | Inr t \<Rightarrow> serve_loop C J parse_addr msg dir evs t)"

section \<open>Starting\<close>

text \<open>How the calls that reach outside the model end.\<close>

record serve_io =
  io_load :: "string \<Rightarrow> bytes \<Rightarrow> bool"
  io_public :: "identity_file \<Rightarrow> bytes option"
  io_tun :: bool
  io_start :: "string option"
  io_control :: bool
  io_write :: written
  io_emit :: bool

definition descriptor_of :: "crypto \<Rightarrow> identity_file \<Rightarrow> bytes \<Rightarrow> string \<Rightarrow> descriptor" where
  "descriptor_of C meta pub endpoint =
     \<lparr>d_version = PeerVersion, d_name = i_name meta, d_peerid = String (ID C pub), d_public = pub, d_endpoint = endpoint\<rparr>"

definition serve_publish ::
  "crypto \<Rightarrow> json \<Rightarrow> (string \<Rightarrow> endpoint_info option) \<Rightarrow> serve_io \<Rightarrow> serve_flags \<Rightarrow> descriptor \<Rightarrow> fs \<Rightarrow>
   serve_error option \<times> fs" where
  "serve_publish C J parse_addr io fl d f =
     (case Validate C parse_addr d of Some e \<Rightarrow> (Some (BadDescriptor e), f)
      | None \<Rightarrow>
        (case (if sf_export fl \<noteq> [] then WriteNew (io_write io) (sf_export fl) (enc_peer J d) f else (None, f)) of
           (Some e, g) \<Rightarrow> (Some (StoreFailed e), g)
         | (None, g) \<Rightarrow> if io_emit io then (None, g) else (Some EmitFailed, g)))"

definition serve_start ::
  "crypto \<Rightarrow> json \<Rightarrow> (string \<Rightarrow> endpoint_info option) \<Rightarrow> serve_io \<Rightarrow> path \<Rightarrow> serve_flags \<Rightarrow> fs \<Rightarrow>
   (serve_error + services \<times> serving) \<times> fs" where
  "serve_start C J parse_addr io dir fl f =
     (case serve_services fl of Inl e \<Rightarrow> (Inl e, f)
      | Inr sv \<Rightarrow>
        (case Identity J (io_load io) dir f f of Inl e \<Rightarrow> (Inl (StoreFailed e), f)
         | Inr meta \<Rightarrow>
           (case io_public io meta of None \<Rightarrow> (Inl NoPublicKey, f)
            | Some pub \<Rightarrow>
              (case Peers C J parse_addr dir f of Inl e \<Rightarrow> (Inl (StoreFailed e), f)
               | Inr paired \<Rightarrow>
                 if sf_tun fl \<and> \<not> io_tun io then (Inl TunFailed, f)
                 else (case (if sv_udp sv \<noteq> [] then configure (sv_udp sv) [] else Inr []) of Inl e \<Rightarrow> (Inl (UdpSpec e), f)
                 | Inr conf \<Rightarrow>
                   (case io_start io of None \<Rightarrow> (Inl StartFailed, f)
                    | Some endpoint \<Rightarrow>
                      if \<not> io_control io then (Inl ControlFailed, f)
                      else (case serve_publish C J parse_addr io fl (descriptor_of C meta pub endpoint) f of
                          (Some e, g) \<Rightarrow> (Inl e, g)
                        | (None, g) \<Rightarrow>
                          (Inr (sv, \<lparr>sg_reload = no_failures, sg_authorized = authorize C paired, sg_log = []\<rparr>), g))))))))"

section \<open>Lemmas\<close>

lemma fold_authorize:
  "map_of (fold (\<lambda>p m. AList.update (ID C (d_public p)) (d_public p) m) ps m) pid = Some key \<Longrightarrow>
   map_of m pid = Some key \<or> (\<exists>d \<in> set ps. d_public d = key \<and> pid = ID C key)"
  by (induction ps arbitrary: m) (fastforce simp: update_conv' split: if_splits)+

lemma authorize_Some:
  "map_of (authorize C ps) pid = Some key \<Longrightarrow> \<exists>d \<in> set ps. d_public d = key \<and> pid = ID C key"
  unfolding authorize_def by (drule fold_authorize) simp

lemma fold_authorize_keep:
  "map_of m pid = Some key \<Longrightarrow> \<forall>d \<in> set ps. ID C (d_public d) = pid \<longrightarrow> d_public d = key \<Longrightarrow>
   map_of (fold (\<lambda>p m. AList.update (ID C (d_public p)) (d_public p) m) ps m) pid = Some key"
  by (induction ps arbitrary: m) (auto simp: update_conv')

lemma authorize_complete:
  assumes "d \<in> set ps" "\<forall>e \<in> set ps. ID C (d_public e) = ID C (d_public d) \<longrightarrow> d_public e = d_public d"
  shows "map_of (authorize C ps) (ID C (d_public d)) = Some (d_public d)"
proof -
  obtain xs ys where ps: "ps = xs @ d # ys" using assms(1) by (auto simp: in_set_conv_decomp)
  show ?thesis unfolding authorize_def ps using assms(2) ps
    by (simp add: fold_authorize_keep update_conv')
qed

definition trailing_failures :: "('a + 'b) list \<Rightarrow> nat" where
  "trailing_failures rs = length (takeWhile isl (rev rs))"

text \<open>
  What the authorized set should be after a series of reloads: the set of the last good one, or, when
  three or more have failed since, nobody.
\<close>

definition auth_spec :: "crypto \<Rightarrow> auths \<Rightarrow> (cerror + descriptor list) list \<Rightarrow> auths" where
  "auth_spec C initial rs =
     (if 3 \<le> trailing_failures rs then []
      else case dropWhile isl (rev rs) of [] \<Rightarrow> initial | r # _ \<Rightarrow> authorize C (projr r))"

lemma trailing_failures_snoc [simp]:
  "trailing_failures (rs @ [Inl e]) = Suc (trailing_failures rs)" "trailing_failures (rs @ [Inr v]) = 0"
  "trailing_failures [] = 0"
  by (simp_all add: trailing_failures_def)

lemma auth_spec_snoc [simp]:
  "auth_spec C initial (rs @ [Inr ds]) = authorize C ds" "auth_spec C initial [] = initial"
  "auth_spec C initial (rs @ [Inl e]) = (if trailing_failures rs < 2 then auth_spec C initial rs else [])"
  by (simp_all add: auth_spec_def trailing_failures_def)

lemma serve_loop_append:
  "serve_loop C J parse_addr msg dir (es @ fs) s =
     (case serve_loop C J parse_addr msg dir es s of Inl e \<Rightarrow> Inl e | Inr t \<Rightarrow> serve_loop C J parse_addr msg dir fs t)"
  by (induction es arbitrary: s) (simp_all split: sum.splits)

lemma serve_loop_reloads:
  assumes "sg_reload s = no_failures"
  shows "\<exists>t. serve_loop C J parse_addr msg dir (map Reload fss) s = Inr t \<and>
    r_failures (sg_reload t) = trailing_failures (map (Peers C J parse_addr dir) fss) \<and>
    sg_authorized t = auth_spec C (sg_authorized s) (map (Peers C J parse_addr dir) fss)"
proof (induction fss rule: rev_induct)
  case Nil
  then show ?case using assms by (simp add: no_failures_def)
next
  case (snoc f fss)
  then obtain t where t: "serve_loop C J parse_addr msg dir (map Reload fss) s = Inr t"
    "r_failures (sg_reload t) = trailing_failures (map (Peers C J parse_addr dir) fss)"
    "sg_authorized t = auth_spec C (sg_authorized s) (map (Peers C J parse_addr dir) fss)" by blast
  show ?case
  proof (cases "Peers C J parse_addr dir f")
    case (Inl e)
    with t show ?thesis by (auto simp: serve_loop_append serve_turn_def reloadAuthorizations_def Let_def)
  next
    case (Inr ds)
    with t show ?thesis
      by (auto simp: serve_loop_append serve_turn_def reloadAuthorizations_def no_failures_def)
  qed
qed

lemma auth_spec_recent:
  assumes "map_of (auth_spec C initial rs) pid = Some key" "3 \<le> length rs"
  shows "\<exists>r \<in> set (take 3 (rev rs)). \<exists>ds. r = Inr ds \<and> (\<exists>d \<in> set ds. d_public d = key \<and> pid = ID C key)"
proof -
  let ?bad = "takeWhile isl (rev rs)" and ?rest = "dropWhile isl (rev rs)"
  have few: "length ?bad < 3" using assms(1) by (auto simp: auth_spec_def trailing_failures_def split: if_splits)
  have split: "rev rs = ?bad @ ?rest" by simp
  have "?rest \<noteq> []"
  proof
    assume "?rest = []"
    then have "length ?bad = length rs" using split by (metis append_Nil2 length_rev)
    with few assms(2) show False by simp
  qed
  then obtain r rs' where r: "?rest = r # rs'" by (cases ?rest) auto
  then have "\<not> isl r" using hd_dropWhile [of isl "rev rs"] by auto
  then obtain ds where ds: "r = Inr ds" by (cases r) auto
  have "map_of (authorize C ds) pid = Some key" using assms(1) few r ds by (simp add: auth_spec_def trailing_failures_def)
  note key = authorize_Some [OF this]
  have "r \<in> set (take 3 (rev rs))"
  proof -
    have "take 3 (rev rs) = ?bad @ take (3 - length ?bad) ?rest"
      using few by (subst split) (simp only: take_append, simp)
    moreover have "r \<in> set (take (3 - length ?bad) ?rest)" using few r by (cases "3 - length ?bad") auto
    ultimately show ?thesis by simp
  qed
  with ds key show ?thesis by blast
qed

definition named :: "string list \<Rightarrow> nat \<Rightarrow> string \<Rightarrow> bool" where
  "named tcp port t \<longleftrightarrow> (\<exists>p. p @ ''='' @ t \<in> set tcp \<and> parse_uint16 p = Some port)"

lemma named_Cons: "named tcp port t \<Longrightarrow> named (e # tcp) port t"
  by (auto simp: named_def)

lemma add_tcp_sound:
  "add_tcp es (T, A) = Inr (T', A') \<Longrightarrow>
   (\<forall>(port, t) \<in> set T'. (port, t) \<in> set T \<or> (2 \<le> port \<and> ValidateTarget t = None \<and> named es port t)) \<and>
   (\<forall>t \<in> set A'. t \<in> set A \<or> (ValidateTarget t = None \<and> (\<exists>port. named es port t)))"
proof (induction es arbitrary: T A)
  case (Cons e es)
  obtain p t ok where c: "cut CHR ''='' e = (p, t, ok)" by (metis prod_cases3)
  obtain port where port: "ok" "parse_uint16 p = Some port" "2 \<le> port" "ValidateTarget t = None"
    and rest: "add_tcp es (AList.update port t T, List.insert t A) = Inr (T', A')"
    using Cons.prems c by (auto split: option.splits if_splits)
  have nm: "named (e # es) port t" using cut_True [of "CHR ''=''" e p t] c port by (auto simp: named_def)
  note ih = Cons.IH [OF rest]
  have "(q, u) \<in> set T \<or> (2 \<le> q \<and> ValidateTarget u = None \<and> named (e # es) q u)" if "(q, u) \<in> set T'" for q u
  proof -
    have "(q, u) \<in> set (AList.update port t T) \<or> (2 \<le> q \<and> ValidateTarget u = None \<and> named es q u)"
      using ih that by auto
    then show ?thesis using port(3,4) nm set_update_subset [of port t T] named_Cons by blast
  qed
  moreover have "u \<in> set A \<or> (ValidateTarget u = None \<and> (\<exists>q. named (e # es) q u))" if "u \<in> set A'" for u
    using ih that port(4) nm named_Cons by (metis in_set_insert insert_iff list.set_intros(1) set_insert)
  ultimately show ?case by blast
qed auto

lemma add_allow_sound:
  "add_allow ts A = Inr A' \<Longrightarrow> t \<in> set A' \<Longrightarrow> t \<in> set A \<or> (ValidateTarget t = None \<and> t \<in> set ts)"
  by (induction ts arbitrary: A) (fastforce split: option.splits)+

lemma add_allow_mono: "add_allow ts A = Inr A' \<Longrightarrow> set A \<subseteq> set A'"
  by (induction ts arbitrary: A) (fastforce split: option.splits)+

lemma add_tcp_allowed:
  "add_tcp es (T, A) = Inr (T', A') \<Longrightarrow> set A \<subseteq> set A' \<and> (\<forall>x \<in> set T'. x \<in> set T \<or> snd x \<in> set A')"
proof (induction es arbitrary: T A)
  case (Cons e es)
  obtain p t ok where c: "cut CHR ''='' e = (p, t, ok)" by (metis prod_cases3)
  obtain port where rest: "add_tcp es (AList.update port t T, List.insert t A) = Inr (T', A')"
    using Cons.prems c by (auto split: option.splits if_splits)
  from Cons.IH [OF rest] set_update_subset [of port t T] show ?case by fastforce
qed auto

lemma serve_services_Inr:
  assumes "serve_services fl = Inr sv"
  shows "\<exists>A. add_tcp (sf_tcp fl) ([], []) = Inr (sv_targets sv, A) \<and> add_allow (sf_allow fl) A = Inr (sv_allowed sv)"
    and "udpServiceSpecs (sf_udp fl) = Inr (sv_udp sv)" and "sf_tun fl \<longrightarrow> sv_allowed sv = [] \<and> sv_udp sv = []"
proof -
  obtain u where u: "udpServiceSpecs (sf_udp fl) = Inr u"
    using assms by (cases "udpServiceSpecs (sf_udp fl)") (auto simp: serve_services_def split: if_splits)
  obtain T A where t: "add_tcp (sf_tcp fl) ([], []) = Inr (T, A)"
    using assms u by (cases "add_tcp (sf_tcp fl) ([], [])") (auto simp: serve_services_def split: if_splits)
  obtain B where b: "add_allow (sf_allow fl) A = Inr B"
    using assms u t by (cases "add_allow (sf_allow fl) A") (auto simp: serve_services_def split: if_splits)
  have sv: "\<not> (sf_tun fl \<and> (B \<noteq> [] \<or> u \<noteq> []))" "sv = \<lparr>sv_targets = T, sv_allowed = B, sv_udp = u\<rparr>"
    using assms unfolding serve_services_def u t by (cases "sf_tun fl"; simp add: b split: if_split_asm)+
  show "\<exists>A. add_tcp (sf_tcp fl) ([], []) = Inr (sv_targets sv, A) \<and> add_allow (sf_allow fl) A = Inr (sv_allowed sv)"
    using sv(2) t b by simp
  show "udpServiceSpecs (sf_udp fl) = Inr (sv_udp sv)" using sv(2) u by simp
  show "sf_tun fl \<longrightarrow> sv_allowed sv = [] \<and> sv_udp sv = []" using sv by simp
qed

lemma services_named:
  assumes "serve_services fl = Inr sv"
  shows "(port, t) \<in> set (sv_targets sv) \<Longrightarrow> 2 \<le> port \<and> ValidateTarget t = None \<and> named (sf_tcp fl) port t"
    and "t \<in> set (sv_allowed sv) \<Longrightarrow> ValidateTarget t = None \<and> (t \<in> set (sf_allow fl) \<or> (\<exists>port. named (sf_tcp fl) port t))"
proof -
  obtain A where A: "add_tcp (sf_tcp fl) ([], []) = Inr (sv_targets sv, A)" "add_allow (sf_allow fl) A = Inr (sv_allowed sv)"
    using serve_services_Inr(1) [OF assms] by blast
  note a = add_tcp_sound [OF A(1)]
  show "(port, t) \<in> set (sv_targets sv) \<Longrightarrow> 2 \<le> port \<and> ValidateTarget t = None \<and> named (sf_tcp fl) port t"
    using a by fastforce
  show "t \<in> set (sv_allowed sv) \<Longrightarrow> ValidateTarget t = None \<and> (t \<in> set (sf_allow fl) \<or> (\<exists>port. named (sf_tcp fl) port t))"
    using add_allow_sound [OF A(2)] a by fastforce
qed

section \<open>Properties\<close>

text \<open>
  C17. The running server's authorizations are the set of the last successful reload of the store, kept
  through at most two failed reloads; the third failure in a row revokes everyone, and the next success
  restores the configured peers.
\<close>

theorem authorizations_follow_store:
  "\<exists>t. serve_loop C J parse_addr msg dir (map Reload fss) \<lparr>sg_reload = no_failures, sg_authorized = initial, sg_log = []\<rparr> = Inr t \<and>
     sg_authorized t = auth_spec C initial (map (Peers C J parse_addr dir) fss)"
  using serve_loop_reloads [of "\<lparr>sg_reload = no_failures, sg_authorized = initial, sg_log = []\<rparr>" C J parse_addr msg dir fss]
  by auto

text \<open>
  Whoever is authorized is, or was at most two reloads ago, paired in a trusted way: after three
  reloads, every authorized key is that of a valid descriptor which a trusted file of the store held at
  one of the last three reloads, under the peer identity derived from the key. A peer removed from the
  store has therefore lost its authorization after three reloads, whatever else happens to the store.
\<close>

lemma serve_loop_trusted:
  assumes "serve_loop C J parse_addr msg dir (map Reload fss)
      \<lparr>sg_reload = no_failures, sg_authorized = initial, sg_log = []\<rparr> = Inr t"
    and "map_of (sg_authorized t) pid = Some key" and "3 \<le> length fss"
  shows "\<exists>f \<in> set (drop (length fss - 3) fss). \<exists>d. trusted_descriptor C J parse_addr dir f d \<and> d_public d = key \<and> pid = ID C key"
proof -
  have "sg_authorized t = auth_spec C initial (map (Peers C J parse_addr dir) fss)"
    using serve_loop_reloads [of "\<lparr>sg_reload = no_failures, sg_authorized = initial, sg_log = []\<rparr>" C J parse_addr msg dir fss] assms(1)
    by auto
  then obtain r ds d where r: "r \<in> set (take 3 (rev (map (Peers C J parse_addr dir) fss)))" "r = Inr ds"
    "d \<in> set ds" "d_public d = key" "pid = ID C key"
    using auth_spec_recent [of C initial "map (Peers C J parse_addr dir) fss" pid key] assms(2,3) by auto
  have "set (take 3 (rev fss)) = set (drop (length fss - 3) fss)" by (simp add: take_rev)
  then obtain f where "f \<in> set (drop (length fss - 3) fss)" "Peers C J parse_addr dir f = Inr ds"
    using r(1,2) by (auto simp: rev_map take_map)
  with r Peers_trusted show ?thesis by blast
qed

text \<open>
  C24. The served surface is what the operator named. A tunnel port has a TCP handler exactly if the
  packet filter publishes it; a connection to a published service port reaches only the destination
  given for that port, and one to the proxy port only a destination given with \<open>--tcp\<close> or
  \<open>--allow-target\<close>, whatever the client sends; in TUN mode no destination is reachable at all.
\<close>

theorem served_surface:
  assumes "serve_services fl = Inr sv"
  shows "(OnTCP sv port \<noteq> None \<longleftrightarrow> (\<exists>(a, b) \<in> set (publishedTCPPorts (sv_targets sv)). a \<le> port \<and> port \<le> b)) \<and>
    (relay sv dial wok port inp = Some t \<longrightarrow>
       dial t \<and> ValidateTarget t = None \<and> \<not> sf_tun fl \<and>
       (if port = 1 then t \<in> set (sf_allow fl) \<or> (\<exists>p. named (sf_tcp fl) p t) else named (sf_tcp fl) port t))"
proof -
  have pub: "OnTCP sv port \<noteq> None \<longleftrightarrow> port = 1 \<or> port \<in> mkeys (sv_targets sv)"
    using map_of_in_mkeys [of "sv_targets sv" port] by (auto simp add: OnTCP_def split: option.splits)
  have tun: "sv_allowed sv = []" "sv_targets sv = []" if "sf_tun fl"
  proof -
    obtain A where A: "add_tcp (sf_tcp fl) ([], []) = Inr (sv_targets sv, A)" "add_allow (sf_allow fl) A = Inr (sv_allowed sv)"
      using serve_services_Inr(1) [OF assms] by blast
    show "sv_allowed sv = []" using that serve_services_Inr(3) [OF assms] by simp
    with add_allow_mono [OF A(2)] have "A = []" by simp
    then show "sv_targets sv = []" using add_tcp_allowed [OF A(1)] by (cases "sv_targets sv") auto
  qed
  have "dial t \<and> ValidateTarget t = None \<and> \<not> sf_tun fl \<and>
       (if port = 1 then t \<in> set (sf_allow fl) \<or> (\<exists>p. named (sf_tcp fl) p t) else named (sf_tcp fl) port t)"
    if r: "relay sv dial wok port inp = Some t"
  proof (cases "port = 1")
    case True
    then have "fst (Serve (\<lambda>t. t \<in> set (sv_allowed sv)) dial wok (fresh_conn inp)) = Some t"
      using r by (simp add: relay_def OnTCP_def fresh_conn_def)
    with Serve_result [OF prod.collapse [symmetric], of "\<lambda>t. t \<in> set (sv_allowed sv)" dial wok inp]
    have "t \<in> set (sv_allowed sv) \<and> dial t" by simp
    with True services_named(2) [OF assms] tun show ?thesis by auto
  next
    case False
    then have "map_of (sv_targets sv) port = Some t" "dial t"
      using r by (auto simp: relay_def OnTCP_def split: option.splits if_splits)
    with False services_named(1) [OF assms map_of_SomeD] tun show ?thesis by auto
  qed
  with pub show ?thesis by (force simp: publishedTCPPorts_def)
qed

theorem served_surface_witness:
  "relay \<lparr>sv_targets = [(22, ''h:22'')], sv_allowed = [''h:22''], sv_udp = []\<rparr> (\<lambda>_. True) always 22 [] = Some ''h:22'' \<and>
   named [''22=h:22''] 22 ''h:22''"
proof -
  let ?fl = "\<lparr>sf_tcp = [''22=h:22''], sf_udp = [], sf_allow = [], sf_idle = 1, sf_tun = False, sf_export = [], sf_nargs = 0\<rparr>"
  let ?sv = "\<lparr>sv_targets = [(22, ''h:22'')], sv_allowed = [''h:22''], sv_udp = []\<rparr>"
  have "serve_services ?fl = Inr ?sv"
    by (simp add: serve_services_def udpServiceSpecs_def cut_def parse_uint16_def digit_val_def ValidateTarget_def
        SplitHostPort_def Let_def)
  moreover have "relay ?sv (\<lambda>_. True) always 22 [] = Some ''h:22''" by (simp add: relay_def OnTCP_def)
  ultimately show ?thesis using served_surface [of ?fl ?sv 22 "\<lambda>_. True" always "[]" "''h:22''"] by simp
qed

end
