(* ===== verification/Mosh.thy ===== *)
theory Mosh
  imports Go_Strings Prelude "HOL-Library.Sublist"
begin

text \<open>
  The Mosh bootstrap over SSH (\<open>src/cmd/qcat/mosh.go\<close>): the remote command line, the response of
  \<open>mosh-server\<close>, the diagnostics shown when it fails, and the environment of \<open>mosh-client\<close>.

  Strings are byte strings, as in Go. The two regular expressions are written out as matching functions.
  \<open>sh_words\<close> is what a POSIX shell makes of a line that uses no expansion: it is the specification the
  quoting is verified against.
\<close>

section \<open>String functions of the standard library\<close>

text \<open>\<open>strings.Split\<close> with a separator of one byte.\<close>

fun split_on :: "char \<Rightarrow> string \<Rightarrow> string list" where
  "split_on c [] = [[]]"
| "split_on c (x # xs) =
     (if x = c then [] # split_on c xs
      else case split_on c xs of [] \<Rightarrow> [[x]] | l # ls \<Rightarrow> (x # l) # ls)"

fun join_with :: "string \<Rightarrow> string list \<Rightarrow> string" where
  "join_with sep [] = []"
| "join_with sep [x] = x"
| "join_with sep (x # y # ys) = x @ sep @ join_with sep (y # ys)"

definition trim_cr :: "string \<Rightarrow> string" where
  "trim_cr s = (if s \<noteq> [] \<and> last s = CHR 0x0D then butlast s else s)"

fun contains :: "string \<Rightarrow> string \<Rightarrow> bool" where
  "contains p [] \<longleftrightarrow> p = []"
| "contains p (c # cs) \<longleftrightarrow> prefix p (c # cs) \<or> contains p cs"

abbreviation ord :: "char \<Rightarrow> nat" where "ord c \<equiv> of_char c"

text \<open>The length of the valid UTF-8 sequence at the start of a string, 0 if there is none.\<close>

definition cont :: "nat \<Rightarrow> bool" where "cont b \<longleftrightarrow> 128 \<le> b \<and> b \<le> 191"

definition rune_len :: "string \<Rightarrow> nat" where
  "rune_len s =
     (let b = (\<lambda>i. if i < length s then ord (s ! i) else 0) in
      if b 0 < 128 then (if s = [] then 0 else 1)
      else if 194 \<le> b 0 \<and> b 0 \<le> 223 then (if cont (b 1) then 2 else 0)
      else if 224 \<le> b 0 \<and> b 0 \<le> 239 then
        (if cont (b 1) \<and> cont (b 2) \<and> (b 0 = 224 \<longrightarrow> 160 \<le> b 1) \<and> (b 0 = 237 \<longrightarrow> b 1 \<le> 159) then 3 else 0)
      else if 240 \<le> b 0 \<and> b 0 \<le> 244 then
        (if cont (b 1) \<and> cont (b 2) \<and> cont (b 3) \<and> (b 0 = 240 \<longrightarrow> 144 \<le> b 1) \<and> (b 0 = 244 \<longrightarrow> b 1 \<le> 143) then 4 else 0)
      else 0)"

text \<open>The white space of \<open>strings.TrimSpace\<close>, encoded.\<close>

definition spaces :: "string list" where
  "spaces = map (map char_of)
     ([[9], [10], [11], [12], [13], [32], [194, 133], [194, 160], [225, 154, 128]] @
      map (\<lambda>x. [226, 128, x]) [128..<139] @
      [[226, 128, 168], [226, 128, 169], [226, 128, 175], [226, 129, 159], [227, 128, 128 :: nat]])"

function trim_front :: "string list \<Rightarrow> string \<Rightarrow> string" where
  "trim_front sp s =
     (case find (\<lambda>w. w \<noteq> [] \<and> prefix w s) sp of None \<Rightarrow> s | Some w \<Rightarrow> trim_front sp (drop (length w) s))"
  by pat_completeness auto

termination
proof (relation "measure (length \<circ> snd)", goal_cases)
  case (2 sp s w)
  then have "w \<noteq> []" "prefix w s" by (auto simp: find_Some_iff)
  then show ?case by (auto simp: prefix_def)
qed simp

declare trim_front.simps [simp del]

definition TrimSpace :: "string \<Rightarrow> string" where
  "TrimSpace s = rev (trim_front (map rev spaces) (rev (trim_front spaces s)))"

section \<open>The response of mosh-server\<close>

datatype mosh_error = BadConnect | BadPort | NoConnect | RunFailed

record moshSession =
  ms_port :: nat
  ms_key :: string

definition is_digit :: "char \<Rightarrow> bool" where
  "is_digit c \<longleftrightarrow> 48 \<le> ord c \<and> ord c \<le> 57"

definition key_char :: "char \<Rightarrow> bool" where
  "key_char c \<longleftrightarrow> (65 \<le> ord c \<and> ord c \<le> 90) \<or> (97 \<le> ord c \<and> ord c \<le> 122) \<or> is_digit c \<or> c = CHR ''/'' \<or> c = CHR ''+''"

definition moshConnect :: "string \<Rightarrow> (string \<times> string) option" where
  "moshConnect line =
     (if \<not> prefix ''MOSH CONNECT '' line then None
      else
        (let r = drop 13 line; d = takeWhile is_digit r; k = drop (length d) r in
         if 1 \<le> length d \<and> length d \<le> 5 \<and> k \<noteq> [] \<and> hd k = CHR '' '' \<and> length (tl k) = 22 \<and> list_all key_char (tl k)
         then Some (d, tl k) else None))"

fun connect_lines :: "nat \<Rightarrow> string list \<Rightarrow> moshSession \<Rightarrow> mosh_error + moshSession" where
  "connect_lines expected [] s = (if ms_key s = [] then Inl NoConnect else Inr s)"
| "connect_lines expected (l # ls) s =
     (let line = trim_cr l in
      if \<not> prefix ''MOSH CONNECT'' line then connect_lines expected ls s
      else case moshConnect line of None \<Rightarrow> Inl BadConnect
      | Some (d, k) \<Rightarrow>
        if ms_key s \<noteq> [] then Inl BadConnect
        else (case parse_digits 0 d of None \<Rightarrow> Inl BadPort
          | Some port \<Rightarrow>
            if port < 1 \<or> port > 65535 \<or> (expected \<noteq> 0 \<and> port \<noteq> expected) then Inl BadPort
            else connect_lines expected ls \<lparr>ms_port = port, ms_key = k\<rparr>))"

definition parseMoshConnect :: "string \<Rightarrow> nat \<Rightarrow> mosh_error + moshSession" where
  "parseMoshConnect out expected = connect_lines expected (split_on CHR 0x0A out) \<lparr>ms_port = 0, ms_key = []\<rparr>"

section \<open>The remote command\<close>

abbreviation sq :: char where "sq \<equiv> CHR 0x27"
abbreviation dq :: char where "dq \<equiv> CHR 0x22"

definition shellWord :: "string \<Rightarrow> string" where
  "shellWord s = [sq] @ concat (map (\<lambda>c. if c = sq then [sq, dq, sq, dq, sq] else [c]) s) @ [sq]"

definition mosh_words :: "nat \<Rightarrow> string list \<Rightarrow> string list" where
  "mosh_words port cmd =
     [''new'', ''-i'', ''127.0.0.1''] @ (if port \<noteq> 0 then [''-p'', itoa port] else []) @
     [''-c'', ''256'', ''-l'', ''LANG=en_US.UTF-8''] @ (if cmd \<noteq> [] then ''--'' # cmd else [])"

definition mosh_script :: "string \<Rightarrow> string" where
  "mosh_script args =
     ''if command -v mosh-server >/dev/null 2>&1; then exec mosh-server '' @ args @
     ''; elif [ -x /opt/homebrew/bin/mosh-server ]; then exec /opt/homebrew/bin/mosh-server '' @ args @
     ''; elif [ -x /usr/local/bin/mosh-server ]; then exec /usr/local/bin/mosh-server '' @ args @
     ''; else printf '' @ [sq] @ ''%s'' @ [CHR 0x5C] @ ''n'' @ [sq] @ '' '' @ [sq] @
     ''mosh-server not found; install Mosh or use --mosh-server PATH'' @ [sq] @ '' >&2; exit 127; fi''"

definition moshServerCommand :: "string \<Rightarrow> nat \<Rightarrow> string list \<Rightarrow> string" where
  "moshServerCommand server port cmd =
     (let args = join_with '' '' (map shellWord (mosh_words port cmd)) in
      if server \<noteq> [] then shellWord server @ '' '' @ args
      else ''sh -c '' @ shellWord (mosh_script args))"

text \<open>
  The words a shell reads from a line: blanks separate words, everything between single quotes is
  literal, and so is everything between double quotes that has no meaning there. A line that uses any
  other character with a meaning to the shell has no reading here.
\<close>

datatype sh_mode = Plain | Single | Double

definition sh_special :: "char \<Rightarrow> bool" where
  "sh_special c \<longleftrightarrow> c \<in> set ''|&;<>()$`*?[#~=%!{}'' \<or> c = CHR 0x5C \<or> c = CHR 0x0A \<or> c = CHR 0x09"

definition more :: "string option \<Rightarrow> string \<Rightarrow> string option" where
  "more w t = Some ((case w of None \<Rightarrow> [] | Some u \<Rightarrow> u) @ t)"

fun sh_read :: "sh_mode \<Rightarrow> string option \<Rightarrow> string \<Rightarrow> string list option" where
  "sh_read Plain w [] = Some (case w of None \<Rightarrow> [] | Some u \<Rightarrow> [u])"
| "sh_read Single w [] = None"
| "sh_read Double w [] = None"
| "sh_read Plain w (c # cs) =
     (if c = CHR '' '' then
        (case w of None \<Rightarrow> sh_read Plain None cs | Some u \<Rightarrow> map_option (Cons u) (sh_read Plain None cs))
      else if c = sq then sh_read Single (more w []) cs
      else if c = dq then sh_read Double (more w []) cs
      else if sh_special c then None
      else sh_read Plain (more w [c]) cs)"
| "sh_read Single w (c # cs) = (if c = sq then sh_read Plain w cs else sh_read Single (more w [c]) cs)"
| "sh_read Double w (c # cs) =
     (if c = dq then sh_read Plain w cs
      else if c \<in> set ''$`'' \<or> c = CHR 0x5C then None
      else sh_read Double (more w [c]) cs)"

definition sh_words :: "string \<Rightarrow> string list option" where
  "sh_words line = sh_read Plain None line"

section \<open>Diagnostics\<close>

function strip_controls :: "string \<Rightarrow> string" where
  "strip_controls [] = []"
| "strip_controls (c # cs) =
     (if ord c < 128 then
        (if (ord c < 32 \<and> ord c \<noteq> 9) \<or> ord c = 127 then strip_controls cs else c # strip_controls cs)
      else
        (let w = rune_len (c # cs) in
         if w = 0 then map char_of [239, 191, 189 :: nat] @ strip_controls cs
         else take w (c # cs) @ strip_controls (drop (w - 1) cs)))"
  by pat_completeness auto

termination
  by (relation "measure length") auto

definition key_run :: "string \<Rightarrow> nat" where
  "key_run s = length (takeWhile key_char s)"

text \<open>\<open>ReplaceAllString\<close> of the pattern: a maximal run of at least 22 key characters and up to two equals signs.\<close>

function redact :: "string \<Rightarrow> string" where
  "redact [] = []"
| "redact (c # cs) =
     (let n = key_run (c # cs) in
      if 22 \<le> n then
        ''[redacted]'' @
        redact (drop (length (takeWhile (\<lambda>x. x = CHR ''='') (take 2 (drop n (c # cs))))) (drop n (c # cs)))
      else c # redact cs)"
  by pat_completeness auto

termination
  by (relation "measure length") auto

definition clean_lines :: "string \<Rightarrow> string list" where
  "clean_lines stderr =
     map (\<lambda>line. redact (strip_controls line)) (filter (\<lambda>line. \<not> contains ''MOSH CONNECT'' line) (split_on CHR 0x0A stderr))"

definition moshDiagnostic :: "string \<Rightarrow> string" where
  "moshDiagnostic stderr =
     (let diagnostic = TrimSpace (join_with [CHR 0x0A] (clean_lines stderr)) in
      if length diagnostic > 4096 then take 4096 diagnostic @ [CHR 0x0A] @ ''[truncated]'' else diagnostic)"

section \<open>The bootstrap\<close>

definition bounded_Write :: "string \<Rightarrow> string \<Rightarrow> string option" where
  "bounded_Write buf p = (if length buf + length p > 64 * 1024 then None else Some (buf @ p))"

text \<open>
  The run of SSH is given by how it ends and the chunks it writes to standard output and error. They are
  kept whatever their length: \<open>boundedMoshOutput\<close> embeds \<open>bytes.Buffer\<close>, so the copying in \<open>os/exec\<close> finds the
  promoted \<open>ReadFrom\<close> of the buffer and never calls \<open>Write\<close> with its bound.
\<close>

definition bootstrapMosh :: "bool \<Rightarrow> string list \<Rightarrow> string list \<Rightarrow> nat \<Rightarrow> (mosh_error \<times> string) + moshSession" where
  "bootstrapMosh run_ok outs errs port =
     (let out = concat outs; err = concat errs in
      if \<not> run_ok then Inl (RunFailed, moshDiagnostic err)
      else case parseMoshConnect out port of Inl e \<Rightarrow> Inl (e, moshDiagnostic err) | Inr s \<Rightarrow> Inr s)"

definition moshEnvironment :: "string list \<Rightarrow> string \<Rightarrow> string list" where
  "moshEnvironment env key = filter (\<lambda>e. \<not> prefix ''MOSH_KEY='' e) env @ [''MOSH_KEY='' @ key]"

section \<open>Lemmas\<close>

subsection \<open>Quoting\<close>

lemma sh_read_quoted:
  "sh_read Single w (concat (map (\<lambda>c. if c = sq then [sq, dq, sq, dq, sq] else [c]) s) @ sq # rest) =
   sh_read Plain (if s = [] then w else more w s) rest"
proof (induction s arbitrary: w)
  case (Cons c s)
  have "sh_read Plain (if s = [] then more w [c] else more (more w [c]) s) rest = sh_read Plain (more w (c # s)) rest"
    by (simp add: more_def)
  then show ?case
  proof (cases "c = sq")
    case True
    have "more (more (more w []) [sq]) [] = more w [sq]" by (simp add: more_def)
    with True Cons.IH [of "more w [sq]"] show ?thesis by (auto simp: more_def)
  next
    case False
    then show ?thesis using Cons.IH [of "more w [c]"] by (auto simp: more_def)
  qed
qed simp

lemma sh_read_shellWord: "sh_read Plain None (shellWord s @ rest) = sh_read Plain (Some s) rest"
  using sh_read_quoted [of "Some []" s rest] by (simp add: shellWord_def more_def)

lemma sh_words_quoted: "sh_words (join_with '' '' (map shellWord ws)) = Some ws"
proof (induction ws rule: induct_list012)
  case (2 w)
  then show ?case using sh_read_shellWord [of w "[]"] by (simp add: sh_words_def)
next
  case (3 w v ws)
  then show ?case using sh_read_shellWord [of w "'' '' @ join_with '' '' (map shellWord (v # ws))"]
    by (simp add: sh_words_def)
qed (simp add: sh_words_def)

subsection \<open>Responses\<close>

text \<open>The matching function decides the language of the regular expression.\<close>

lemma moshConnect_iff:
  "moshConnect line = Some (d, k) \<longleftrightarrow>
   line = ''MOSH CONNECT '' @ d @ '' '' @ k \<and> 1 \<le> length d \<and> length d \<le> 5 \<and> list_all is_digit d \<and>
   length k = 22 \<and> list_all key_char k"
proof
  assume m: "moshConnect line = Some (d, k)"
  then obtain r where r: "line = ''MOSH CONNECT '' @ r" by (auto simp: moshConnect_def prefix_def split: if_splits)
  have d: "d = takeWhile is_digit r" and k: "drop (length d) r \<noteq> []" "hd (drop (length d) r) = CHR '' ''" "k = tl (drop (length d) r)"
    and ok: "1 \<le> length d" "length d \<le> 5" "length k = 22" "list_all key_char k"
    using m r by (auto simp: moshConnect_def Let_def split: if_splits)
  have "r = d @ drop (length d) r" using d by (metis append_take_drop_id takeWhile_eq_take)
  also have "drop (length d) r = '' '' @ k" using k by (cases "drop (length d) r") auto
  finally have "r = d @ '' '' @ k" .
  moreover have "list_all is_digit d" using d by (auto simp: list_all_iff dest: set_takeWhileD)
  ultimately show "line = ''MOSH CONNECT '' @ d @ '' '' @ k \<and> 1 \<le> length d \<and> length d \<le> 5 \<and> list_all is_digit d \<and>
    length k = 22 \<and> list_all key_char k" using r ok by simp
next
  assume a: "line = ''MOSH CONNECT '' @ d @ '' '' @ k \<and> 1 \<le> length d \<and> length d \<le> 5 \<and> list_all is_digit d \<and>
    length k = 22 \<and> list_all key_char k"
  have "takeWhile is_digit (d @ '' '' @ k) = d"
    using a by (subst takeWhile_append2) (auto simp: list_all_iff is_digit_def)
  with a show "moshConnect line = Some (d, k)" by (simp add: moshConnect_def Let_def)
qed

definition announces :: "string \<Rightarrow> bool" where
  "announces l \<longleftrightarrow> prefix ''MOSH CONNECT'' (trim_cr l)"

definition announced :: "nat \<Rightarrow> string \<Rightarrow> moshSession \<Rightarrow> bool" where
  "announced expected l s \<longleftrightarrow> (\<exists>d. moshConnect (trim_cr l) = Some (d, ms_key s) \<and> parse_digits 0 d = Some (ms_port s)) \<and>
     1 \<le> ms_port s \<and> ms_port s \<le> 65535 \<and> (expected = 0 \<or> ms_port s = expected)"

lemma announced_announces: "announced expected l s \<Longrightarrow> announces l"
  by (auto simp: announced_def announces_def moshConnect_iff prefix_def)

lemma connect_lines_done:
  "ms_key s \<noteq> [] \<Longrightarrow> connect_lines expected ls s = Inr t \<longleftrightarrow> t = s \<and> (\<forall>l \<in> set ls. \<not> announces l)"
  by (induction ls) (auto simp: announces_def Let_def split: option.splits)

text \<open>Exactly one line announces a session, and it announces this one.\<close>

definition sole :: "nat \<Rightarrow> string list \<Rightarrow> moshSession \<Rightarrow> bool" where
  "sole expected ls t \<longleftrightarrow>
     (\<exists>ls1 l ls2. ls = ls1 @ l # ls2 \<and> (\<forall>x \<in> set ls1 \<union> set ls2. \<not> announces x) \<and> announced expected l t)"

lemma sole_Nil [simp]: "\<not> sole expected [] t"
  by (simp add: sole_def)

lemma sole_Cons:
  "sole expected (l # ls) t \<longleftrightarrow>
   announced expected l t \<and> (\<forall>x \<in> set ls. \<not> announces x) \<or> \<not> announces l \<and> sole expected ls t"
proof
  assume "sole expected (l # ls) t"
  then obtain ls1 m ls2 where m: "l # ls = ls1 @ m # ls2" "\<forall>x \<in> set ls1 \<union> set ls2. \<not> announces x" "announced expected m t"
    unfolding sole_def by blast
  then show "announced expected l t \<and> (\<forall>x \<in> set ls. \<not> announces x) \<or> \<not> announces l \<and> sole expected ls t"
    unfolding sole_def by (cases ls1) auto
next
  assume "announced expected l t \<and> (\<forall>x \<in> set ls. \<not> announces x) \<or> \<not> announces l \<and> sole expected ls t"
  then show "sole expected (l # ls) t"
  proof
    assume "announced expected l t \<and> (\<forall>x \<in> set ls. \<not> announces x)"
    then show ?thesis unfolding sole_def by (intro exI [of _ "[]"] exI [of _ l] exI [of _ ls]) simp
  next
    assume a: "\<not> announces l \<and> sole expected ls t"
    then obtain ls1 m ls2 where "ls = ls1 @ m # ls2" "\<forall>x \<in> set ls1 \<union> set ls2. \<not> announces x" "announced expected m t"
      unfolding sole_def by blast
    with a show ?thesis unfolding sole_def by (intro exI [of _ "l # ls1"] exI [of _ m] exI [of _ ls2]) auto
  qed
qed

lemma connect_lines_iff: "ms_key s = [] \<Longrightarrow> connect_lines expected ls s = Inr t \<longleftrightarrow> sole expected ls t"
proof (induction ls)
  case (Cons l ls)
  show ?case
  proof (cases "announces l")
    case False
    then have "connect_lines expected (l # ls) s = connect_lines expected ls s" by (simp add: announces_def)
    with False Cons show ?thesis using announced_announces by (auto simp: sole_Cons)
  next
    case True
    have "connect_lines expected (l # ls) s = Inr t \<longleftrightarrow> announced expected l t \<and> (\<forall>x \<in> set ls. \<not> announces x)"
    proof (cases "moshConnect (trim_cr l)")
      case None
      then show ?thesis using True by (simp add: announces_def announced_def)
    next
      case (Some dk)
      obtain d k where dk: "dk = (d, k)" by fastforce
      have k: "k \<noteq> []" using Some dk by (auto simp: moshConnect_iff)
      have eq: "connect_lines expected (l # ls) s = (case parse_digits 0 d of None \<Rightarrow> Inl BadPort
          | Some port \<Rightarrow> if port < 1 \<or> port > 65535 \<or> (expected \<noteq> 0 \<and> port \<noteq> expected) then Inl BadPort
            else connect_lines expected ls \<lparr>ms_port = port, ms_key = k\<rparr>)"
        using True Some dk Cons.prems by (simp add: announces_def)
      show ?thesis
      proof (cases "parse_digits 0 d")
        case None
        then show ?thesis using eq Some dk by (simp add: announced_def)
      next
        case (Some port)
        have "announced expected l t \<longleftrightarrow> t = \<lparr>ms_port = port, ms_key = k\<rparr> \<and> 1 \<le> port \<and> port \<le> 65535 \<and> (expected = 0 \<or> port = expected)"
          using \<open>moshConnect (trim_cr l) = Some dk\<close> dk Some by (cases t) (auto simp: announced_def)
        with eq Some connect_lines_done [of "\<lparr>ms_port = port, ms_key = k\<rparr>" expected ls t] k show ?thesis
          by (auto simp del: connect_lines.simps)
      qed
    qed
    then show ?thesis using True by (simp add: sole_Cons)
  qed
qed simp

subsection \<open>Redaction\<close>

definition no_key_run :: "string \<Rightarrow> bool" where
  "no_key_run s \<longleftrightarrow> (\<forall>w. sublist w s \<longrightarrow> list_all key_char w \<longrightarrow> length w < 22)"

lemma no_key_run_sublist: "no_key_run s \<Longrightarrow> sublist t s \<Longrightarrow> no_key_run t"
  unfolding no_key_run_def using sublist_order.order.trans by blast

lemma key_run_prefix: "prefix w s \<Longrightarrow> list_all key_char w \<Longrightarrow> length w \<le> key_run s"
  by (auto simp: prefix_def key_run_def takeWhile_append2 list_all_iff)

lemma no_key_run_Cons: "no_key_run t \<Longrightarrow> key_run (c # t) < 22 \<Longrightarrow> no_key_run (c # t)"
  unfolding no_key_run_def sublist_Cons_right using key_run_prefix by (meson le_less_trans)

lemma no_key_run_Nil [simp]: "no_key_run []"
  by (auto simp: no_key_run_def)

lemma no_key_run_sep: "no_key_run a \<Longrightarrow> no_key_run b \<Longrightarrow> \<not> key_char c \<Longrightarrow> no_key_run (a @ c # b)"
proof (induction a)
  case Nil
  then show ?case by (simp add: no_key_run_Cons key_run_def)
next
  case (Cons x a)
  have "no_key_run a" using Cons.prems(1) by (rule no_key_run_sublist) (simp add: sublist_Cons_right)
  moreover have "key_run (x # a @ c # b) \<le> key_run (x # a)"
    using Cons.prems(3) by (auto simp: key_run_def takeWhile_append takeWhile_eq_all_conv [THEN iffD2])
  moreover have "key_run (x # a) < 22"
    using Cons.prems(1) unfolding no_key_run_def key_run_def
    by (metis list_all_iff set_takeWhileD sublist_order.order_refl prefix_imp_sublist takeWhile_is_prefix)
  ultimately show ?case using Cons by (simp add: no_key_run_Cons)
qed

lemma key_run_redact: "key_run (redact s) \<le> key_run s"
proof (induction s rule: redact.induct)
  case (2 c cs)
  then show ?case
    by (cases "22 \<le> key_run (c # cs)") (auto simp: key_run_def key_char_def is_digit_def Let_def split: if_splits)
qed simp

lemma redact_short: "no_key_run (redact s)"
proof (induction s rule: redact.induct)
  case (2 c cs)
  show ?case
  proof (cases "22 \<le> key_run (c # cs)")
    case True
    have b: "\<not> key_char CHR '']''" "\<not> key_char CHR ''[''" by (simp_all add: key_char_def is_digit_def)
    let ?rest = "redact (drop (length (takeWhile (\<lambda>x. x = CHR ''='') (take 2 (drop (key_run (c # cs)) (c # cs)))))
      (drop (key_run (c # cs)) (c # cs)))"
    have "no_key_run ?rest" using 2(1) [OF refl True] .
    moreover have "no_key_run ''redacted''"
      unfolding no_key_run_def using sublist_length_le by fastforce
    ultimately have "no_key_run (''[redacted'' @ CHR '']'' # ?rest)"
      using no_key_run_sep [of "[]" "''redacted''" "CHR ''[''"] b by (intro no_key_run_sep) simp_all
    with True show ?thesis by (simp add: Let_def)
  next
    case False
    have "key_run (c # redact cs) < 22"
      using False key_run_redact [of cs] by (auto simp: key_run_def split: if_splits)
    with False 2(2) [OF refl False] show ?thesis by (simp add: Let_def no_key_run_Cons)
  qed
qed simp

lemma join_lines_short: "\<forall>l \<in> set ls. no_key_run l \<Longrightarrow> no_key_run (join_with [CHR 0x0A] ls)"
proof (induction ls rule: induct_list012)
  case (3 x y ys)
  have "\<not> key_char CHR 0x0A" by (simp add: key_char_def is_digit_def)
  with 3 show ?case using no_key_run_sep [of x "join_with [CHR 0x0A] (y # ys)" "CHR 0x0A"] by simp
qed simp_all

lemma trim_front_suffix: "suffix (trim_front sp s) s"
proof (induction sp s rule: trim_front.induct)
  case (1 sp s)
  show ?case
  proof (cases "find (\<lambda>w. w \<noteq> [] \<and> prefix w s) sp")
    case None
    then show ?thesis by (simp add: trim_front.simps [of sp s])
  next
    case (Some w)
    then have "suffix (trim_front sp (drop (length w) s)) (drop (length w) s)" using 1 by simp
    with Some suffix_drop [of "length w" s] show ?thesis
      by (simp add: trim_front.simps [of sp s])
  qed
qed

lemma TrimSpace_sublist: "sublist (TrimSpace s) s"
proof -
  have "suffix (rev (TrimSpace s)) (rev (trim_front spaces s))" by (simp add: TrimSpace_def trim_front_suffix)
  then have "prefix (TrimSpace s) (trim_front spaces s)" by (simp add: suffix_to_prefix)
  then show ?thesis using trim_front_suffix [of spaces s] sublist_order.order.trans by blast
qed

section \<open>Properties\<close>

text \<open>
  C30. The remote side runs exactly what was asked for. A shell reads the command line sent over SSH as
  the server path and the arguments, each one word, whatever characters they contain; without a path
  it reads a fixed script, in which the same arguments follow the discovered executable as words.
\<close>

theorem mosh_command_words:
  "(server \<noteq> [] \<longrightarrow> sh_words (moshServerCommand server port cmd) = Some (server # mosh_words port cmd)) \<and>
   (server = [] \<longrightarrow> (\<exists>args. sh_words (moshServerCommand server port cmd) = Some [''sh'', ''-c'', mosh_script args] \<and>
      sh_words (''exec mosh-server '' @ args) = Some (''exec'' # ''mosh-server'' # mosh_words port cmd)))"
proof -
  let ?args = "join_with '' '' (map shellWord (mosh_words port cmd))"
  have q: "sh_read Plain None ?args = Some (mosh_words port cmd)" using sh_words_quoted by (simp add: sh_words_def)
  have "sh_words (shellWord server @ '' '' @ ?args) = Some (server # mosh_words port cmd)"
    using sh_read_shellWord [of server "'' '' @ ?args"] q by (simp add: sh_words_def)
  moreover have "sh_words (''sh -c '' @ shellWord (mosh_script ?args)) = Some [''sh'', ''-c'', mosh_script ?args]"
    using sh_read_shellWord [of "mosh_script ?args" "[]"] by (simp add: sh_words_def sh_special_def more_def)
  moreover have "sh_words (''exec mosh-server '' @ ?args) = Some (''exec'' # ''mosh-server'' # mosh_words port cmd)"
    using q by (simp add: sh_words_def sh_special_def more_def)
  ultimately show ?thesis unfolding moshServerCommand_def Let_def by auto
qed

theorem mosh_command_words_witness:
  "sh_words (moshServerCommand ''/bin/m s'' 0 [''a b'', ''$x'']) =
   Some [''/bin/m s'', ''new'', ''-i'', ''127.0.0.1'', ''-c'', ''256'', ''-l'', ''LANG=en_US.UTF-8'', ''--'', ''a b'', ''$x'']"
  using mosh_command_words [of "''/bin/m s''" 0 "[''a b'', ''$x'']"] by (simp add: mosh_words_def)

text \<open>
  C39. A session is taken from the output of \<open>mosh-server\<close> exactly if one line, and no other line, starts
  with \<open>MOSH CONNECT\<close>, and that line consists of this, a port of one to five digits between 1 and 65535,
  equal to the port that was asked for, if any, and a key of 22 characters.
\<close>

theorem mosh_connect_iff:
  "parseMoshConnect out expected = Inr s \<longleftrightarrow>
   (\<exists>ls1 l ls2 d. split_on CHR 0x0A out = ls1 @ l # ls2 \<and>
      (\<forall>x \<in> set ls1 \<union> set ls2. \<not> prefix ''MOSH CONNECT'' (trim_cr x)) \<and>
      trim_cr l = ''MOSH CONNECT '' @ d @ '' '' @ ms_key s \<and> 1 \<le> length d \<and> length d \<le> 5 \<and> list_all is_digit d \<and>
      length (ms_key s) = 22 \<and> list_all key_char (ms_key s) \<and> parse_digits 0 d = Some (ms_port s) \<and>
      1 \<le> ms_port s \<and> ms_port s \<le> 65535 \<and> (expected = 0 \<or> ms_port s = expected))"
  unfolding parseMoshConnect_def
  by (subst connect_lines_iff) (auto simp: sole_def announced_def announces_def moshConnect_iff)

theorem mosh_connect_iff_witness:
  "\<exists>ls1 l ls2. split_on CHR 0x0A ''MOSH CONNECT 60001 0123456789abcdefABCDEF'' = ls1 @ l # ls2 \<and>
     (\<exists>d. trim_cr l = ''MOSH CONNECT '' @ d @ '' '' @ ''0123456789abcdefABCDEF'')"
proof -
  have "parseMoshConnect ''MOSH CONNECT 60001 0123456789abcdefABCDEF'' 0 =
      Inr \<lparr>ms_port = 60001, ms_key = ''0123456789abcdefABCDEF''\<rparr>"
    by (simp add: parseMoshConnect_def moshConnect_def trim_cr_def is_digit_def key_char_def digit_val_def Let_def)
  from mosh_connect_iff [THEN iffD1, OF this] show ?thesis
    by (elim exE conjE) (simp only: moshSession.simps, blast)
qed

text \<open>
  C31. A failing bootstrap never shows the session key: no text reported with an error, whatever the
  remote side printed, contains 22 consecutive characters of the key alphabet, and it is bounded.
\<close>

theorem diagnostics_hide_key:
  "no_key_run (moshDiagnostic stderr) \<and> length (moshDiagnostic stderr) \<le> 4096 + 12 \<and>
   (case bootstrapMosh ok outs errs port of Inl (e, text) \<Rightarrow> no_key_run text | Inr s \<Rightarrow> True)"
proof -
  have d: "no_key_run (moshDiagnostic err)" for err
  proof -
    have "no_key_run (join_with [CHR 0x0A] (clean_lines err))"
      by (rule join_lines_short) (auto simp: clean_lines_def redact_short)
    then have t: "no_key_run (TrimSpace (join_with [CHR 0x0A] (clean_lines err)))"
      using TrimSpace_sublist no_key_run_sublist by blast
    then have "no_key_run (take 4096 (TrimSpace (join_with [CHR 0x0A] (clean_lines err))))"
      by (rule no_key_run_sublist) (simp add: take_is_prefix prefix_imp_sublist)
    moreover have "\<not> key_char CHR 0x0A" by (simp add: key_char_def is_digit_def)
    moreover have "no_key_run ''[truncated]''"
      unfolding no_key_run_def using sublist_length_le by fastforce
    ultimately show ?thesis using t no_key_run_sep by (simp add: moshDiagnostic_def Let_def)
  qed
  then have "case bootstrapMosh ok outs errs port of Inl (e, text) \<Rightarrow> no_key_run text | Inr s \<Rightarrow> True"
    by (auto simp: bootstrapMosh_def Let_def split: sum.splits)
  with d show ?thesis by (simp add: moshDiagnostic_def Let_def)
qed

end
