(* ===== verification/Tunnel.thy ===== *)
theory Tunnel
  imports Go_Strings
begin

text \<open>
  The OS tunnel device and its host routes (\<open>src/internal/tunnel/tunnel.go\<close>): \<open>Open\<close>, \<open>Configure\<close>, \<open>Peer\<close>
  and \<open>Close\<close>.

  The commands the code runs are values, rendered to the executable and its arguments by \<open>argv\<close>; whether
  each is reported as successful is an input. Every operation returns the commands it ran with what was
  reported, and \<open>system_routes\<close> says which routes the interface may have after them: a command that was
  killed after its five seconds, or failed in any other way, may have changed the route nevertheless.
\<close>

unbundle bit_operations_syntax

section \<open>Addresses\<close>

text \<open>\<open>netip.Addr\<close>: no address, an IPv4 address, or an IPv6 address with a zone.\<close>

datatype addr = NoAddr | Addr4 bytes | Addr6 bytes string

definition Is6 :: "addr \<Rightarrow> bool" where
  "Is6 a = (case a of Addr6 _ _ \<Rightarrow> True | _ \<Rightarrow> False)"

definition mapped4 :: "bytes \<Rightarrow> bool" where
  "mapped4 b \<longleftrightarrow> take 12 b = replicate 10 0 @ [255, 255]"

definition private4 :: "bytes \<Rightarrow> bool" where
  "private4 b \<longleftrightarrow> b ! 0 = 10 \<or> (b ! 0 = 172 \<and> b ! 1 AND 240 = 16) \<or> (b ! 0 = 192 \<and> b ! 1 = 168)"

definition IsPrivate :: "addr \<Rightarrow> bool" where
  "IsPrivate a =
     (case a of NoAddr \<Rightarrow> False
      | Addr4 b \<Rightarrow> private4 b
      | Addr6 b zone \<Rightarrow> if mapped4 b then private4 (drop 12 b) else b ! 0 AND 254 = 252)"

definition addr_text :: "addr \<Rightarrow> string" where
  "addr_text a =
     (case a of NoAddr \<Rightarrow> ''invalid IP''
      | Addr4 b \<Rightarrow> ipv4_text b
      | Addr6 b zone \<Rightarrow>
        (if mapped4 b then ''::ffff:'' @ ipv4_text (drop 12 b) else ipv6_text b) @
        (if zone = [] then [] else CHR ''%'' # zone))"

section \<open>Commands\<close>

datatype os = Darwin | Linux | OtherOS

datatype cmd =
    Ifconfig string addr
  | IpAddrAdd addr string
  | IpLinkUp string
  | RouteHost os bool addr string

definition route_verb :: "bool \<Rightarrow> string" where
  "route_verb add = (if add then ''add'' else ''delete'')"

fun argv :: "cmd \<Rightarrow> string list" where
  "argv (Ifconfig name a) = [''/sbin/ifconfig'', name, ''inet6'', addr_text a, ''prefixlen'', ''128'', ''up'']"
| "argv (IpAddrAdd a name) = [''/sbin/ip'', ''-6'', ''addr'', ''add'', addr_text a @ ''/128'', ''dev'', name]"
| "argv (IpLinkUp name) = [''/sbin/ip'', ''link'', ''set'', ''dev'', name, ''up'']"
| "argv (RouteHost os add a name) =
     (if os = Darwin then [''/sbin/route'', ''-n'', route_verb add, ''-inet6'', addr_text a, ''-interface'', name]
      else [''/sbin/ip'', ''-6'', ''route'', route_verb add, addr_text a @ ''/128'', ''dev'', name])"

type_synonym cmd_log = "(cmd \<times> bool) list"

section \<open>The tunnel\<close>

datatype tun_error = UnsupportedOS | CreateFailed | NameFailed | NotPrivate6 | CommandFailed cmd | DeviceCloseFailed

record tunnel =
  tn_name :: string
  tn_routes :: "(addr, bool) gomap"

definition open_name :: "os \<Rightarrow> string" where
  "open_name os = (if os = Darwin then ''utun'' else ''qcat%d'')"

text \<open>\<open>CreateTUN\<close> with the requested name and MTU may fail; so may asking for the actual name, after which
the device is closed. The flag tells whether a device is left open.\<close>

definition tun_Open :: "os \<Rightarrow> (string \<Rightarrow> nat \<Rightarrow> bool) \<Rightarrow> string option \<Rightarrow> (tun_error + tunnel) \<times> bool" where
  "tun_Open os CreateTUN actual =
     (if os \<noteq> Darwin \<and> os \<noteq> Linux then (Inl UnsupportedOS, False)
      else if \<not> CreateTUN (open_name os) 1280 then (Inl CreateFailed, False)
      else case actual of None \<Rightarrow> (Inl NameFailed, False)
      | Some name \<Rightarrow> (Inr \<lparr>tn_name = name, tn_routes = []\<rparr>, True))"

definition command :: "(cmd \<Rightarrow> bool) \<Rightarrow> cmd \<Rightarrow> tun_error option \<times> cmd_log" where
  "command run c = (if run c then (None, [(c, True)]) else (Some (CommandFailed c), [(c, False)]))"

definition tun_Configure :: "os \<Rightarrow> (cmd \<Rightarrow> bool) \<Rightarrow> addr \<Rightarrow> tunnel \<Rightarrow> tun_error option \<times> cmd_log" where
  "tun_Configure os run local t =
     (if \<not> Is6 local \<or> \<not> IsPrivate local then (Some NotPrivate6, [])
      else if os = Darwin then command run (Ifconfig (tn_name t) local)
      else case command run (IpAddrAdd local (tn_name t)) of
        (Some e, log) \<Rightarrow> (Some e, log)
      | (None, log) \<Rightarrow> (let (e, log') = command run (IpLinkUp (tn_name t)) in (e, log @ log')))"

definition routed :: "tunnel \<Rightarrow> addr \<Rightarrow> bool" where
  "routed t a = (case map_of (tn_routes t) a of Some b \<Rightarrow> b | None \<Rightarrow> False)"

definition tun_Peer :: "os \<Rightarrow> (cmd \<Rightarrow> bool) \<Rightarrow> addr \<Rightarrow> bool \<Rightarrow> tunnel \<Rightarrow> tun_error option \<times> cmd_log \<times> tunnel" where
  "tun_Peer os run a add t =
     (if \<not> Is6 a \<or> \<not> IsPrivate a then (Some NotPrivate6, [], t)
      else if routed t a = add then (None, [], t)
      else
        (case command run (RouteHost os add a (tn_name t)) of
           (None, log) \<Rightarrow>
             (None, log, t\<lparr>tn_routes := (if add then AList.update a True (tn_routes t) else AList.delete a (tn_routes t))\<rparr>)
         | (Some e, log) \<Rightarrow> (Some e, log, t)))"

fun remove_routes ::
  "os \<Rightarrow> (cmd \<Rightarrow> bool) \<Rightarrow> addr list \<Rightarrow> tunnel \<Rightarrow> tun_error list \<times> cmd_log \<times> tunnel" where
  "remove_routes os run [] t = ([], [], t)"
| "remove_routes os run (a # as) t =
     (case tun_Peer os run a False t of (e, log, t1) \<Rightarrow>
        (case remove_routes os run as t1 of (errs, log', t2) \<Rightarrow>
           ((case e of None \<Rightarrow> errs | Some x \<Rightarrow> x # errs), log @ log', t2)))"

definition tun_Close :: "os \<Rightarrow> (cmd \<Rightarrow> bool) \<Rightarrow> bool \<Rightarrow> tunnel \<Rightarrow> tun_error list \<times> cmd_log \<times> tunnel" where
  "tun_Close os run device_ok t =
     (case remove_routes os run (map fst (tn_routes t)) t of (errs, log, t1) \<Rightarrow>
        (if device_ok then errs else errs @ [DeviceCloseFailed], log, t1))"

section \<open>What the commands do\<close>

text \<open>What a command does to the host routes of the interface when it takes effect.\<close>

fun route_effect :: "cmd \<Rightarrow> addr set \<Rightarrow> addr set" where
  "route_effect (RouteHost os add a name) R = (if add then insert a R else R - {a})"
| "route_effect _ R = R"

text \<open>
  The host routes the interface may have after a log: a command that is reported as successful took
  effect, one that is reported as failed may have taken effect or not.
\<close>

inductive system_routes :: "cmd_log \<Rightarrow> addr set \<Rightarrow> bool" where
  no_commands: "system_routes [] {}"
| took_effect: "system_routes log R \<Longrightarrow> system_routes (log @ [(c, ok)]) (route_effect c R)"
| no_effect: "system_routes log R \<Longrightarrow> system_routes (log @ [(c, False)]) R"

text \<open>The latest command on the route to an address: whether it was an addition and what was reported.\<close>

fun outcome :: "addr \<Rightarrow> cmd \<times> bool \<Rightarrow> (bool \<times> bool) option \<Rightarrow> (bool \<times> bool) option" where
  "outcome a (RouteHost os add b name, ok) r = (if b = a then Some (add, ok) else r)"
| "outcome a _ r = r"

definition latest :: "cmd_log \<Rightarrow> addr \<Rightarrow> (bool \<times> bool) option" where
  "latest log a = fold (outcome a) log None"

definition host_route :: "os \<Rightarrow> string \<Rightarrow> cmd \<Rightarrow> bool" where
  "host_route os name c \<longleftrightarrow> (\<exists>add a. c = RouteHost os add a name \<and> Is6 a \<and> IsPrivate a)"

text \<open>A device in use: peers come and go, then it is closed; commands may fail at any time.\<close>

datatype tun_event = PeerEvent addr bool "cmd \<Rightarrow> bool" | CloseEvent bool "cmd \<Rightarrow> bool"

inductive tun_step :: "os \<Rightarrow> tunnel \<times> cmd_log \<Rightarrow> tun_event \<Rightarrow> tunnel \<times> cmd_log \<Rightarrow> bool" for os where
  tun_peer: "tun_Peer os run a add t = (e, out, t') \<Longrightarrow> tun_step os (t, log) (PeerEvent a add run) (t', log @ out)"
| tun_close: "tun_Close os run ok t = (errs, out, t') \<Longrightarrow> tun_step os (t, log) (CloseEvent ok run) (t', log @ out)"

inductive_cases tun_stepE: "tun_step os s ev u"

definition tun_ok :: "os \<Rightarrow> string \<Rightarrow> tunnel \<times> cmd_log \<Rightarrow> bool" where
  "tun_ok os name = (\<lambda>(t, log). mdistinct (tn_routes t) \<and> (\<forall>x \<in> set (tn_routes t). snd x \<and> Is6 (fst x) \<and> IsPrivate (fst x)) \<and>
     (\<forall>a. a \<in> mkeys (tn_routes t) \<longleftrightarrow> latest log a \<in> {Some (True, True), Some (False, False)}) \<and>
     (\<forall>x \<in> set log. host_route os name (fst x)) \<and> tn_name t = name)"

lemma latest_snoc [simp]: "latest (log @ [x]) a = outcome a x (latest log a)" "latest [] a = None"
  by (simp_all add: latest_def)

text \<open>Where the latest command on an address was successful, the route is known.\<close>

lemma latest_known:
  "system_routes log R \<Longrightarrow>
   (latest log a = None \<longrightarrow> a \<notin> R) \<and> (\<forall>add. latest log a = Some (add, True) \<longrightarrow> (a \<in> R \<longleftrightarrow> add))"
proof (induction rule: system_routes.induct)
  case (took_effect log R c ok)
  then show ?case by (cases c) auto
next
  case (no_effect log R c)
  then show ?case by (cases c) auto
qed simp

lemma routed_iff: "mdistinct (tn_routes t) \<Longrightarrow> \<forall>x \<in> set (tn_routes t). snd x \<Longrightarrow> routed t a \<longleftrightarrow> a \<in> mkeys (tn_routes t)"
  by (force simp: routed_def map_of_eq_None_iff dest: map_of_SomeD split: option.splits)

lemma mkeys_update: "mkeys (AList.update k v m) = insert k (mkeys m)"
  using dom_update [of k v m] by (simp add: dom_map_of_conv_image_fst)

lemma mkeys_delete: "mkeys (AList.delete k m) = mkeys m - {k}"
  by (auto simp: AList.delete_eq image_iff)

lemma tun_Peer_cases:
  assumes "tun_Peer os run a add t = (e, out, t')"
  obtains (noop) "out = []" "t' = t" "e \<noteq> None \<or> routed t a = add"
  | (failed) "out = [(RouteHost os add a (tn_name t), False)]" "t' = t" "e \<noteq> None" "Is6 a" "IsPrivate a" "routed t a = (\<not> add)"
  | (changed) "out = [(RouteHost os add a (tn_name t), True)]" "e = None" "Is6 a" "IsPrivate a" "routed t a = (\<not> add)"
      "t' = t\<lparr>tn_routes := (if add then AList.update a True (tn_routes t) else AList.delete a (tn_routes t))\<rparr>"
proof -
  let ?c = "RouteHost os add a (tn_name t)"
  consider "\<not> (Is6 a \<and> IsPrivate a)" | "Is6 a" "IsPrivate a" "routed t a = add"
    | "Is6 a" "IsPrivate a" "routed t a = (\<not> add)" "run ?c" | "Is6 a" "IsPrivate a" "routed t a = (\<not> add)" "\<not> run ?c"
    by blast
  then show thesis
  proof cases
    case 1
    then show thesis using assms by (intro noop) (auto simp: tun_Peer_def)
  next
    case 2
    then show thesis using assms by (intro noop) (simp_all add: tun_Peer_def)
  next
    case 3
    then show thesis using assms by (intro changed) (simp_all add: tun_Peer_def command_def)
  next
    case 4
    then show thesis using assms by (intro failed) (auto simp: tun_Peer_def command_def)
  qed
qed

lemma tun_okD:
  assumes "tun_ok os name (t, log)"
  shows "mdistinct (tn_routes t)" "\<forall>x \<in> set (tn_routes t). snd x \<and> Is6 (fst x) \<and> IsPrivate (fst x)"
    "\<And>a. a \<in> mkeys (tn_routes t) \<longleftrightarrow> latest log a \<in> {Some (True, True), Some (False, False)}"
    "\<forall>x \<in> set log. host_route os name (fst x)" "tn_name t = name"
  using assms by (simp_all add: tun_ok_def)

lemma tun_Peer_ok:
  assumes "tun_ok os name (t, log)" "tun_Peer os run a add t = (e, out, t')"
  shows "tun_ok os name (t', log @ out)"
  using assms(2)
proof (cases rule: tun_Peer_cases)
  case noop
  then show ?thesis using assms(1) by simp
next
  case failed
  then have "host_route os name (RouteHost os add a (tn_name t))" using tun_okD(5) [OF assms(1)] by (auto simp: host_route_def)
  moreover have "a \<in> mkeys (tn_routes t) \<longleftrightarrow> \<not> add"
    using failed(6) routed_iff [OF tun_okD(1) [OF assms(1)]] tun_okD(2) [OF assms(1)] by simp
  ultimately show ?thesis using assms(1) failed(1,2) by (auto simp: tun_ok_def)
next
  case changed
  note ok = tun_okD [OF assms(1)]
  have "mdistinct (tn_routes t')" using ok(1) changed(6) by (simp add: distinct_update distinct_delete)
  moreover have "\<forall>x \<in> set (tn_routes t'). snd x \<and> Is6 (fst x) \<and> IsPrivate (fst x)"
  proof
    fix x
    assume "x \<in> set (tn_routes t')"
    then have "x = (a, True) \<or> x \<in> set (tn_routes t)"
      using changed(6) set_update_subset [of a True "tn_routes t"] by (cases add) (auto simp: AList.delete_eq)
    then show "snd x \<and> Is6 (fst x) \<and> IsPrivate (fst x)" using ok(2) changed(3,4) by fastforce
  qed
  moreover have "x \<in> mkeys (tn_routes t') \<longleftrightarrow> latest (log @ out) x \<in> {Some (True, True), Some (False, False)}" for x
    unfolding changed(1,6) using ok(3) [of x] mkeys_update [of a True "tn_routes t"] mkeys_delete [of a "tn_routes t"]
    by (cases add) (simp_all add: eq_commute [of x])
  moreover have "host_route os name (RouteHost os add a (tn_name t))"
    unfolding host_route_def using changed(3,4) ok(5) by blast
  ultimately show ?thesis using ok(4,5) changed(1,6) by (simp add: tun_ok_def)
qed

lemma remove_routes_ok:
  "remove_routes os run as t = (errs, out, t') \<Longrightarrow> tun_ok os name (t, log) \<Longrightarrow>
   tun_ok os name (t', log @ out) \<and> mkeys (tn_routes t') \<subseteq> mkeys (tn_routes t) \<and>
   (errs = [] \<longrightarrow> mkeys (tn_routes t') \<inter> set as = {})"
proof (induction as arbitrary: t log errs out)
  case (Cons a as)
  obtain e o1 t1 where p: "tun_Peer os run a False t = (e, o1, t1)" by (metis prod_cases3)
  obtain es o2 where r: "remove_routes os run as t1 = (es, o2, t')" "out = o1 @ o2"
    "errs = (case e of None \<Rightarrow> es | Some x \<Rightarrow> x # es)"
    using Cons.prems(1) p by (auto split: prod.splits)
  have ok: "tun_ok os name (t1, log @ o1)" by (rule tun_Peer_ok [OF Cons.prems(2) p])
  note ih = Cons.IH [OF r(1) ok]
  have sub: "mkeys (tn_routes t1) \<subseteq> mkeys (tn_routes t)"
    using p by (cases rule: tun_Peer_cases) (auto simp: mkeys_delete)
  have gone: "a \<notin> mkeys (tn_routes t1)" if "e = None"
    using p
  proof (cases rule: tun_Peer_cases)
    case noop
    then show ?thesis using that Cons.prems(2) routed_iff [of t a] by (auto simp: tun_ok_def)
  qed (use that in \<open>auto simp: mkeys_delete\<close>)
  have "mkeys (tn_routes t') \<inter> set (a # as) = {}" if "errs = []"
  proof -
    have "e = None" "es = []" using that r(3) by (auto split: option.splits)
    with ih gone show ?thesis by auto
  qed
  with ih subset_trans [OF _ sub] r(2) show ?case by (simp only: append_assoc) blast
qed simp

lemma tun_step_ok: "tun_ok os name s \<Longrightarrow> tun_step os s ev u \<Longrightarrow> tun_ok os name u"
proof (erule tun_stepE)
  fix run a add t e out t' log
  assume "tun_ok os name s" "s = (t, log)" "u = (t', log @ out)" "tun_Peer os run a add t = (e, out, t')"
  then show "tun_ok os name u" using tun_Peer_ok by blast
next
  fix run ok t errs out t' log
  assume "tun_ok os name s" "s = (t, log)" "u = (t', log @ out)" "tun_Close os run ok t = (errs, out, t')"
  then show "tun_ok os name u" using remove_routes_ok by (auto simp: tun_Close_def split: prod.splits)
qed

interpretation tunnel_machine: invariant_machine
  "\<lambda>s. s = (\<lparr>tn_name = name, tn_routes = []\<rparr>, [])" "tun_step os" "tun_ok os name" for name os
proof unfold_locales
  show "tun_ok os name s" if "s = (\<lparr>tn_name = name, tn_routes = []\<rparr>, [])" for name os s
    using that by (simp add: tun_ok_def)
  show "tun_ok os name t" if "tun_ok os name s" "tun_step os s e t" for name os s e t
    using that by (rule tun_step_ok)
qed

section \<open>Properties\<close>

text \<open>
  C29. The tunnel only ever touches host routes to private IPv6 addresses on its own interface, and its
  table is right wherever the system has answered. Whatever peers are added and removed and whichever
  commands fail or are killed, every command it has run adds or deletes one such route; for every
  address whose latest command did not fail, the table holds it exactly if the interface has the route,
  however the failed commands on other addresses ended; and when \<open>Close\<close> then reports no error, the only
  routes that can be left are those whose addition was reported as failed.
\<close>

theorem tunnel_routes_known:
  assumes "runs (tun_step os) (\<lparr>tn_name = name, tn_routes = []\<rparr>, []) es (t, log)"
  shows "(\<forall>(c, ok) \<in> set log. host_route os name c) \<and>
    (\<forall>a R. system_routes log R \<longrightarrow> (\<forall>add. latest log a \<noteq> Some (add, False)) \<longrightarrow> (a \<in> R \<longleftrightarrow> routed t a)) \<and>
    (\<forall>run out t' R. tun_Close os run True t = ([], out, t') \<longrightarrow> system_routes (log @ out) R \<longrightarrow>
       (\<forall>a \<in> R. latest (log @ out) a = Some (True, False)))"
proof (intro conjI allI impI ballI)
  have ok: "tun_ok os name (t, log)" using tunnel_machine.run_start_inv [OF assms] by blast
  show "case x of (c, ok) \<Rightarrow> host_route os name c" if "x \<in> set log" for x using tun_okD(4) [OF ok] that by auto
  show "a \<in> R \<longleftrightarrow> routed t a" if R: "system_routes log R" "\<forall>add. latest log a \<noteq> Some (add, False)" for a R
  proof -
    have "routed t a \<longleftrightarrow> latest log a = Some (True, True)"
      using routed_iff [OF tun_okD(1) [OF ok]] tun_okD(2,3) [OF ok] R(2) by auto
    with latest_known [OF R(1), of a] R(2) show ?thesis by (cases "latest log a") auto
  qed
  show "latest (log @ out) a = Some (True, False)"
    if c: "tun_Close os run True t = ([], out, t')" and R: "system_routes (log @ out) R" "a \<in> R" for run out t' R a
  proof -
    have "remove_routes os run (map fst (tn_routes t)) t = ([], out, t')"
      using c by (auto simp: tun_Close_def split: prod.splits)
    from remove_routes_ok [OF this ok] have t': "tun_ok os name (t', log @ out)"
      and sub: "mkeys (tn_routes t') \<subseteq> mkeys (tn_routes t)" and "mkeys (tn_routes t') \<inter> mkeys (tn_routes t) = {}"
      by simp_all
    from this(3) have "mkeys (tn_routes t') = {}" using Int_absorb2 [OF sub] by simp
    then have "latest (log @ out) a \<notin> {Some (True, True), Some (False, False)}" using tun_okD(3) [OF t', of a] by simp
    with latest_known [OF R(1), of a] R(2) show ?thesis by (cases "latest (log @ out) a") auto
  qed
qed

definition demo_addr :: addr where
  "demo_addr = Addr6 [253, 0, 0, 0, 0, 0, 0, 0, 0, 0, 0, 0, 0, 0, 0, 1] []"

text \<open>A route is added, its deletion fails, and \<open>Close\<close> deletes it.\<close>

theorem tunnel_routes_known_witness:
  "let c = (\<lambda>add. RouteHost Linux add demo_addr ''qcat0'') in
   (\<forall>R. system_routes [(c True, True)] R \<longrightarrow> demo_addr \<in> R) \<and>
   (\<forall>R. system_routes [(c True, True), (c False, False), (c False, True)] R \<longrightarrow> R = {})"
proof -
  let ?c = "\<lambda>add. RouteHost Linux add demo_addr ''qcat0''"
  let ?t = "\<lparr>tn_name = ''qcat0'', tn_routes = []\<rparr>" and ?u = "\<lparr>tn_name = ''qcat0'', tn_routes = [(demo_addr, True)]\<rparr>"
  have demo: "Is6 demo_addr" "IsPrivate demo_addr" by (simp_all add: demo_addr_def Is6_def IsPrivate_def mapped4_def)
  have "tun_Peer Linux (\<lambda>_. True) demo_addr True ?t = (None, [(?c True, True)], ?u)"
    "tun_Peer Linux (\<lambda>_. False) demo_addr False ?u = (Some (CommandFailed (?c False)), [(?c False, False)], ?u)"
    by (simp_all add: tun_Peer_def demo routed_def command_def)
  note steps = tun_peer [OF this(1), of "[]"] tun_peer [OF this(2), of "[(?c True, True)]"]
  have one: "runs (tun_step Linux) (?t, []) [PeerEvent demo_addr True (\<lambda>_. True)] (?u, [(?c True, True)])"
    using steps(1) by (auto simp: runs_Cons_iff)
  have two: "runs (tun_step Linux) (?t, []) [PeerEvent demo_addr True (\<lambda>_. True), PeerEvent demo_addr False (\<lambda>_. False)]
      (?u, [(?c True, True), (?c False, False)])"
    using steps by (fastforce simp: runs_Cons_iff)
  have close: "tun_Close Linux (\<lambda>_. True) True ?u = ([], [(?c False, True)], ?t)"
    by (simp add: tun_Close_def tun_Peer_def demo routed_def command_def)
  have "demo_addr \<in> R" if "system_routes [(?c True, True)] R" for R
  proof -
    have "latest [(?c True, True)] demo_addr \<noteq> Some (add, False)" for add by (simp add: latest_def)
    with tunnel_routes_known [OF one] that have "demo_addr \<in> R \<longleftrightarrow> routed ?u demo_addr" by blast
    then show ?thesis by (simp add: routed_def)
  qed
  moreover have "R = {}" if "system_routes [(?c True, True), (?c False, False), (?c False, True)] R" for R
  proof -
    have "\<forall>a \<in> R. latest [(?c True, True), (?c False, False), (?c False, True)] a = Some (True, False)"
      using tunnel_routes_known [OF two] close that by fastforce
    then show ?thesis by (auto simp: latest_def split: if_splits)
  qed
  ultimately show ?thesis by (simp add: Let_def)
qed

end
