(* ===== verification/Control.thy ===== *)
theory Control
  imports Config_Store Socks
begin

text \<open>
  The local control sockets of running commands (\<open>src/internal/control/control.go\<close>): \<open>StartPeer\<close> claims a
  runtime name, its accept loop answers requests, \<open>Query\<close> finds the runtimes a request is for.

  The JSON encoding is a parameter (\<open>ctl_json\<close>). Whether somebody listens on a socket and how system calls
  on sockets end are inputs. Of a connection the model has what is read from each end.
\<close>

section \<open>Starting\<close>

datatype ctl_error = CtlFs fserror | BadRuntimeMode | NotASocket | AlreadyRunning | RemoveFailed | ListenFailed | ChmodFailed
  | BadRuntimeName | RequestFailed string | BadResponse string

record start_io =
  si_live :: bool
  si_remove :: bool
  si_listen :: bool
  si_chmod :: bool

definition run_dir :: "path \<Rightarrow> path" where
  "run_dir dir = dir @ [''run'']"

definition sock_path :: "path \<Rightarrow> string \<Rightarrow> path" where
  "sock_path dir name = run_dir dir @ [name @ ''.sock'']"

text \<open>Make room for the socket: an entry that is no socket or has a listener is in the way, a stale one goes.\<close>

definition clear_socket :: "start_io \<Rightarrow> path \<Rightarrow> fs \<Rightarrow> ctl_error + fs" where
  "clear_socket io p f =
     (case Lstat (fs_nodes f) p of
        None \<Rightarrow> if lstat_error (fs_nodes f) p = NotExist then Inr f else Inl (CtlFs (lstat_error (fs_nodes f) p))
      | Some st \<Rightarrow>
        if n_kind st \<noteq> Socket then Inl NotASocket
        else if si_live io then Inl AlreadyRunning
        else if \<not> si_remove io then Inl RemoveFailed
        else Inr (Remove_file p f))"

definition Chmod :: "path \<Rightarrow> 9 word \<Rightarrow> fs \<Rightarrow> fs" where
  "Chmod p perm f =
     (case real_entry (fs_nodes f) p of None \<Rightarrow> f
      | Some q \<Rightarrow>
        (case map_of (fs_nodes f) q of None \<Rightarrow> f
         | Some n \<Rightarrow> f\<lparr>fs_nodes := AList.update q (n\<lparr>n_perm := perm\<rparr>) (fs_nodes f)\<rparr>))"

text \<open>Closing the listener, here and at the end of the command, removes the socket.\<close>

definition StartPeer :: "start_io \<Rightarrow> 9 word \<Rightarrow> path \<Rightarrow> string \<Rightarrow> fs \<Rightarrow> ctl_error option \<times> fs" where
  "StartPeer io umask dir name f =
     (case MkdirAll [] (run_dir dir) 448 f of Inl (e, g) \<Rightarrow> (Some (CtlFs e), g)
      | Inr g \<Rightarrow>
        (case Lstat (fs_nodes g) (run_dir dir) of None \<Rightarrow> (Some (CtlFs (lstat_error (fs_nodes g) (run_dir dir))), g)
         | Some st \<Rightarrow>
           if \<not> is_dir st \<or> n_perm st AND 63 \<noteq> 0 then (Some BadRuntimeMode, g)
           else
             (case clear_socket io (sock_path dir name) g of Inl e \<Rightarrow> (Some e, g)
              | Inr h \<Rightarrow>
                if \<not> si_listen io then (Some ListenFailed, h)
                else (case create (sock_path dir name) Socket (511 AND NOT umask) [] h of Inl e \<Rightarrow> (Some ListenFailed, h)
                  | Inr k \<Rightarrow>
                    if \<not> si_chmod io then (Some ChmodFailed, Remove_file (sock_path dir name) k)
                    else (None, Chmod (sock_path dir name) 384 k)))))"

section \<open>Answering\<close>

datatype ctl_reply = PeerInfo string | Status bytes | Stopping string | UnknownCommand

record runtime =
  rt_name :: string
  rt_peer :: string
  rt_status :: bytes

definition respond :: "runtime \<Rightarrow> string \<Rightarrow> ctl_reply \<times> bool" where
  "respond r cmd =
     (if cmd = ''info'' then (PeerInfo (rt_peer r), False)
      else if cmd = ''status'' then (Status (rt_status r), False)
      else if cmd = ''stop'' then (Stopping (rt_name r), True)
      else (UnknownCommand, False))"

record ctl_json =
  enc_request :: "string \<Rightarrow> bytes"
  dec_request :: "bytes \<Rightarrow> string option"
  enc_reply :: "ctl_reply \<Rightarrow> bytes"
  dec_info :: "bytes \<Rightarrow> string option"
  json_valid :: "bytes \<Rightarrow> bool"

text \<open>One connection: at most 128 bytes are read of it. The result is what is written and whether \<open>stop\<close> is called.\<close>

definition serve_conn :: "ctl_json \<Rightarrow> runtime \<Rightarrow> bytes \<Rightarrow> bytes \<times> bool" where
  "serve_conn J r input =
     (case dec_request J (take 128 input) of None \<Rightarrow> ([], False)
      | Some cmd \<Rightarrow> (let (answer, stop) = respond r cmd in (enc_reply J answer, stop)))"

text \<open>The accept loop, until accepting fails: the answers and how often \<open>stop\<close> was called.\<close>

fun control_loop :: "ctl_json \<Rightarrow> runtime \<Rightarrow> bytes option list \<Rightarrow> bytes list \<times> nat" where
  "control_loop J r [] = ([], 0)"
| "control_loop J r (None # cs) = ([], 0)"
| "control_loop J r (Some input # cs) =
     (let (answer, stop) = serve_conn J r input; (answers, stops) = control_loop J r cs in
      (answer # answers, (if stop then Suc stops else stops)))"

section \<open>Asking\<close>

datatype request_error = Gone | BrokenPipe

type_synonym asker = "string \<Rightarrow> string \<Rightarrow> request_error + bytes"

definition runtime_name_ok :: "string \<Rightarrow> bool" where
  "runtime_name_ok name \<longleftrightarrow>
     name = [] \<or> \<not> (list_ex (\<lambda>c. c = CHR ''/'' \<or> c = CHR 0x5C) name \<or> name = ''.'' \<or> name = ''..'')"

definition is_sock :: "string \<times> node \<Rightarrow> bool" where
  "is_sock e \<longleftrightarrow> suffix ''.sock'' (fst e) \<and> n_kind (snd e) = Socket"

definition sock_name :: "string \<Rightarrow> string" where
  "sock_name fn = take (length fn - 5) fn"

text \<open>An exact runtime name takes precedence over any peer with the same name.\<close>

definition runtimeTarget :: "string \<Rightarrow> (string \<times> node) list \<Rightarrow> bool" where
  "runtimeTarget name es \<longleftrightarrow> list_ex (\<lambda>(fn, n). name \<noteq> [] \<and> fn = name @ ''.sock'' \<and> n_kind n = Socket) es"

definition asks_info :: "string \<Rightarrow> bool \<Rightarrow> string \<Rightarrow> bool" where
  "asks_info name target n \<longleftrightarrow> name \<noteq> [] \<and> n \<noteq> name \<and> \<not> target"

definition peer_matches :: "ctl_json \<Rightarrow> asker \<Rightarrow> string \<Rightarrow> string \<Rightarrow> bool" where
  "peer_matches J ask name n =
     (case ask n ''info'' of Inl e \<Rightarrow> False | Inr b \<Rightarrow> dec_info J b = Some name)"

text \<open>The loop over the entries: the answers, or an error, and the requests made.\<close>

fun query_entries ::
  "ctl_json \<Rightarrow> asker \<Rightarrow> string \<Rightarrow> string \<Rightarrow> bool \<Rightarrow> (string \<times> node) list \<Rightarrow>
   (ctl_error + (string \<times> bytes) list) \<times> (string \<times> string) list" where
  "query_entries J ask name cmd target [] = (Inr [], [])"
| "query_entries J ask name cmd target (e # es) =
     (if \<not> is_sock e then query_entries J ask name cmd target es
      else
        (let n = sock_name (fst e); asked = (if asks_info name target n then [(n, ''info'')] else []) in
         if name \<noteq> [] \<and> n \<noteq> name \<and> (target \<or> \<not> peer_matches J ask name n)
         then (let (r, reqs) = query_entries J ask name cmd target es in (r, asked @ reqs))
         else
           (case ask n cmd of
              Inl Gone \<Rightarrow> (let (r, reqs) = query_entries J ask name cmd target es in (r, asked @ (n, cmd) # reqs))
            | Inl BrokenPipe \<Rightarrow> (Inl (RequestFailed n), asked @ [(n, cmd)])
            | Inr b \<Rightarrow>
              if \<not> json_valid J b then (Inl (BadResponse n), asked @ [(n, cmd)])
              else
                (let (r, reqs) = query_entries J ask name cmd target es in
                 (case r of Inl err \<Rightarrow> Inl err | Inr out \<Rightarrow> Inr (AList.update n b out), asked @ (n, cmd) # reqs)))))"

definition Query ::
  "ctl_json \<Rightarrow> asker \<Rightarrow> path \<Rightarrow> string \<Rightarrow> string \<Rightarrow> fs \<Rightarrow>
   (ctl_error + (string \<times> bytes) list) \<times> (string \<times> string) list" where
  "Query J ask dir name cmd f =
     (if \<not> runtime_name_ok name then (Inl BadRuntimeName, [])
      else case Stat (fs_nodes f) (run_dir dir) of
        None \<Rightarrow>
          (if stat_error (fs_nodes f) (run_dir dir) = NotExist then Inr [] else Inl (CtlFs (stat_error (fs_nodes f) (run_dir dir))), [])
      | Some st \<Rightarrow>
        if \<not> is_dir st then (Inl (CtlFs NotDirectory), [])
        else (let es = entries (run_dir dir) f in query_entries J ask name cmd (runtimeTarget name es) es))"

text \<open>
  A request: the answer is read up to 1 MiB. \<open>conn\<close> is the other end of the socket: nobody, or a loop that
  answers.
\<close>

definition ctl_request :: "ctl_json \<Rightarrow> runtime option \<Rightarrow> string \<Rightarrow> request_error + bytes" where
  "ctl_request J conn cmd =
     (case conn of None \<Rightarrow> Inl Gone
      | Some r \<Rightarrow> Inr (take (2 ^ 20) (fst (serve_conn J r (enc_request J cmd)))))"

text \<open>The answers of the runtimes that are up.\<close>

definition ask_running :: "ctl_json \<Rightarrow> runtime list \<Rightarrow> asker" where
  "ask_running J running n cmd = ctl_request J (find (\<lambda>r. rt_name r = n) running) cmd"

section \<open>Lemmas\<close>

definition selected :: "ctl_json \<Rightarrow> asker \<Rightarrow> string \<Rightarrow> bool \<Rightarrow> string \<Rightarrow> bool" where
  "selected J ask name target n \<longleftrightarrow> name = [] \<or> n = name \<or> (\<not> target \<and> peer_matches J ask name n)"

definition sock_of :: "(string \<times> node) list \<Rightarrow> string \<Rightarrow> bool" where
  "sock_of es n \<longleftrightarrow> (\<exists>e \<in> set es. is_sock e \<and> sock_name (fst e) = n)"

lemma sock_of_simps [simp]:
  "\<not> sock_of [] n" "sock_of (e # es) n \<longleftrightarrow> is_sock e \<and> sock_name (fst e) = n \<or> sock_of es n"
  by (auto simp: sock_of_def)

lemma query_entries_Cons:
  assumes "is_sock e" "sock_name (fst e) = n"
  shows "query_entries J ask name cmd target (e # es) =
     (let asked = (if asks_info name target n then [(n, ''info'')] else []); (r, reqs) = query_entries J ask name cmd target es in
      if \<not> selected J ask name target n then (r, asked @ reqs)
      else case ask n cmd of
          Inl Gone \<Rightarrow> (r, asked @ (n, cmd) # reqs)
        | Inl BrokenPipe \<Rightarrow> (Inl (RequestFailed n), asked @ [(n, cmd)])
        | Inr b \<Rightarrow>
          if \<not> json_valid J b then (Inl (BadResponse n), asked @ [(n, cmd)])
          else (case r of Inl err \<Rightarrow> Inl err | Inr out \<Rightarrow> Inr (AList.update n b out), asked @ (n, cmd) # reqs))"
  using assms
  by (auto simp: Let_def selected_def split: sum.splits request_error.splits prod.splits)

text \<open>A query that succeeds has sent its command to the selected runtimes and to no other.\<close>

lemma query_entries_sound:
  "query_entries J ask name cmd target es = (Inr out, reqs) \<Longrightarrow> cmd \<noteq> ''info'' \<Longrightarrow>
   ((n, cmd) \<in> set reqs \<longleftrightarrow> sock_of es n \<and> selected J ask name target n) \<and>
   (map_of out n = Some b \<longleftrightarrow> (n, cmd) \<in> set reqs \<and> ask n cmd = Inr b)"
proof (induction es arbitrary: out reqs)
  case (Cons e es)
  show ?case
  proof (cases "is_sock e")
    case True
    obtain r reqs' where q: "query_entries J ask name cmd target es = (r, reqs')" by fastforce
    note eq = query_entries_Cons [OF True refl, of J ask name cmd target es]
    show ?thesis
    proof (cases r)
      case (Inl err)
      then show ?thesis using Cons.prems(1) eq q
        by (auto simp: Let_def split: if_splits sum.splits request_error.splits simp del: query_entries.simps)
    next
      case (Inr out')
      note ih = Cons.IH [OF q [unfolded Inr] Cons.prems(2)]
      show ?thesis using Cons.prems eq q Inr ih True
        by (auto simp: Let_def update_conv' split: if_splits sum.splits request_error.splits simp del: query_entries.simps)
    qed
  qed (use Cons in auto)
qed simp

lemma query_entries_total:
  assumes "\<And>n. n \<in> sock_name ` fst ` set es \<Longrightarrow> ask n cmd \<noteq> Inl BrokenPipe" "\<And>n b. ask n cmd = Inr b \<Longrightarrow> json_valid J b"
  shows "\<exists>out reqs. query_entries J ask name cmd target es = (Inr out, reqs)"
  using assms(1)
proof (induction es)
  case (Cons e es)
  then obtain out reqs where q: "query_entries J ask name cmd target es = (Inr out, reqs)" by auto
  show ?case
  proof (cases "is_sock e")
    case True
    have "ask (sock_name (fst e)) cmd \<noteq> Inl BrokenPipe" using Cons.prems by auto
    then show ?thesis
      unfolding query_entries_Cons [OF True refl] using q assms(2)
      by (auto simp: Let_def split: sum.splits request_error.splits)
  qed (use q in auto)
qed simp

lemma sock_name_append [simp]: "sock_name (n @ ''.sock'') = n"
  by (simp add: sock_name_def)

lemma sock_ofI: "(n @ ''.sock'', x) \<in> set es \<Longrightarrow> n_kind x = Socket \<Longrightarrow> sock_of es n"
  unfolding sock_of_def is_sock_def by (intro bexI [of _ "(n @ ''.sock'', x)"]) (auto simp: suffix_def)

lemma runtimeTargetI: "(name @ ''.sock'', x) \<in> set es \<Longrightarrow> n_kind x = Socket \<Longrightarrow> name \<noteq> [] \<Longrightarrow> runtimeTarget name es"
  by (auto simp: runtimeTarget_def list_ex_iff)

lemma find_name: "distinct (map rt_name rs) \<Longrightarrow> r \<in> set rs \<Longrightarrow> find (\<lambda>x. rt_name x = rt_name r) rs = Some r"
  by (induction rs) (auto simp: image_iff)

text \<open>Changing the permissions of an entry, and removing a socket, leave all other entries and their paths alone.\<close>

lemma Chmod_Lstat:
  assumes "Lstat (fs_nodes f) p = Some n"
  shows "Lstat (fs_nodes (Chmod p perm f)) p = Some (n\<lparr>n_perm := perm\<rparr>)"
    "Lstat (fs_nodes f) p' = Some x \<Longrightarrow> n_kind x \<noteq> n_kind n \<Longrightarrow> Lstat (fs_nodes (Chmod p perm f)) p' = Some x"
proof -
  obtain q where q: "real_entry (fs_nodes f) p = Some q" "map_of (fs_nodes f) q = Some n" using assms by (auto simp: Lstat_Some)
  then have g: "map_of (fs_nodes (Chmod p perm f)) = (map_of (fs_nodes f))(q \<mapsto> n\<lparr>n_perm := perm\<rparr>)"
    by (simp add: Chmod_def update_conv')
  have "walk 255 (fs_nodes (Chmod p perm f)) [] r = walk 255 (fs_nodes f) [] r" for r
    by (rule walk_kinds) (simp add: g q(2))
  then have e: "real_entry (fs_nodes (Chmod p perm f)) r = real_entry (fs_nodes f) r" for r
    by (simp add: real_entry_def EvalSymlinks_def)
  show "Lstat (fs_nodes (Chmod p perm f)) p = Some (n\<lparr>n_perm := perm\<rparr>)" by (simp add: Lstat_def e q(1) g)
  assume "Lstat (fs_nodes f) p' = Some x" and ne: "n_kind x \<noteq> n_kind n"
  then obtain r where r: "real_entry (fs_nodes f) p' = Some r" "map_of (fs_nodes f) r = Some x" by (auto simp: Lstat_Some)
  then have "r \<noteq> q" using q(2) ne by auto
  with r show "Lstat (fs_nodes (Chmod p perm f)) p' = Some x" by (simp add: Lstat_def e g)
qed

lemma Remove_socket_Lstat:
  assumes n: "Lstat (fs_nodes f) p = Some n" "n_kind n = Socket" and x: "Lstat (fs_nodes f) (d @ [c]) = Some x" "is_dir x"
    and dir: "\<And>q y. EvalSymlinks (fs_nodes f) d = Some q \<Longrightarrow> map_of (fs_nodes f) q = Some y \<Longrightarrow> is_dir y"
  shows "Lstat (fs_nodes (Remove_file p f)) (d @ [c]) = Some x"
proof -
  obtain q where q: "real_entry (fs_nodes f) p = Some q" "map_of (fs_nodes f) q = Some n" using n(1) by (auto simp: Lstat_Some)
  then have g: "map_of (fs_nodes (Remove_file p f)) = (map_of (fs_nodes f))(q := None)"
    by (simp add: Remove_file_def delete_conv')
  obtain b where b: "EvalSymlinks (fs_nodes f) d = Some b" "map_of (fs_nodes f) (b @ [c]) = Some x"
    using x(1) by (auto simp: Lstat_Some real_entry_Some)
  have "b \<noteq> q" using dir [OF b(1)] q(2) n(2) by (auto simp: is_dir_def)
  have "EvalSymlinks (fs_nodes (Remove_file p f)) d = Some b"
    unfolding EvalSymlinks_def
    by (rule walk_without_file [OF q(2) disjI2 [OF n(2)] _ b(1) [unfolded EvalSymlinks_def] \<open>b \<noteq> q\<close>]) (simp add: g)
  moreover have "b @ [c] \<noteq> q" using b(2) q(2) n(2) x(2) by (auto simp: is_dir_def)
  ultimately show ?thesis using b(2) by (simp add: Lstat_Some real_entry_Some g)
qed

text \<open>
  The documented behaviour of the encoding: requests of the program are decoded from their first 128
  bytes, what is encoded is valid, and a peer is read back.
\<close>

definition ctl_json_ok :: "ctl_json \<Rightarrow> bool" where
  "ctl_json_ok J \<longleftrightarrow>
     (\<forall>c \<in> {''info'', ''status'', ''stop''}. dec_request J (take 128 (enc_request J c)) = Some c) \<and>
     (\<forall>r. json_valid J (enc_reply J r)) \<and> (\<forall>p. dec_info J (enc_reply J (PeerInfo p)) = Some p)"

definition answers_fit :: "ctl_json \<Rightarrow> runtime \<Rightarrow> bool" where
  "answers_fit J r \<longleftrightarrow> length (enc_reply J (PeerInfo (rt_peer r))) \<le> 2 ^ 20 \<and> length (enc_reply J (Stopping (rt_name r))) \<le> 2 ^ 20"

lemma serve_info: "ctl_json_ok J \<Longrightarrow> serve_conn J r (enc_request J ''info'') = (enc_reply J (PeerInfo (rt_peer r)), False)"
  by (simp add: ctl_json_ok_def serve_conn_def respond_def)

lemma serve_stop: "ctl_json_ok J \<Longrightarrow> serve_conn J r (enc_request J ''stop'') = (enc_reply J (Stopping (rt_name r)), True)"
  by (simp add: ctl_json_ok_def serve_conn_def respond_def)

lemma peer_matches_running:
  assumes "ctl_json_ok J" "distinct (map rt_name running)" "r \<in> set running" "answers_fit J r"
  shows "peer_matches J (ask_running J running) name (rt_name r) \<longleftrightarrow> rt_peer r = name"
proof -
  have "ask_running J running (rt_name r) ''info'' = Inr (enc_reply J (PeerInfo (rt_peer r)))"
    using assms by (simp add: ask_running_def find_name ctl_request_def serve_info answers_fit_def)
  with assms(1) show ?thesis by (simp add: peer_matches_def ctl_json_ok_def)
qed

lemma stop_answer:
  assumes "ctl_json_ok J" "\<forall>r \<in> set running. answers_fit J r"
  shows "ask_running J running n ''stop'' \<noteq> Inl BrokenPipe" "ask_running J running n ''stop'' = Inr b \<Longrightarrow> json_valid J b"
proof -
  show "ask_running J running n ''stop'' \<noteq> Inl BrokenPipe" by (simp add: ask_running_def ctl_request_def split: option.splits)
  assume b: "ask_running J running n ''stop'' = Inr b"
  then obtain r where r: "find (\<lambda>r. rt_name r = n) running = Some r" by (auto simp: ask_running_def ctl_request_def split: option.splits)
  then have "r \<in> set running" by (auto simp: find_Some_iff)
  with assms b r show "json_valid J b"
    by (auto simp: ask_running_def ctl_request_def serve_stop answers_fit_def ctl_json_ok_def)
qed

section \<open>Properties\<close>

text \<open>
  C33. A stop request reaches exactly the right commands. Let every running command have its socket in
  the runtime directory, among whatever else lies there: \<open>down\<close> without a name stops all of them, with
  the name of a runtime only that one, and with any other name exactly the commands that serve the peer
  of that name.
\<close>

theorem down_stops_exactly:
  assumes J: "ctl_json_ok J" and name: "runtime_name_ok name" and dir: "dir_at (fs_nodes f) (run_dir dir)"
    and names: "distinct (map rt_name running)"
    and fit: "\<forall>r \<in> set running. answers_fit J r"
    and socks: "\<forall>r \<in> set running. \<exists>x. (rt_name r @ ''.sock'', x) \<in> set (entries (run_dir dir) f) \<and> n_kind x = Socket"
  shows "\<exists>out reqs. Query J (ask_running J running) dir name ''stop'' f = (Inr out, reqs) \<and>
    {r \<in> set running. (rt_name r, ''stop'') \<in> set reqs} =
      (if name = [] then set running
       else if runtimeTarget name (entries (run_dir dir) f) then {r \<in> set running. rt_name r = name}
       else {r \<in> set running. rt_peer r = name})"
proof -
  let ?es = "entries (run_dir dir) f" and ?ask = "ask_running J running"
  let ?t = "runtimeTarget name ?es"
  obtain out reqs where q: "query_entries J ?ask name ''stop'' ?t ?es = (Inr out, reqs)"
    using query_entries_total [of ?es ?ask "''stop''" J name ?t] stop_answer [OF J fit] by blast
  have Q: "Query J ?ask dir name ''stop'' f = (Inr out, reqs)"
    using name dir q by (auto simp: Query_def dir_at_def Let_def)
  have sent: "(rt_name r, ''stop'') \<in> set reqs \<longleftrightarrow> selected J ?ask name ?t (rt_name r)" if r: "r \<in> set running" for r
    using query_entries_sound [OF q, of "rt_name r"] socks r sock_ofI by fastforce
  have own: "?t" if "r \<in> set running" "rt_name r = name" "name \<noteq> []" for r
    using socks that runtimeTargetI by metis
  have "selected J ?ask name ?t (rt_name r) \<longleftrightarrow>
      (name = [] \<or> (if ?t then rt_name r = name else rt_peer r = name))" if r: "r \<in> set running" for r
    using own [OF r] peer_matches_running [OF J names r, of name] fit r by (auto simp: selected_def)
  with sent have "{r \<in> set running. (rt_name r, ''stop'') \<in> set reqs} =
      {r \<in> set running. name = [] \<or> (if ?t then rt_name r = name else rt_peer r = name)}" by auto
  with Q show ?thesis by auto
qed

text \<open>
  C34. A control socket is private: when \<open>StartPeer\<close> succeeds, the runtime directory is a directory that gives
  nobody but its owner any access, the socket in it has mode 0600, and no running command of that name was
  pushed aside: what was at its path before was nothing, or a socket nobody listened on.
\<close>

theorem control_is_private:
  assumes start: "StartPeer io umask dir name f = (None, g)" and root: "rooted (fs_nodes f)"
  shows "(\<exists>st. Lstat (fs_nodes g) (run_dir dir) = Some st \<and> is_dir st \<and> n_perm st AND 63 = 0) \<and>
    (\<exists>n. Lstat (fs_nodes g) (sock_path dir name) = Some n \<and> n_kind n = Socket \<and> n_perm n = 384 \<and> n_uid n = fs_euid f) \<and>
    (\<forall>n. Lstat (fs_nodes f) (sock_path dir name) = Some n \<longrightarrow> n_kind n = Socket \<and> \<not> si_live io)"
proof -
  let ?p = "sock_path dir name"
  obtain h st k l where mk: "MkdirAll [] (run_dir dir) 448 f = Inr h"
    and st: "Lstat (fs_nodes h) (run_dir dir) = Some st" "is_dir st" "n_perm st AND 63 = 0"
    and cl: "clear_socket io ?p h = Inr k" and cr: "create ?p Socket (511 AND NOT umask) [] k = Inr l"
    and g: "g = Chmod ?p 384 l"
    using start by (auto simp: StartPeer_def split: sum.splits option.splits if_splits)
  have ext: "extends f h" using mk by (rule MkdirAll_extends)
  have euid: "fs_euid k = fs_euid f"
    using ext cl by (auto simp: extends_def clear_socket_def Remove_file_def split: option.splits if_splits)
  have before: "n_kind n = Socket \<and> \<not> si_live io" if "Lstat (fs_nodes f) ?p = Some n" for n
    using Lstat_mono [OF that] ext cl by (auto simp: extends_def clear_socket_def split: if_splits)
  have "Lstat (fs_nodes k) (run_dir dir) = Some st"
  proof (cases "Lstat (fs_nodes h) ?p")
    case None
    then show ?thesis using cl st(1) by (simp add: clear_socket_def split: if_splits)
  next
    case (Some n)
    then have k: "n_kind n = Socket" "k = Remove_file ?p h" using cl by (auto simp: clear_socket_def split: if_splits)
    have "dir_at (fs_nodes h) dir" using MkdirAll_parent [OF root mk [unfolded run_dir_def]] .
    then have par: "is_dir y" if "EvalSymlinks (fs_nodes h) dir = Some q" "map_of (fs_nodes h) q = Some y" for q y
      using that by (auto simp: dir_at_def Stat_Some)
    show ?thesis
      unfolding k(2) run_dir_def by (rule Remove_socket_Lstat [OF Some k(1) st(1) [unfolded run_dir_def] st(2) par])
  qed
  then have l: "Lstat (fs_nodes l) (run_dir dir) = Some st" using create_extends [OF cr] unfolding extends_def by (blast intro: Lstat_mono)
  note n = create_Lstat [OF cr]
  have "n_kind (created k Socket (511 AND NOT umask) []) = Socket" by (simp add: created_def)
  then have "Lstat (fs_nodes g) (run_dir dir) = Some st"
    unfolding g using Chmod_Lstat(2) [OF n l] st(2) by (simp add: is_dir_def)
  moreover have "Lstat (fs_nodes g) ?p = Some ((created k Socket (511 AND NOT umask) [])\<lparr>n_perm := 384\<rparr>)"
    unfolding g by (rule Chmod_Lstat(1) [OF n])
  ultimately show ?thesis using st before euid by (auto simp: created_def)
qed

definition run_disk :: fs where
  "run_disk = \<lparr>fs_nodes = [([], entry_node Directory 493 0), ([''q''], entry_node Directory 448 1), ([''q'', ''run''], entry_node Directory 448 2),
     ([''q'', ''run'', ''serve.sock''], entry_node Socket 384 3), ([''q'', ''run'', ''up-bob.sock''], entry_node Socket 384 4)], fs_euid = 0, fs_ino = 5\<rparr>"

theorem control_is_private_witness:
  "\<exists>g. StartPeer \<lparr>si_live = False, si_remove = True, si_listen = True, si_chmod = True\<rparr> 18 [''q''] ''serve'' run_disk = (None, g) \<and>
     (\<exists>n. Lstat (fs_nodes g) (sock_path [''q''] ''serve'') = Some n \<and> n_perm n = 384)"
proof -
  let ?io = "\<lparr>si_live = False, si_remove = True, si_listen = True, si_chmod = True\<rparr>"
  obtain g where g: "StartPeer ?io 18 [''q''] ''serve'' run_disk = (None, g)"
    by (simp add: StartPeer_def run_dir_def sock_path_def run_disk_def Stat_def Lstat_def real_entry_def EvalSymlinks_def
        entry_node_def is_dir_def clear_socket_def Remove_file_def create_def)
  moreover have "rooted (fs_nodes run_disk)" by (simp add: rooted_def run_disk_def entry_node_def is_dir_def)
  ultimately show ?thesis using control_is_private [OF g] by blast
qed

definition two_running :: "runtime list" where
  "two_running = [\<lparr>rt_name = ''serve'', rt_peer = [], rt_status = []\<rparr>, \<lparr>rt_name = ''up-bob'', rt_peer = ''bob'', rt_status = []\<rparr>]"

definition unary_json :: ctl_json where
  "unary_json = \<lparr>enc_request = bytes_of, dec_request = (\<lambda>b. Some (chars_of b)), enc_reply = (\<lambda>r. case r of PeerInfo p \<Rightarrow> bytes_of p | _ \<Rightarrow> []), dec_info = (\<lambda>b. Some (chars_of b)),
     json_valid = (\<lambda>_. True)\<rparr>"

theorem down_stops_exactly_witness:
  "\<exists>out reqs. Query unary_json (ask_running unary_json two_running) [''q''] ''bob'' ''stop'' run_disk = (Inr out, reqs) \<and>
    {r \<in> set two_running. (rt_name r, ''stop'') \<in> set reqs} = {\<lparr>rt_name = ''up-bob'', rt_peer = ''bob'', rt_status = []\<rparr>}"
proof -
  have es: "entries (run_dir [''q'']) run_disk = [(''serve.sock'', entry_node Socket 384 3), (''up-bob.sock'', entry_node Socket 384 4)]"
    by (simp add: entries_def run_dir_def run_disk_def EvalSymlinks_def entry_node_def)
  have "ctl_json_ok unary_json"
    by (simp add: ctl_json_ok_def unary_json_def)
  moreover have "\<forall>r \<in> set two_running. answers_fit unary_json r"
    by (simp add: answers_fit_def two_running_def unary_json_def bytes_of_def)
  moreover have "runtime_name_ok ''bob''" by (simp add: runtime_name_ok_def)
  moreover have "dir_at (fs_nodes run_disk) (run_dir [''q''])"
    by (simp add: dir_at_def run_disk_def run_dir_def Stat_def EvalSymlinks_def entry_node_def is_dir_def)
  moreover have "\<not> runtimeTarget ''bob'' (entries (run_dir [''q'']) run_disk)" by (simp add: runtimeTarget_def es)
  ultimately show ?thesis
    using down_stops_exactly [of unary_json "''bob''" run_disk "[''q'']" two_running] es
    by (fastforce simp: two_running_def entry_node_def)
qed

end
