(* ===== verification/Client_Command.thy ===== *)
theory Client_Command
  imports Serve_Command Mosh Tunnel Control
begin

text \<open>
  The remaining commands of \<open>src/cmd/qcat/main.go\<close> and the arguments of \<open>mosh\<close>: dispatch, \<open>identity\<close>, \<open>peer\<close>,
  and the clients \<open>forward\<close>, \<open>socks\<close>, \<open>connect\<close> and \<open>up\<close>, up to the point where they serve connections.

  Flags arrive parsed, as the \<open>flag\<close> package delivers them. How the calls that reach outside the model end
  is an input, as is how a file argument is turned into an absolute path. \<open>net.ParseIP\<close> is modelled in full,
  because the check of the local listener rests on it.
\<close>

section \<open>Parsing IP addresses\<close>

definition octet :: "string \<Rightarrow> byte option" where
  "octet f =
     (if f = [] \<or> (length f > 1 \<and> hd f = CHR ''0'') then None
      else case parse_digits 0 f of None \<Rightarrow> None | Some n \<Rightarrow> if n \<le> 255 then Some (of_nat n) else None)"

definition parse_ipv4 :: "string \<Rightarrow> bytes option" where
  "parse_ipv4 s =
     (let os = map octet (split_on CHR ''.'' s) in
      if length os = 4 \<and> list_all (\<lambda>x. x \<noteq> None) os then Some (map the os) else None)"

definition hex_val :: "char \<Rightarrow> nat option" where
  "hex_val c =
     (let n = ord c in
      if 48 \<le> n \<and> n \<le> 57 then Some (n - 48)
      else if 97 \<le> n \<and> n \<le> 102 then Some (n - 87)
      else if 65 \<le> n \<and> n \<le> 70 then Some (n - 55)
      else None)"

definition hex_value :: "string \<Rightarrow> nat" where
  "hex_value h = foldl (\<lambda>acc c. acc * 16 + (case hex_val c of Some d \<Rightarrow> d | None \<Rightarrow> 0)) 0 h"

text \<open>
  The loop over the groups of an IPv6 address: the bytes so far, the position of the ellipsis and the
  text that is left. Every turn adds two bytes or ends the loop, so eight turns are enough.
\<close>

fun v6_groups :: "nat \<Rightarrow> bytes \<Rightarrow> nat option \<Rightarrow> string \<Rightarrow> (bytes \<times> nat option \<times> string) option" where
  "v6_groups 0 ip e s = Some (ip, e, s)"
| "v6_groups (Suc k) ip e s =
     (let h = takeWhile (\<lambda>c. hex_val c \<noteq> None) s; rest = drop (length h) s in
      if h = [] \<or> length h > 4 then None
      else if rest \<noteq> [] \<and> hd rest = CHR ''.'' then
        (if (e = None \<and> length ip \<noteq> 12) \<or> length ip + 4 > 16 then None
         else case parse_ipv4 s of None \<Rightarrow> None | Some b \<Rightarrow> Some (ip @ b, e, []))
      else
        (let ip' = ip @ be_put 2 (hex_value h) in
         if rest = [] then Some (ip', e, [])
         else if hd rest \<noteq> CHR '':'' \<or> tl rest = [] then None
         else if hd (tl rest) = CHR '':'' then
           (if e \<noteq> None then None
            else if tl (tl rest) = [] then Some (ip', Some (length ip'), [])
            else v6_groups k ip' (Some (length ip')) (tl (tl rest)))
         else v6_groups k ip' e (tl rest)))"

definition parse_ipv6 :: "string \<Rightarrow> bytes option" where
  "parse_ipv6 s =
     (let lead = prefix ''::'' s; t = (if lead then drop 2 s else s) in
      if lead \<and> t = [] then Some (zeros 16)
      else case v6_groups 8 [] (if lead then Some 0 else None) t of None \<Rightarrow> None
      | Some (ip, e, rest) \<Rightarrow>
        if rest \<noteq> [] then None
        else if length ip < 16 then
          (case e of None \<Rightarrow> None | Some i \<Rightarrow> Some (take i ip @ zeros (16 - length ip) @ drop i ip))
        else if e \<noteq> None then None else Some ip)"

text \<open>\<open>net.ParseIP\<close>: always sixteen bytes, an IPv4 address in its mapped form; zones are refused.\<close>

definition ParseIP :: "string \<Rightarrow> bytes option" where
  "ParseIP s =
     (case find (\<lambda>c. c \<in> set ''.:%'') s of None \<Rightarrow> None
      | Some c \<Rightarrow>
        if c = CHR ''.'' then map_option (\<lambda>b. zeros 10 @ [255, 255] @ b) (parse_ipv4 s)
        else if c = CHR '':'' \<and> CHR ''%'' \<notin> set s then parse_ipv6 s
        else None)"

definition IsLoopback :: "bytes \<Rightarrow> bool" where
  "IsLoopback ip \<longleftrightarrow> (if mapped4 ip then ip ! 12 = 127 else ip = zeros 15 @ [1])"

section \<open>Client commands\<close>

datatype client_cmd = ForwardCmd | SocksCmd | ConnectCmd | UpCmd

datatype client_error =
    PeerRequired | UdpOnlyForward | UdpIdleNotPositive | UdpArguments | UdpForwardSpec spec_error
  | PeerError cerror | NoEndpoint | IdentityError cerror | TransportClient | UpArguments | TunOpen | TunConfigure
  | PingFailed | ControlStart | TunRoute | ConnectArguments | ConnectPort
  | ForwardArguments | ForwardSpec | ForwardTarget socks_error | ForwardPort | SocksArguments
  | ListenAddress addr_error | NotLoopback

datatype client_action =
    ForwardUdp string nat duration
  | TunnelUp
  | DialPort nat
  | ListenTcp string "string option"

record client_flags =
  cf_listen :: string
  cf_udp :: bool
  cf_idle :: duration
  cf_args :: "string list"

record client_io =
  ci_load :: "string \<Rightarrow> bytes \<Rightarrow> bool"
  ci_client :: bool
  ci_tun :: bool
  ci_configure :: bool
  ci_ping :: bool
  ci_control :: bool
  ci_route :: bool

definition cmd_text :: "client_cmd \<Rightarrow> string" where
  "cmd_text c = (case c of ForwardCmd \<Rightarrow> ''forward'' | SocksCmd \<Rightarrow> ''socks'' | ConnectCmd \<Rightarrow> ''connect'' | UpCmd \<Rightarrow> ''up'')"

text \<open>The flags and, for a UDP forward, its listener and tunnel port.\<close>

definition client_udp :: "client_cmd \<Rightarrow> client_flags \<Rightarrow> client_error + (string \<times> nat) option" where
  "client_udp c fl =
     (if cf_args fl = [] then Inl PeerRequired
      else if cf_udp fl \<and> c \<noteq> ForwardCmd then Inl UdpOnlyForward
      else if cf_idle fl \<le> 0 then Inl UdpIdleNotPositive
      else if \<not> cf_udp fl then Inr None
      else if length (cf_args fl) \<noteq> 2 then Inl UdpArguments
      else case udpForwardSpec (cf_args fl ! 1) of Inl e \<Rightarrow> Inl (UdpForwardSpec e) | Inr lp \<Rightarrow> Inr (Some lp))"

text \<open>The name a command registers at the control directory; \<open>connect\<close> registers none.\<close>

definition runtime_name :: "client_cmd \<Rightarrow> (string \<times> nat) option \<Rightarrow> string \<Rightarrow> string option" where
  "runtime_name c udp peer =
     (if c = ConnectCmd then None
      else case udp of None \<Rightarrow> Some (cmd_text c @ ''-'' @ peer)
      | Some (listen, port) \<Rightarrow>
        Some (''forward-udp-'' @ (case SplitHostPort listen of Inr (h, p) \<Rightarrow> p | Inl e \<Rightarrow> []) @ ''-'' @ peer))"

definition check_listen :: "string \<Rightarrow> string option \<Rightarrow> client_error + client_action" where
  "check_listen listen target =
     (case SplitHostPort listen of Inl e \<Rightarrow> Inl (ListenAddress e)
      | Inr (host, port) \<Rightarrow>
        (case ParseIP host of None \<Rightarrow> Inl NotLoopback
         | Some ip \<Rightarrow> if IsLoopback ip then Inr (ListenTcp listen target) else Inl NotLoopback))"

definition client_serve :: "client_cmd \<Rightarrow> client_flags \<Rightarrow> client_error + client_action" where
  "client_serve c fl =
     (let args = cf_args fl in
      case c of
        ConnectCmd \<Rightarrow>
          if length args \<noteq> 2 then Inl ConnectArguments
          else (case parse_uint16 (args ! 1) of None \<Rightarrow> Inl ConnectPort
            | Some port \<Rightarrow> if port < 2 then Inl ConnectPort else Inr (DialPort port))
      | ForwardCmd \<Rightarrow>
          if length args \<noteq> 2 then Inl ForwardArguments
          else
            (let (port, remote, ok) = cut CHR '':'' (args ! 1) in
             if \<not> ok then Inl ForwardSpec
             else case ValidateTarget remote of Some e \<Rightarrow> Inl (ForwardTarget e)
             | None \<Rightarrow>
               (case parse_uint16 port of None \<Rightarrow> Inl ForwardPort
                | Some n \<Rightarrow> check_listen (JoinHostPort ''127.0.0.1'' (itoa n)) (Some remote)))
      | SocksCmd \<Rightarrow> if length args \<noteq> 1 then Inl SocksArguments else check_listen (cf_listen fl) None
      | UpCmd \<Rightarrow> Inr TunnelUp)"

definition client_command ::
  "crypto \<Rightarrow> json \<Rightarrow> (string \<Rightarrow> endpoint_info option) \<Rightarrow> client_io \<Rightarrow> path \<Rightarrow> client_cmd \<Rightarrow> client_flags \<Rightarrow> fs \<Rightarrow>
   client_error + client_action" where
  "client_command C J parse_addr io dir c fl f =
     (case client_udp c fl of Inl e \<Rightarrow> Inl e
      | Inr udp \<Rightarrow>
        (case Store_Peer C J parse_addr dir (cf_args fl ! 0) f of Inl e \<Rightarrow> Inl (PeerError e)
         | Inr p \<Rightarrow>
           if d_endpoint p = [] then Inl NoEndpoint
           else case Identity J (ci_load io) dir f f of Inl e \<Rightarrow> Inl (IdentityError e)
           | Inr meta \<Rightarrow>
             if \<not> ci_client io then Inl TransportClient
             else if c = UpCmd \<and> length (cf_args fl) \<noteq> 1 then Inl UpArguments
             else if c = UpCmd \<and> \<not> ci_tun io then Inl TunOpen
             else if c = UpCmd \<and> \<not> ci_configure io then Inl TunConfigure
             else if \<not> ci_ping io then Inl PingFailed
             else if c \<noteq> ConnectCmd \<and> \<not> ci_control io then Inl ControlStart
             else (case udp of Some (listen, port) \<Rightarrow> Inr (ForwardUdp listen port (cf_idle fl))
               | None \<Rightarrow> if c = UpCmd \<and> \<not> ci_route io then Inl TunRoute else client_serve c fl)))"

text \<open>
  The accept loop relays at most 128 connections at a time and closes the others at once. What happens to
  a relayed connection, in order: the tunnel is dialled, a forward asks the server for its target, bytes
  are relayed, and everything is closed again.
\<close>

definition accept_slot :: "nat \<Rightarrow> nat \<times> bool" where
  "accept_slot used = (if used < 128 then (Suc used, True) else (used, False))"

datatype conn_act = DialTunnel nat | AskTarget string | ProxyConns | CloseRemoteConn | CloseLocalConn | FreeSlot

definition relay_connection :: "string option \<Rightarrow> bool \<Rightarrow> bool \<Rightarrow> conn_act list" where
  "relay_connection target dialled asked =
     DialTunnel 1 #
     (if \<not> dialled then []
      else (case target of None \<Rightarrow> [ProxyConns] | Some t \<Rightarrow> AskTarget t # (if asked then [ProxyConns] else [])) @ [CloseRemoteConn]) @
     [CloseLocalConn, FreeSlot]"

datatype accept_event = Accepted | RelayEnds | AcceptFails bool

text \<open>The loop: slots in use, for every accepted connection whether it is relayed, and how the loop ended.\<close>

fun accept_loop :: "nat \<Rightarrow> accept_event list \<Rightarrow> nat \<times> bool list \<times> bool option" where
  "accept_loop used [] = (used, [], None)"
| "accept_loop used (Accepted # es) =
     (let (used', ok) = accept_slot used; (u, oks, r) = accept_loop used' es in (u, ok # oks, r))"
| "accept_loop used (RelayEnds # es) = accept_loop (used - 1) es"
| "accept_loop used (AcceptFails cancelled # es) = (used, [], Some cancelled)"

lemma accept_loop_bounded: "used \<le> 128 \<Longrightarrow> fst (accept_loop used es) \<le> 128"
proof (induction es arbitrary: used)
  case (Cons e es)
  show ?case
  proof (cases e)
    case Accepted
    have "fst (accept_slot used) \<le> 128" using Cons.prems by (simp add: accept_slot_def)
    from Cons.IH [OF this] Accepted show ?thesis by (simp add: Let_def case_prod_beta)
  qed (use Cons in auto)
qed simp

lemma relay_connection_asks: "AskTarget t \<in> set (relay_connection target dialled asked) \<Longrightarrow> target = Some t"
  by (auto simp: relay_connection_def split: option.splits if_splits)

section \<open>Pairing and identity commands\<close>

datatype cli_error = IdentityUsage | IdentityArguments | PeerUsage | PeerArguments | CliStore cerror | CliPublicKey
  | VersionArguments | StatusArguments | DownArguments | UnknownCmd string

datatype cli_output = NoOutput | ShowPeer descriptor | ListPeers "descriptor list" | RemovedNotice string

definition identity_show ::
  "crypto \<Rightarrow> json \<Rightarrow> serve_io \<Rightarrow> path \<Rightarrow> fs \<Rightarrow> cli_error + cli_output" where
  "identity_show C J io dir f =
     (case Identity J (io_load io) dir f f of Inl e \<Rightarrow> Inl (CliStore e)
      | Inr meta \<Rightarrow>
        (case io_public io meta of None \<Rightarrow> Inl CliPublicKey
         | Some pub \<Rightarrow> Inr (ShowPeer (descriptor_of C meta pub []))))"

definition identity_command ::
  "crypto \<Rightarrow> json \<Rightarrow> bool \<Rightarrow> (string \<Rightarrow> bytes option) \<Rightarrow> serve_io \<Rightarrow> path \<Rightarrow> string list \<Rightarrow> string \<Rightarrow> string \<Rightarrow> nat \<Rightarrow> fs \<Rightarrow>
   (cli_error + cli_output) \<times> fs" where
  "identity_command C J darwin generate io dir args name kind nargs f =
     (case args of [] \<Rightarrow> (Inl IdentityUsage, f)
      | sub # rest \<Rightarrow>
        if sub = ''init'' then
          (if nargs \<noteq> 0 then (Inl IdentityArguments, f)
           else case Init J darwin generate (io_write io) dir name kind f of
             (Some e, g) \<Rightarrow> (Inl (CliStore e), g)
           | (None, g) \<Rightarrow> (identity_show C J io dir g, g))
        else if sub \<noteq> ''show'' \<or> rest \<noteq> [] then (Inl IdentityUsage, f)
        else (identity_show C J io dir f, f))"

definition peers_command ::
  "crypto \<Rightarrow> json \<Rightarrow> (string \<Rightarrow> endpoint_info option) \<Rightarrow> written \<Rightarrow> (string \<Rightarrow> path) \<Rightarrow> path \<Rightarrow> string list \<Rightarrow> fs \<Rightarrow>
   (cli_error + cli_output) \<times> fs" where
  "peers_command C J parse_addr wr locate dir args f =
     (case args of [] \<Rightarrow> (Inl PeerUsage, f)
      | sub # rest \<Rightarrow>
        if sub = ''add'' \<and> length rest = 2 then
          (case Add C J parse_addr wr dir (rest ! 0) (locate (rest ! 1)) f of
             (Some e, g) \<Rightarrow> (Inl (CliStore e), g) | (None, g) \<Rightarrow> (Inr NoOutput, g))
        else if sub = ''remove'' \<and> length rest = 1 then
          (case Remove C J parse_addr dir (rest ! 0) f of
             (Some e, g) \<Rightarrow> (Inl (CliStore e), g) | (None, g) \<Rightarrow> (Inr (RemovedNotice (rest ! 0)), g))
        else if sub = ''show'' \<and> length rest = 1 then
          (case Store_Peer C J parse_addr dir (rest ! 0) f of Inl e \<Rightarrow> (Inl (CliStore e), f) | Inr p \<Rightarrow> (Inr (ShowPeer p), f))
        else if sub = ''list'' \<and> length rest = 0 then
          (case Peers C J parse_addr dir f of Inl e \<Rightarrow> (Inl (CliStore e), f) | Inr ps \<Rightarrow> (Inr (ListPeers ps), f))
        else (Inl PeerArguments, f))"

section \<open>Dispatch\<close>

datatype dispatch =
    Help | ShowVersion | RunIdentity "string list" | RunPeer "string list" | RunServe "string list" | RunMosh "string list"
  | RunClient client_cmd "string list" | QueryStatus | QueryStop string | DebugHelper

definition run :: "string list \<Rightarrow> cli_error + dispatch" where
  "run args =
     (case args of [] \<Rightarrow> Inr Help
      | c # rest \<Rightarrow>
        if c = ''help'' then Inr Help
        else if c = ''version'' then (if rest \<noteq> [] then Inl VersionArguments else Inr ShowVersion)
        else if c = ''identity'' then Inr (RunIdentity rest)
        else if c = ''peer'' then Inr (RunPeer rest)
        else if c = ''serve'' then Inr (RunServe rest)
        else if c = ''mosh'' then Inr (RunMosh rest)
        else if c = ''forward'' then Inr (RunClient ForwardCmd rest)
        else if c = ''socks'' then Inr (RunClient SocksCmd rest)
        else if c = ''connect'' then Inr (RunClient ConnectCmd rest)
        else if c = ''up'' then Inr (RunClient UpCmd rest)
        else if c = ''status'' then (if rest \<noteq> [] then Inl StatusArguments else Inr QueryStatus)
        else if c = ''down'' then
          (if length rest > 1 then Inl DownArguments
           else Inr (QueryStop (case rest of [] \<Rightarrow> [] | name # _ \<Rightarrow> name)))
        else if c = ''debug'' then Inr DebugHelper
        else Inl (UnknownCmd c))"

section \<open>Arguments of mosh\<close>

datatype mosh_arg_error = MoshPeerRequired | BadSshDestination | BadMoshPort

record mosh_flags =
  mf_host :: string
  mf_server_port :: int
  mf_tunnel_port :: int
  mf_local_port :: int
  mf_server :: string
  mf_args :: "string list"

record mosh_plan =
  mp_peer :: string
  mp_host :: string
  mp_command :: "string list"

definition mosh_arguments :: "mosh_flags \<Rightarrow> mosh_arg_error + mosh_plan" where
  "mosh_arguments fl =
     (case mf_args fl of [] \<Rightarrow> Inl MoshPeerRequired
      | peer # rest \<Rightarrow>
        (let cmd = (if rest \<noteq> [] \<and> hd rest = ''--'' then tl rest else rest);
             host = (if mf_host fl = [] then peer else mf_host fl) in
         if prefix ''-'' host \<or> list_ex (\<lambda>c. c = CHR 0x00 \<or> c = CHR 0x0D \<or> c = CHR 0x0A) host \<or> CHR 0x00 \<in> set (mf_server fl)
         then Inl BadSshDestination
         else if list_ex (\<lambda>p. p < 0 \<or> p > 65535) [mf_server_port fl, mf_tunnel_port fl, mf_local_port fl] then Inl BadMoshPort
         else Inr \<lparr>mp_peer = peer, mp_host = host, mp_command = cmd\<rparr>))"

text \<open>The tunnel port defaults to the port the server reported.\<close>

definition mosh_tunnel_port :: "mosh_flags \<Rightarrow> moshSession \<Rightarrow> int" where
  "mosh_tunnel_port fl s = (if mf_tunnel_port fl = 0 then int (ms_port s) else mf_tunnel_port fl)"

section \<open>Lemmas\<close>

lemma split_on_plain: "c \<notin> set s \<Longrightarrow> split_on c s = [s]"
  by (induction s) auto

lemma split_on_append: "c \<notin> set s \<Longrightarrow> split_on c (s @ c # t) = s # split_on c t"
  by (induction s) auto

lemma itoa_no_dot [simp]: "CHR ''.'' \<notin> set (itoa n)"
  using itoa_digits [of "CHR ''.''" n] by (auto simp: digit_val_def)

lemma itoa_head: "n \<noteq> 0 \<Longrightarrow> hd (itoa n) \<noteq> CHR ''0''"
proof (induction n rule: itoa.induct)
  case (1 n)
  show ?case
  proof (cases "n < 10")
    case True
    have "digit_char n = CHR ''0'' \<Longrightarrow> digit_val (digit_char n) = Some 0" by (simp add: digit_val_def)
    with True 1(2) digit_val_digit_char [of n] show ?thesis by (subst itoa.simps) auto
  next
    case False
    then have "hd (itoa (n div 10)) \<noteq> CHR ''0''" using 1 by auto
    with False show ?thesis by (subst itoa.simps) (simp del: itoa.simps)
  qed
qed

lemma octet_itoa: "octet (itoa (unat (b :: byte))) = Some b"
proof -
  have "unat b < 256" using unsigned_less [of b] by simp
  then have lt: "unat b \<le> 255" by linarith
  have "length (itoa (unat b)) > 1 \<longrightarrow> hd (itoa (unat b)) \<noteq> CHR ''0''"
    using itoa_head [of "unat b"] by (cases "unat b = 0") (auto simp: itoa.simps)
  then show ?thesis using lt by (auto simp: octet_def parse_digits_itoa simp del: itoa.simps)
qed

text \<open>Printing an IPv4 address and parsing it gives the address back.\<close>

lemma parse_ipv4_text:
  assumes "length b = 4"
  shows "parse_ipv4 (ipv4_text b) = Some b"
proof -
  obtain w x y z where b: "b = [w, x, y, z]"
    using assms by (auto simp: length_Suc_conv numeral_eq_Suc)
  have "split_on CHR ''.'' (ipv4_text b) = map (\<lambda>v. itoa (unat v)) [w, x, y, z]"
    by (simp add: ipv4_text_def b split_on_append split_on_plain del: itoa.simps)
  then show ?thesis by (simp add: parse_ipv4_def octet_itoa Let_def b del: itoa.simps)
qed

lemma ParseIP_127: "ParseIP ''127.0.0.1'' = Some (zeros 10 @ [255, 255, 127, 0, 0, 1])"
  by (simp add: ParseIP_def parse_ipv4_def octet_def digit_val_def Let_def)

lemma loopback_ip: "IsLoopback (zeros 10 @ [255, 255, 127, 0, 0, 1])"
  by (simp add: IsLoopback_def mapped4_def zeros_def nth_append)

definition loopback_addr :: "string \<Rightarrow> bool" where
  "loopback_addr a \<longleftrightarrow> (\<exists>host port ip. SplitHostPort a = Inr (host, port) \<and> ParseIP host = Some ip \<and> IsLoopback ip)"

lemma loopback_127: "loopback_addr (JoinHostPort ''127.0.0.1'' (itoa n))"
proof -
  have "SplitHostPort (JoinHostPort ''127.0.0.1'' (itoa n)) = Inr (''127.0.0.1'', itoa n)" by (rule split_join) simp_all
  then show ?thesis unfolding loopback_addr_def using ParseIP_127 loopback_ip by blast
qed

lemma check_listen_127:
  "check_listen (JoinHostPort ''127.0.0.1'' (itoa n)) target = Inr (ListenTcp (JoinHostPort ''127.0.0.1'' (itoa n)) target)"
proof -
  have "SplitHostPort (JoinHostPort ''127.0.0.1'' (itoa n)) = Inr (''127.0.0.1'', itoa n)" by (rule split_join) simp_all
  then show ?thesis
    by (simp add: check_listen_def ParseIP_127 loopback_ip del: itoa.simps)
qed

lemma check_listen_loopback: "check_listen listen target = Inr act \<Longrightarrow> act = ListenTcp listen target \<and> loopback_addr listen"
  by (auto simp: check_listen_def loopback_addr_def split: sum.splits prod.splits option.splits if_splits)

section \<open>Properties\<close>

text \<open>
  C38. A client command opens only what it may. Whatever the arguments and the outcome of the calls, a
  command that goes ahead has a valid paired peer with an endpoint; every local socket it opens, TCP or
  UDP, is bound to a loopback address; it dials only unreserved tunnel ports; and the target of a
  forward is a valid address.
\<close>

theorem client_opens_loopback:
  assumes "client_command C J parse_addr io dir c fl f = Inr act"
  shows "(\<exists>p. Store_Peer C J parse_addr dir (cf_args fl ! 0) f = Inr p \<and> d_endpoint p \<noteq> []) \<and>
    (case act of
       ForwardUdp listen port idle \<Rightarrow> loopback_addr listen \<and> 1 \<le> port \<and> port \<le> 65535 \<and> 0 < idle
     | ListenTcp listen target \<Rightarrow> loopback_addr listen \<and> (\<forall>t. target = Some t \<longrightarrow> ValidateTarget t = None)
     | DialPort port \<Rightarrow> 2 \<le> port \<and> port \<le> 65535
     | TunnelUp \<Rightarrow> c = UpCmd)"
proof -
  obtain udp where u: "client_udp c fl = Inr udp"
    using assms by (cases "client_udp c fl") (auto simp: client_command_def)
  obtain p where p: "Store_Peer C J parse_addr dir (cf_args fl ! 0) f = Inr p"
    using assms u by (cases "Store_Peer C J parse_addr dir (cf_args fl ! 0) f") (auto simp: client_command_def)
  obtain meta where m: "Identity J (ci_load io) dir f f = Inr meta" and e: "d_endpoint p \<noteq> []"
    using assms u p by (cases "Identity J (ci_load io) dir f f") (auto simp: client_command_def split: if_splits)
  show ?thesis
  proof (cases udp)
    case (Some lp)
    obtain listen port where lp: "lp = (listen, port)" by fastforce
    have act: "act = ForwardUdp listen port (cf_idle fl)"
      using assms u p m e Some lp by (auto simp: client_command_def split: if_splits)
    have "udpForwardSpec (cf_args fl ! 1) = Inr (listen, port)" "0 < cf_idle fl"
      using u Some lp by (auto simp: client_udp_def split: if_splits sum.splits)
    then show ?thesis
      using act p e loopback_127 by (auto simp: udpForwardSpec_def Let_def parse_uint16_bound split: prod.splits option.splits if_splits)
  next
    case None
    have "client_serve c fl = Inr act"
      using assms u p m e None by (auto simp: client_command_def split: if_splits)
    then have "case act of
        ForwardUdp listen port idle \<Rightarrow> loopback_addr listen \<and> 1 \<le> port \<and> port \<le> 65535 \<and> 0 < idle
      | ListenTcp listen target \<Rightarrow> loopback_addr listen \<and> (\<forall>t. target = Some t \<longrightarrow> ValidateTarget t = None)
      | DialPort port \<Rightarrow> 2 \<le> port \<and> port \<le> 65535
      | TunnelUp \<Rightarrow> c = UpCmd"
    proof (cases c)
      case ForwardCmd
      with \<open>client_serve c fl = Inr act\<close> show ?thesis
        using loopback_127 by (auto simp: client_serve_def Let_def check_listen_127 split: prod.splits option.splits if_splits)
    next
      case SocksCmd
      with \<open>client_serve c fl = Inr act\<close> have "check_listen (cf_listen fl) None = Inr act"
        by (auto simp: client_serve_def Let_def split: if_splits)
      from check_listen_loopback [OF this] show ?thesis by simp
    next
      case ConnectCmd
      with \<open>client_serve c fl = Inr act\<close> show ?thesis
        by (auto simp: client_serve_def Let_def parse_uint16_bound split: option.splits if_splits)
    next
      case UpCmd
      with \<open>client_serve c fl = Inr act\<close> show ?thesis by (auto simp: client_serve_def)
    qed
    with p e show ?thesis by blast
  qed
qed

definition reachable :: "string \<Rightarrow> endpoint_info option" where
  "reachable _ = Some \<lparr>e_psk_zero = True, e_server_zero = False, e_disco_zero = False\<rparr>"

definition client_json :: json where
  "client_json = identity_json\<lparr>dec_peer := (\<lambda>_. Some (alice\<lparr>d_endpoint := ''tc''\<rparr>))\<rparr>"

definition client_disk :: fs where
  "client_disk = disk_paired\<lparr>fs_nodes := fs_nodes disk_paired @ [([''q'', ''identity.json''], entry_node Regular 384 9)]\<rparr>"

definition all_well :: client_io where
  "all_well = \<lparr>ci_load = (\<lambda>_ _. True), ci_client = True, ci_tun = True, ci_configure = True, ci_ping = True,
     ci_control = True, ci_route = True\<rparr>"

lemma client_disk_facts:
  "checkStore [''q''] client_disk = None" "Path client_disk [''q'', ''peers''] True = None"
  "Path client_disk [''q'', ''peers'', ''alice.qpeer''] False = None"
  by (simp_all add: checkStore_def Path_def Ancestors_def parent_ok_def client_disk_def disk_paired_def disk_def tree_defs
      is_symlink_def is_dir_def Owner_def loose_def)

lemma client_demo_peer:
  "Store_Peer plain_crypto client_json reachable [''q''] ''alice'' client_disk = Inr (alice\<lparr>d_endpoint := ''tc''\<rparr>)"
proof -
  have v: "Validate plain_crypto reachable (alice\<lparr>d_endpoint := ''tc''\<rparr>) = None"
    by (simp add: Validate_def alice_def PeerVersion_def MLDSA87PublicKeySize_def CheckName_def alnum_def Let_def reachable_def)
  show ?thesis
    using client_disk_facts v
    by (simp add: Store_Peer_def CheckName_def alnum_def checkPeers_def load_peer_def peer_path_def Let_def read_file_def)
      (simp add: client_json_def client_disk_def disk_paired_def disk_def tree_defs MaxFile_def Owner_def loose_def)
qed

lemma client_demo_identity:
  "Identity client_json (\<lambda>_ _. True) [''q''] client_disk client_disk = Inr fresh_identity"
  using client_disk_facts(1)
  by (simp add: Identity_def read_file_def identity_path_def)
    (simp add: client_json_def identity_json_def client_disk_def disk_paired_def disk_def tree_defs MaxFile_def Owner_def loose_def
      fresh_identity_def IdentityVersion_def Path_def is_symlink_def is_dir_def)

theorem client_opens_loopback_witness:
  "client_command plain_crypto client_json reachable all_well [''q''] SocksCmd
      \<lparr>cf_listen = ''127.0.0.1:1080'', cf_udp = False, cf_idle = 1, cf_args = [''alice'']\<rparr> client_disk =
    Inr (ListenTcp ''127.0.0.1:1080'' None) \<and> loopback_addr ''127.0.0.1:1080''"
proof -
  let ?fl = "\<lparr>cf_listen = ''127.0.0.1:1080'', cf_udp = False, cf_idle = 1, cf_args = [''alice'']\<rparr>"
  have "SplitHostPort ''127.0.0.1:1080'' = Inr (''127.0.0.1'', ''1080'')" by (simp add: SplitHostPort_def slice_def)
  then have c: "client_command plain_crypto client_json reachable all_well [''q''] SocksCmd ?fl client_disk =
      Inr (ListenTcp ''127.0.0.1:1080'' None)"
    using client_demo_peer client_demo_identity by (simp add: client_command_def client_udp_def all_well_def client_serve_def check_listen_def ParseIP_127 loopback_ip)
  from client_opens_loopback [OF c] c show ?thesis by simp
qed

end
