(* ===== verification/Mosh_Command.thy ===== *)
theory Mosh_Command
  imports Client_Command
begin

text \<open>
  The \<open>mosh\<close> command as a whole (\<open>mosh\<close> in \<open>src/cmd/qcat/mosh.go\<close>): checks, the loopback socket, identity,
  transport, control socket and renewal, the bootstrap over SSH, the UDP forward and \<open>mosh-client\<close>.

  A run is its result and the list of what it does, in order. A deferred call stands where it runs: after
  the rest of the function. How the calls end is the input \<open>mosh_io\<close>.
\<close>

section \<open>Actions\<close>

datatype mosh_act =
    OpenLocal int | CloseLocal
  | OpenIdentity | CloseIdentity
  | OpenTransport | CloseTransport
  | PingPeer
  | StartControl string string | StopControl
  | StartRenewal | StopRenewal
  | RunSsh string "string list"
  | StartForward nat | StopForward
  | PrintStderr string
  | RunMoshClient string "string list" "string list"

datatype mosh_cmd_error =
    MoshArgs mosh_arg_error | NoSsh | NoMoshClient | MoshPeer cerror | MoshNoEndpoint | MoshListen | MoshIdentity cerror
  | MoshTransport | MoshPing | MoshControl | MoshBootstrap mosh_error string | MoshClientFails

record mosh_io =
  mi_ssh :: "string option"
  mi_client :: "string option"
  mi_listen :: "nat option"
  mi_load :: "string \<Rightarrow> bytes \<Rightarrow> bool"
  mi_transport :: bool
  mi_ping :: bool
  mi_control :: bool
  mi_run :: bool
  mi_out :: "string list"
  mi_err :: "string list"
  mi_environ :: "string list"
  mi_exit :: bool

type_synonym mosh_run = "mosh_cmd_error option \<times> mosh_act list"

definition acting :: "mosh_act \<Rightarrow> mosh_run \<Rightarrow> mosh_run" where
  "acting a r = (fst r, a # snd r)"

definition scoped :: "mosh_act \<Rightarrow> mosh_act \<Rightarrow> mosh_run \<Rightarrow> mosh_run" where
  "scoped a b r = (fst r, a # snd r @ [b])"

section \<open>The command\<close>

text \<open>From the bootstrap on; \<open>port\<close> is the local port.\<close>

definition mosh_banner :: "string \<Rightarrow> nat \<Rightarrow> nat \<Rightarrow> nat \<Rightarrow> string" where
  "mosh_banner peer port tunnel remote =
     ''Mosh via '' @ peer @ '': 127.0.0.1:'' @ itoa port @ '' -> tunnel '' @ itoa tunnel @ '' -> server loopback:'' @
     itoa remote @ [CHR 0x0A]"

definition mosh_session :: "mosh_io \<Rightarrow> mosh_flags \<Rightarrow> mosh_plan \<Rightarrow> string \<Rightarrow> string \<Rightarrow> nat \<Rightarrow> mosh_run" where
  "mosh_session io fl plan ssh cl port =
     acting (RunSsh ssh [''-n'', ''-T'', ''--'', mp_host plan,
        moshServerCommand (mf_server fl) (nat (mf_server_port fl)) (mp_command plan)])
      (case bootstrapMosh (mi_run io) (mi_out io) (mi_err io) (nat (mf_server_port fl)) of
         Inl (e, diagnostic) \<Rightarrow> (Some (MoshBootstrap e diagnostic), [])
       | Inr s \<Rightarrow>
         scoped (StartForward (nat (mosh_tunnel_port fl s))) StopForward
           (acting (PrintStderr (mosh_banner (mp_peer plan) port (nat (mosh_tunnel_port fl s)) (ms_port s)))
             (acting (RunMoshClient cl [''127.0.0.1'', itoa port] (moshEnvironment (mi_environ io) (ms_key s)))
               (if mi_exit io then None else Some MoshClientFails, []))))"

definition mosh_connected :: "mosh_io \<Rightarrow> mosh_flags \<Rightarrow> mosh_plan \<Rightarrow> string \<Rightarrow> string \<Rightarrow> nat \<Rightarrow> mosh_run" where
  "mosh_connected io fl plan ssh cl port =
     acting PingPeer
      (if \<not> mi_ping io then (Some MoshPing, [])
       else if \<not> mi_control io then (Some MoshControl, [])
       else scoped (StartControl (''mosh-'' @ itoa port @ ''-'' @ mp_peer plan) (mp_peer plan)) StopControl
         (scoped StartRenewal StopRenewal (mosh_session io fl plan ssh cl port)))"

definition mosh ::
  "crypto \<Rightarrow> json \<Rightarrow> (string \<Rightarrow> endpoint_info option) \<Rightarrow> mosh_io \<Rightarrow> path \<Rightarrow> mosh_flags \<Rightarrow> fs \<Rightarrow> mosh_run" where
  "mosh C J parse_addr io dir fl f =
     (case mosh_arguments fl of Inl e \<Rightarrow> (Some (MoshArgs e), [])
      | Inr plan \<Rightarrow>
        (case mi_ssh io of None \<Rightarrow> (Some NoSsh, [])
         | Some ssh \<Rightarrow>
           (case mi_client io of None \<Rightarrow> (Some NoMoshClient, [])
            | Some cl \<Rightarrow>
              (case Store_Peer C J parse_addr dir (mp_peer plan) f of Inl e \<Rightarrow> (Some (MoshPeer e), [])
               | Inr p \<Rightarrow>
                 if d_endpoint p = [] then (Some MoshNoEndpoint, [])
                 else (case mi_listen io of None \<Rightarrow> (Some MoshListen, [])
                   | Some port \<Rightarrow>
                     scoped (OpenLocal (mf_local_port fl)) CloseLocal
                      (case Identity J (mi_load io) dir f f of Inl e \<Rightarrow> (Some (MoshIdentity e), [])
                       | Inr meta \<Rightarrow>
                         scoped OpenIdentity CloseIdentity
                          (if \<not> mi_transport io then (Some MoshTransport, [])
                           else scoped OpenTransport CloseTransport (mosh_connected io fl plan ssh cl port))))))))"

section \<open>Releasing\<close>

text \<open>Resources are released in the reverse order of their acquisition, and all of them.\<close>

definition release_of :: "mosh_act \<Rightarrow> mosh_act option" where
  "release_of a =
     (case a of OpenLocal _ \<Rightarrow> Some CloseLocal | OpenIdentity \<Rightarrow> Some CloseIdentity | OpenTransport \<Rightarrow> Some CloseTransport
      | StartControl _ _ \<Rightarrow> Some StopControl | StartRenewal \<Rightarrow> Some StopRenewal | StartForward _ \<Rightarrow> Some StopForward | _ \<Rightarrow> None)"

definition is_release :: "mosh_act \<Rightarrow> bool" where
  "is_release a \<longleftrightarrow> a \<in> {CloseLocal, CloseIdentity, CloseTransport, StopControl, StopRenewal, StopForward}"

fun well_nested :: "mosh_act list \<Rightarrow> mosh_act list \<Rightarrow> bool" where
  "well_nested pending [] \<longleftrightarrow> pending = []"
| "well_nested pending (a # as) \<longleftrightarrow>
     (case release_of a of Some b \<Rightarrow> well_nested (b # pending) as
      | None \<Rightarrow> if is_release a then pending \<noteq> [] \<and> hd pending = a \<and> well_nested (tl pending) as else well_nested pending as)"

lemma well_nested_append:
  "well_nested pending as \<Longrightarrow> well_nested (pending @ rest) (as @ bs) = well_nested rest bs"
  by (induction pending as rule: well_nested.induct) (auto split: option.splits if_splits)

lemma nested_scoped:
  assumes "release_of a = Some b" "well_nested [] (snd r)"
  shows "well_nested [] (snd (scoped a b r))"
proof -
  have b: "is_release b" "release_of b = None"
    using assms(1) by (auto simp: release_of_def is_release_def split: mosh_act.splits)
  have "well_nested [b] (snd r @ [b]) = well_nested [b] [b]" using well_nested_append [OF assms(2), of "[b]"] by simp
  with assms(1) b show ?thesis by (simp add: scoped_def)
qed

lemma nested_acting: "release_of a = None \<Longrightarrow> \<not> is_release a \<Longrightarrow> well_nested [] (snd r) \<Longrightarrow> well_nested [] (snd (acting a r))"
  by (simp add: acting_def)

lemma nested_none [simp]: "well_nested [] (snd (e, []))"
  by simp

lemma release_of_simps [simp]:
  "release_of (OpenLocal lp) = Some CloseLocal" "release_of OpenIdentity = Some CloseIdentity"
  "release_of OpenTransport = Some CloseTransport" "release_of (StartControl n p) = Some StopControl"
  "release_of StartRenewal = Some StopRenewal" "release_of (StartForward t) = Some StopForward"
  "release_of PingPeer = None" "release_of (RunSsh s a) = None" "release_of (RunMoshClient c a e) = None"
  "release_of (PrintStderr x) = None"
  by (simp_all add: release_of_def)

lemma is_release_simps [simp]: "\<not> is_release PingPeer" "\<not> is_release (RunSsh s a)" "\<not> is_release (RunMoshClient c a e)"
  "\<not> is_release (PrintStderr x)"
  by (simp_all add: is_release_def)

lemma nested_session: "well_nested [] (snd (mosh_session io fl plan ssh cl port))"
  unfolding mosh_session_def by (intro nested_acting) (auto intro!: nested_scoped nested_acting split: sum.splits)

lemma nested_connected: "well_nested [] (snd (mosh_connected io fl plan ssh cl port))"
  unfolding mosh_connected_def
  by (intro nested_acting) (auto intro!: nested_scoped nested_session)

section \<open>What the key reaches\<close>

definition hide_env :: "mosh_act \<Rightarrow> mosh_act" where
  "hide_env a = (case a of RunMoshClient c args env \<Rightarrow> RunMoshClient c args [] | _ \<Rightarrow> a)"

definition observed :: "mosh_run \<Rightarrow> mosh_cmd_error option \<times> mosh_act list" where
  "observed r = (fst r, map hide_env (snd r))"

lemma observed_acting: "observed (acting a r) = acting (hide_env a) (observed r)"
  by (simp add: observed_def acting_def)

lemma observed_scoped: "observed (scoped a b r) = scoped (hide_env a) (hide_env b) (observed r)"
  by (simp add: observed_def scoped_def)

lemma session_observed:
  assumes "bootstrapMosh (mi_run io) (mi_out io) (mi_err io) (nat (mf_server_port fl)) = Inr s"
    "bootstrapMosh (mi_run io) outs errs (nat (mf_server_port fl)) = Inr s'" "ms_port s' = ms_port s"
  shows "observed (mosh_session (io\<lparr>mi_out := outs, mi_err := errs\<rparr>) fl plan ssh cl port) = observed (mosh_session io fl plan ssh cl port)"
  using assms by (simp add: mosh_session_def observed_acting observed_scoped hide_env_def mosh_tunnel_port_def)

section \<open>Properties\<close>

text \<open>
  The \<open>mosh\<close> command releases whatever it acquires, on every path: the loopback socket, the identity,
  the transport, the control socket, renewal and the forward are released in the reverse order of their
  acquisition. SSH runs at most after the peer was found in the store with an endpoint and has answered,
  for a destination that cannot be an option.
\<close>

theorem mosh_cleans_up:
  assumes "mosh C J parse_addr io dir fl f = (r, acts)"
  shows "well_nested [] acts \<and>
   (\<forall>ssh args. RunSsh ssh args \<in> set acts \<longrightarrow>
     (\<exists>plan p. mosh_arguments fl = Inr plan \<and> args ! 3 = mp_host plan \<and> \<not> prefix ''-'' (mp_host plan) \<and>
       Store_Peer C J parse_addr dir (mp_peer plan) f = Inr p \<and> d_endpoint p \<noteq> [] \<and> mi_ping io))"
proof -
  have acts: "acts = snd (mosh C J parse_addr io dir fl f)" using assms by simp
  have "well_nested [] acts"
    unfolding acts mosh_def by (auto intro!: nested_scoped nested_connected split: sum.splits option.splits)
  moreover have "\<exists>plan p. mosh_arguments fl = Inr plan \<and> args ! 3 = mp_host plan \<and> \<not> prefix ''-'' (mp_host plan) \<and>
       Store_Peer C J parse_addr dir (mp_peer plan) f = Inr p \<and> d_endpoint p \<noteq> [] \<and> mi_ping io"
    if ssh: "RunSsh ssh args \<in> set acts" for ssh args
  proof -
    obtain plan where plan: "mosh_arguments fl = Inr plan" using ssh by (auto simp: acts mosh_def split: sum.splits)
    obtain p port ssh' cl where p: "Store_Peer C J parse_addr dir (mp_peer plan) f = Inr p" "d_endpoint p \<noteq> []"
      and run: "RunSsh ssh args \<in> set (snd (mosh_connected io fl plan ssh' cl port))"
      using ssh by (auto simp: acts mosh_def plan scoped_def split: sum.splits option.splits if_splits)
    have "RunSsh ssh args \<in> set (snd (mosh_session io fl plan ssh' cl port))" "mi_ping io"
      using run by (auto simp: mosh_connected_def acting_def scoped_def split: if_splits)
    then have "args ! 3 = mp_host plan" "mi_ping io"
      by (auto simp: mosh_session_def acting_def scoped_def split: sum.splits)
    moreover have "\<not> prefix ''-'' (mp_host plan)"
      using plan by (auto simp: mosh_arguments_def Let_def split: list.splits if_splits)
    ultimately show ?thesis using plan p by blast
  qed
  ultimately show ?thesis by blast
qed

definition mosh_demo_io :: mosh_io where
  "mosh_demo_io = \<lparr>mi_ssh = Some ''/bin/ssh'', mi_client = Some ''/bin/mosh-client'', mi_listen = Some 6000, mi_load = (\<lambda>_ _. True),
     mi_transport = True, mi_ping = True, mi_control = True, mi_run = True,
     mi_out = [''MOSH CONNECT 60001 AAAAAAAAAAAAAAAAAAAAAA''], mi_err = [], mi_environ = [], mi_exit = True\<rparr>"

definition mosh_demo_flags :: mosh_flags where
  "mosh_demo_flags = \<lparr>mf_host = [], mf_server_port = 0, mf_tunnel_port = 0, mf_local_port = 0, mf_server = [], mf_args = [''alice'']\<rparr>"

lemma mosh_demo_bootstrap:
  "bootstrapMosh True (mi_out mosh_demo_io) [] 0 = Inr \<lparr>ms_port = 60001, ms_key = ''AAAAAAAAAAAAAAAAAAAAAA''\<rparr>"
  "bootstrapMosh True [''MOSH CONNECT 60001 0123456789abcdefABCDEF''] [] 0 = Inr \<lparr>ms_port = 60001, ms_key = ''0123456789abcdefABCDEF''\<rparr>"
  by (simp_all add: mosh_demo_io_def bootstrapMosh_def parseMoshConnect_def moshConnect_def trim_cr_def is_digit_def
      key_char_def digit_val_def Let_def)

lemma mosh_demo_arguments:
  "mosh_arguments mosh_demo_flags = Inr \<lparr>mp_peer = ''alice'', mp_host = ''alice'', mp_command = []\<rparr>"
  by (simp add: mosh_arguments_def mosh_demo_flags_def Let_def)

lemma mosh_demo:
  "mosh plain_crypto client_json reachable mosh_demo_io [''q''] mosh_demo_flags client_disk =
    scoped (OpenLocal 0) CloseLocal (scoped OpenIdentity CloseIdentity (scoped OpenTransport CloseTransport
      (mosh_connected mosh_demo_io mosh_demo_flags \<lparr>mp_peer = ''alice'', mp_host = ''alice'', mp_command = []\<rparr> ''/bin/ssh''
        ''/bin/mosh-client'' 6000)))"
  using client_demo_peer client_demo_identity
  by (simp add: mosh_def mosh_demo_arguments) (simp add: mosh_demo_io_def mosh_demo_flags_def)

theorem mosh_cleans_up_witness:
  "well_nested [] (snd (mosh plain_crypto client_json reachable mosh_demo_io [''q''] mosh_demo_flags client_disk)) \<and>
   (\<exists>args. RunSsh ''/bin/ssh'' args \<in> set (snd (mosh plain_crypto client_json reachable mosh_demo_io [''q''] mosh_demo_flags client_disk)))"
proof -
  let ?m = "mosh plain_crypto client_json reachable mosh_demo_io [''q''] mosh_demo_flags client_disk"
  obtain r acts where m: "?m = (r, acts)" by fastforce
  have "\<exists>args. RunSsh ''/bin/ssh'' args \<in> set (snd ?m)"
    unfolding mosh_demo by (auto simp: scoped_def acting_def mosh_connected_def mosh_session_def mosh_demo_io_def)
  with mosh_cleans_up [OF m] m show ?thesis by simp
qed

text \<open>
  C32. The session key reaches the environment of \<open>mosh-client\<close> and nothing else: if the remote side had
  announced another key on the same port, whatever else it printed, the command would have done exactly
  the same, with the same result and the same line printed on standard error, up to that environment. There
  the key is the only \<open>MOSH_KEY\<close>.
\<close>

theorem mosh_key_confined:
  assumes "bootstrapMosh (mi_run io) (mi_out io) (mi_err io) (nat (mf_server_port fl)) = Inr s"
    "bootstrapMosh (mi_run io) outs errs (nat (mf_server_port fl)) = Inr s'" "ms_port s' = ms_port s"
  shows "observed (mosh C J parse_addr (io\<lparr>mi_out := outs, mi_err := errs\<rparr>) dir fl f) = observed (mosh C J parse_addr io dir fl f) \<and>
    (\<forall>c args env. RunMoshClient c args env \<in> set (snd (mosh C J parse_addr io dir fl f)) \<longrightarrow>
      filter (prefix ''MOSH_KEY='') env = [''MOSH_KEY='' @ ms_key s])"
proof
  have "observed (mosh_connected (io\<lparr>mi_out := outs, mi_err := errs\<rparr>) fl plan ssh cl port) = observed (mosh_connected io fl plan ssh cl port)"
    for plan ssh cl port
    using session_observed [OF assms] by (simp add: mosh_connected_def observed_acting observed_scoped)
  then show "observed (mosh C J parse_addr (io\<lparr>mi_out := outs, mi_err := errs\<rparr>) dir fl f) = observed (mosh C J parse_addr io dir fl f)"
    by (simp add: mosh_def observed_scoped split: sum.splits option.splits)
  show "\<forall>c args env. RunMoshClient c args env \<in> set (snd (mosh C J parse_addr io dir fl f)) \<longrightarrow>
      filter (prefix ''MOSH_KEY='') env = [''MOSH_KEY='' @ ms_key s]"
  proof (intro allI impI)
    fix c args env
    assume "RunMoshClient c args env \<in> set (snd (mosh C J parse_addr io dir fl f))"
    then obtain plan ssh cl port where "RunMoshClient c args env \<in> set (snd (mosh_connected io fl plan ssh cl port))"
      by (auto simp: mosh_def scoped_def split: sum.splits option.splits if_splits)
    then have "RunMoshClient c args env \<in> set (snd (mosh_session io fl plan ssh cl port))"
      by (auto simp: mosh_connected_def scoped_def acting_def split: if_splits)
    then have "env = moshEnvironment (mi_environ io) (ms_key s)"
      using assms(1) by (auto simp: mosh_session_def scoped_def acting_def)
    then show "filter (prefix ''MOSH_KEY='') env = [''MOSH_KEY='' @ ms_key s]"
      by (simp add: moshEnvironment_def)
  qed
qed

theorem mosh_key_confined_witness:
  "observed (mosh plain_crypto client_json reachable
     (mosh_demo_io\<lparr>mi_out := [''MOSH CONNECT 60001 0123456789abcdefABCDEF''], mi_err := []\<rparr>) [''q''] mosh_demo_flags client_disk) =
   observed (mosh plain_crypto client_json reachable mosh_demo_io [''q''] mosh_demo_flags client_disk)"
proof -
  have "mi_run mosh_demo_io" "mi_err mosh_demo_io = []" "nat (mf_server_port mosh_demo_flags) = 0"
    by (simp_all add: mosh_demo_io_def mosh_demo_flags_def)
  with mosh_demo_bootstrap have
    "bootstrapMosh (mi_run mosh_demo_io) (mi_out mosh_demo_io) (mi_err mosh_demo_io) (nat (mf_server_port mosh_demo_flags)) =
       Inr \<lparr>ms_port = 60001, ms_key = ''AAAAAAAAAAAAAAAAAAAAAA''\<rparr>"
    "bootstrapMosh (mi_run mosh_demo_io) [''MOSH CONNECT 60001 0123456789abcdefABCDEF''] [] (nat (mf_server_port mosh_demo_flags)) =
       Inr \<lparr>ms_port = 60001, ms_key = ''0123456789abcdefABCDEF''\<rparr>"
    by simp_all
  from mosh_key_confined [OF this] show ?thesis by simp
qed

end
