(* ===== verification/Udp_Relay.thy ===== *)
theory Udp_Relay
  imports Udp_Services
begin

text \<open>
  The relays between a tunnel flow and a UDP socket: \<open>proxyUDPDatagrams\<close> and \<open>FramedUDP\<close> of
  \<open>src/internal/proxy/udp_frame.go\<close>, the service handler and the flow worker of \<open>src/internal/proxy/udp.go\<close>.

  \<open>proxyUDPDatagrams\<close> is a machine of three threads: two pumps, each one \<open>Read\<close> or \<open>Write\<close> at a time, and
  the function itself, which waits for one pump, closes both connections and waits for the other pump.
  Events carry how the calls on the connections end. Of connections the model uses that calls on a closed
  one fail (\<open>net.Conn\<close>) and that \<open>Read\<close> fills at most its buffer.
\<close>

section \<open>The pumps\<close>

datatype pump = Reading | Writing bytes | Finished

definition pump_read :: "bytes option \<Rightarrow> pump" where
  "pump_read r =
     (case r of None \<Rightarrow> Finished
      | Some packet \<Rightarrow> if length packet > MaxUDPDatagram then Reading else Writing packet)"

definition pump_write :: "bytes \<Rightarrow> nat option \<Rightarrow> pump" where
  "pump_write packet w =
     (case w of None \<Rightarrow> Finished
      | Some written \<Rightarrow> if written \<noteq> length packet then Finished else Reading)"

record lane =
  ln_pump :: pump
  ln_read :: "bytes list"
  ln_written :: "bytes list"

definition new_lane :: lane where
  "new_lane = \<lparr>ln_pump = Reading, ln_read = [], ln_written = []\<rparr>"

datatype lane_event = ReadEnds "bytes option" | WriteEnds "nat option"

inductive lane_step :: "bool \<Rightarrow> bool \<Rightarrow> lane \<Rightarrow> lane_event \<Rightarrow> lane \<Rightarrow> bool" for src_closed dst_closed where
  lane_read: "ln_pump l = Reading \<Longrightarrow> (src_closed \<Longrightarrow> r = None) \<Longrightarrow>
    (\<And>p. r = Some p \<Longrightarrow> length p \<le> MaxUDPDatagram + 1) \<Longrightarrow>
    lane_step src_closed dst_closed l (ReadEnds r)
      (l\<lparr>ln_pump := pump_read r, ln_read := ln_read l @ (case r of None \<Rightarrow> [] | Some p \<Rightarrow> [p])\<rparr>)"
| lane_write: "ln_pump l = Writing p \<Longrightarrow> (dst_closed \<Longrightarrow> w = None) \<Longrightarrow>
    lane_step src_closed dst_closed l (WriteEnds w)
      (l\<lparr>ln_pump := pump_write p w,
         ln_written := ln_written l @ (if pump_write p w = Reading then [p] else [])\<rparr>)"

inductive_cases lane_stepE: "lane_step sc dc l e m"
inductive_simps lane_read_iff: "lane_step sc dc l (ReadEnds r) m"
inductive_simps lane_write_iff: "lane_step sc dc l (WriteEnds w) m"

section \<open>The relay\<close>

datatype phase = AwaitFirst | ClosingA | ClosingB | AwaitSecond | Returned

record proxy =
  to_a :: lane
  to_b :: lane
  main_at :: phase
  closed_a :: bool
  closed_b :: bool

definition proxy_start :: proxy where
  "proxy_start = \<lparr>to_a = new_lane, to_b = new_lane, main_at = AwaitFirst, closed_a = False, closed_b = False\<rparr>"

definition ended_pumps :: "proxy \<Rightarrow> nat" where
  "ended_pumps s = (if ln_pump (to_a s) = Finished then 1 else 0) + (if ln_pump (to_b s) = Finished then 1 else 0)"

text \<open>The waiting thread: \<open>None\<close> when it is blocked on the channel, or has returned.\<close>

definition main_turn :: "proxy \<Rightarrow> proxy option" where
  "main_turn s =
     (case main_at s of
        AwaitFirst \<Rightarrow> if 1 \<le> ended_pumps s then Some (s\<lparr>main_at := ClosingA\<rparr>) else None
      | ClosingA \<Rightarrow> Some (s\<lparr>closed_a := True, main_at := ClosingB\<rparr>)
      | ClosingB \<Rightarrow> Some (s\<lparr>closed_b := True, main_at := AwaitSecond\<rparr>)
      | AwaitSecond \<Rightarrow> if 2 \<le> ended_pumps s then Some (s\<lparr>main_at := Returned\<rparr>) else None
      | Returned \<Rightarrow> None)"

datatype proxy_event = IntoA lane_event | IntoB lane_event | Main

inductive proxy_step :: "proxy \<Rightarrow> proxy_event \<Rightarrow> proxy \<Rightarrow> bool" where
  proxy_a: "lane_step (closed_b s) (closed_a s) (to_a s) e l \<Longrightarrow> proxy_step s (IntoA e) (s\<lparr>to_a := l\<rparr>)"
| proxy_b: "lane_step (closed_a s) (closed_b s) (to_b s) e l \<Longrightarrow> proxy_step s (IntoB e) (s\<lparr>to_b := l\<rparr>)"
| proxy_main: "main_turn s = Some t \<Longrightarrow> proxy_step s Main t"

inductive_cases proxy_stepE: "proxy_step s e t"
inductive_simps into_a_iff: "proxy_step s (IntoA e) t"
inductive_simps into_b_iff: "proxy_step s (IntoB e) t"
inductive_simps main_iff: "proxy_step s Main t"

lemmas relay_steps = lane_read_iff lane_write_iff into_a_iff into_b_iff main_iff runs_Cons_iff

section \<open>Service handlers\<close>

text \<open>
  What a handler does, in order. It closes its tunnel flow at the end, whatever happened, and gives the
  slot back it has taken; \<open>dial\<close> is how connecting to the destination ends.
\<close>

datatype service_act = TakeSlot | DialUdp string | RelayDatagrams | CloseOut | ReleaseSlot | CloseIn

datatype dial_end = DialFails | NotUdp | DialsUdp

definition service_handler :: "string \<Rightarrow> bool \<Rightarrow> nat \<Rightarrow> dial_end \<Rightarrow> service_act list" where
  "service_handler target cancelled slots dial =
     (if cancelled \<or> \<not> slots < MaxUDPFlows then [CloseIn]
      else [TakeSlot, DialUdp target] @
        (case dial of DialFails \<Rightarrow> [] | NotUdp \<Rightarrow> [CloseOut] | DialsUdp \<Rightarrow> [RelayDatagrams, CloseOut]) @
        [ReleaseSlot, CloseIn])"

definition act_count :: "service_act \<Rightarrow> service_act list \<Rightarrow> nat" where
  "act_count a as = length (filter ((=) a) as)"

text \<open>Every path gives back what it took, dials nothing but its destination and closes its tunnel flow last.\<close>

lemma handler_cleans_up:
  "act_count ReleaseSlot (service_handler target cancelled slots dial) = act_count TakeSlot (service_handler target cancelled slots dial)"
  "last (service_handler target cancelled slots dial) = CloseIn"
  "DialUdp x \<in> set (service_handler target cancelled slots dial) \<Longrightarrow> x = target \<and> slots < MaxUDPFlows \<and> \<not> cancelled"
  by (auto simp: service_handler_def act_count_def split: dial_end.splits if_splits)

section \<open>Framed ends\<close>

definition FramedUDP :: "bytes \<Rightarrow> framedUDP" where
  "FramedUDP seed = \<lparr>nextid = of_nat (be_get seed), decoder = []\<rparr>"

text \<open>
  A forward from the command line: the address is resolved and bound before \<open>ForwardUDP\<close> runs. The seed
  is what a dialled tunnel connection draws for its framing.
\<close>

datatype forward_cmd_error = ResolveFails | ListenFails | ForwardFails forward_error

definition forwardUDP ::
  "bool \<Rightarrow> bool \<Rightarrow> duration \<Rightarrow> listener_event list \<Rightarrow> (forward_cmd_error option \<times> forward) option" where
  "forwardUDP resolved bound idle es =
     (if \<not> resolved then Some (Some ResolveFails, no_flows)
      else if \<not> bound then Some (Some ListenFails, no_flows)
      else map_option (map_prod (map_option ForwardFails) (\<lambda>s. s)) (ForwardUDP True idle es))"

definition dial_framed :: "bytes option \<Rightarrow> framedUDP option" where
  "dial_framed conn = map_option FramedUDP conn"

text \<open>
  The worker of a flow writes the packets of its queue until one fails: the connection, the frames sent
  for each packet, and whether the loop still runs.
\<close>

fun flow_worker :: "conn_write \<Rightarrow> framedUDP \<Rightarrow> bytes list \<Rightarrow> framedUDP \<times> bytes list list \<times> bool" where
  "flow_worker wr c [] = (c, [], True)"
| "flow_worker wr c (packet # ps) =
     (case Write wr c packet of
        (c1, frames, Inl e) \<Rightarrow> (c1, [frames], False)
      | (c1, frames, Inr n) \<Rightarrow>
        if n \<noteq> length packet then (c1, [frames], False)
        else (let (c2, fss, alive) = flow_worker wr c1 ps in (c2, frames # fss, alive)))"

text \<open>The pump that reads a framed connection: the datagrams it passes on to a destination that takes them.\<close>

lemma Read_shorter: "Read cap c ins = (c', rest, Some r) \<Longrightarrow> length rest < length ins"
proof (induction cap c ins rule: Read.induct)
  case (3 cap c frame now ins)
  obtain d out where acc: "accept (take (udpFrameLimit + 1) frame) now (decoder c) = (d, out)" by fastforce
  show ?case
  proof (cases out)
    case None
    with 3 acc have "length rest < length ins" by (simp add: Let_def)
    then show ?thesis by simp
  next
    case (Some packet)
    with 3 acc show ?thesis by (simp add: Let_def split: if_splits)
  qed
qed auto

function pump_framed :: "framedUDP \<Rightarrow> (bytes \<times> gotime) option list \<Rightarrow> bytes list" where
  "pump_framed c ins =
     (case Read (MaxUDPDatagram + 1) c ins of
        (c1, rest, Some (Inr packet)) \<Rightarrow>
          (if length packet > MaxUDPDatagram then [] else [packet]) @ pump_framed c1 rest
      | (c1, rest, _) \<Rightarrow> [])"
  by pat_completeness auto
termination
  by (relation "measure (\<lambda>(c, ins). length ins)") (auto dest: Read_shorter [OF sym])

declare pump_framed.simps [simp del]

section \<open>The relay drains\<close>

definition small :: "bytes \<Rightarrow> bool" where
  "small p \<longleftrightarrow> length p \<le> MaxUDPDatagram"

definition lane_ok :: "lane \<Rightarrow> bool" where
  "lane_ok l \<longleftrightarrow>
     (case ln_pump l of Reading \<Rightarrow> ln_written l = filter small (ln_read l)
      | Writing p \<Rightarrow> ln_written l @ [p] = filter small (ln_read l)
      | Finished \<Rightarrow> \<exists>lost. length lost \<le> 1 \<and> ln_written l @ lost = filter small (ln_read l))"

lemma lane_ok_step: "lane_ok l \<Longrightarrow> lane_step sc dc l e m \<Longrightarrow> lane_ok m"
proof (erule lane_stepE)
  fix r
  assume ok: "lane_ok l" and r: "ln_pump l = Reading"
    and m: "m = l\<lparr>ln_pump := pump_read r, ln_read := ln_read l @ (case r of None \<Rightarrow> [] | Some p \<Rightarrow> [p])\<rparr>"
  then have "ln_written l = filter small (ln_read l)" by (simp add: lane_ok_def)
  with m show "lane_ok m" by (cases r) (auto simp: lane_ok_def pump_read_def small_def)
next
  fix p w
  assume ok: "lane_ok l" and p: "ln_pump l = Writing p"
    and m: "m = l\<lparr>ln_pump := pump_write p w, ln_written := ln_written l @ (if pump_write p w = Reading then [p] else [])\<rparr>"
  then have eq: "ln_written l @ [p] = filter small (ln_read l)" by (simp add: lane_ok_def)
  moreover have "length [p] \<le> 1" by simp
  ultimately have "\<exists>lost. length lost \<le> 1 \<and> ln_written l @ lost = filter small (ln_read l)" by blast
  with eq m show "lane_ok m" by (cases w) (auto simp: lane_ok_def pump_write_def)
qed

definition phase_ok :: "proxy \<Rightarrow> bool" where
  "phase_ok s \<longleftrightarrow>
     (case main_at s of
        AwaitFirst \<Rightarrow> \<not> closed_a s \<and> \<not> closed_b s
      | ClosingA \<Rightarrow> \<not> closed_a s \<and> \<not> closed_b s \<and> 1 \<le> ended_pumps s
      | ClosingB \<Rightarrow> closed_a s \<and> \<not> closed_b s \<and> 1 \<le> ended_pumps s
      | AwaitSecond \<Rightarrow> closed_a s \<and> closed_b s \<and> 1 \<le> ended_pumps s
      | Returned \<Rightarrow> closed_a s \<and> closed_b s \<and> ended_pumps s = 2)"

definition proxy_ok :: "proxy \<Rightarrow> bool" where
  "proxy_ok s \<longleftrightarrow> lane_ok (to_a s) \<and> lane_ok (to_b s) \<and> phase_ok s"

lemma ended_le_2: "ended_pumps s \<le> 2"
  by (simp add: ended_pumps_def)

lemma lane_step_alive: "lane_step sc dc l e m \<Longrightarrow> ln_pump l \<noteq> Finished"
  by (auto elim: lane_stepE)

lemma ended_to_a: "lane_step sc dc (to_a s) e l \<Longrightarrow> ended_pumps s \<le> ended_pumps (s\<lparr>to_a := l\<rparr>) \<and> ended_pumps s < 2"
  using lane_step_alive by (fastforce simp: ended_pumps_def)

lemma ended_to_b: "lane_step sc dc (to_b s) e l \<Longrightarrow> ended_pumps s \<le> ended_pumps (s\<lparr>to_b := l\<rparr>) \<and> ended_pumps s < 2"
  using lane_step_alive by (fastforce simp: ended_pumps_def)

lemma proxy_ok_step: "proxy_ok s \<Longrightarrow> proxy_step s e t \<Longrightarrow> proxy_ok t"
proof (erule proxy_stepE)
  fix e l
  assume s: "proxy_ok s" and l: "lane_step (closed_b s) (closed_a s) (to_a s) e l" and t: "t = s\<lparr>to_a := l\<rparr>"
  have "phase_ok t" using s ended_to_a [OF l] t by (auto simp: proxy_ok_def phase_ok_def split: phase.splits)
  with s t lane_ok_step [OF _ l] show "proxy_ok t" by (simp add: proxy_ok_def)
next
  fix e l
  assume s: "proxy_ok s" and l: "lane_step (closed_a s) (closed_b s) (to_b s) e l" and t: "t = s\<lparr>to_b := l\<rparr>"
  have "phase_ok t" using s ended_to_b [OF l] t by (auto simp: proxy_ok_def phase_ok_def split: phase.splits)
  with s t lane_ok_step [OF _ l] show "proxy_ok t" by (simp add: proxy_ok_def)
next
  assume s: "proxy_ok s" and t: "main_turn s = Some t"
  have "lane_ok (to_a t) \<and> lane_ok (to_b t)"
    using s t by (auto simp: proxy_ok_def main_turn_def split: phase.splits if_splits)
  moreover have "phase_ok t"
    using s t ended_le_2 [of s]
    by (cases "main_at s") (auto simp: proxy_ok_def main_turn_def phase_ok_def ended_pumps_def split: if_splits)
  ultimately show "proxy_ok t" by (simp add: proxy_ok_def)
qed

interpretation proxy_machine: invariant_machine "\<lambda>s. s = proxy_start" proxy_step proxy_ok
proof
  show "proxy_ok s" if "s = proxy_start" for s
    using that by (simp add: proxy_ok_def lane_ok_def phase_ok_def proxy_start_def new_lane_def)
  show "proxy_ok t" if "proxy_ok s" "proxy_step s e t" for s e t
    using that by (rule proxy_ok_step)
qed

text \<open>Once both connections are closed every step ends a pump or returns.\<close>

definition both_closed :: "proxy \<Rightarrow> bool" where
  "both_closed s \<longleftrightarrow> proxy_ok s \<and> closed_a s \<and> closed_b s"

definition left_over :: "proxy \<Rightarrow> nat" where
  "left_over s = (2 - ended_pumps s) + (if main_at s = Returned then 0 else 1)"

lemma closed_lane_ends: "lane_step True True l e m \<Longrightarrow> ln_pump m = Finished"
  by (erule lane_stepE) (auto simp: pump_read_def pump_write_def)

lemma closed_lane_moves:
  assumes "ln_pump l \<noteq> Finished"
  shows "\<exists>e m. lane_step True True l e m"
proof (cases "ln_pump l")
  case Reading
  then show ?thesis using lane_read [of l True None True] by auto
next
  case (Writing p)
  then show ?thesis using lane_write [of l p True None True] by auto
qed (use assms in simp)

lemma both_closed_step: "both_closed s \<Longrightarrow> proxy_step s e t \<Longrightarrow> both_closed t \<and> left_over t < left_over s"
proof (erule proxy_stepE)
  fix e l
  assume s: "both_closed s" and l: "lane_step (closed_b s) (closed_a s) (to_a s) e l" and t: "t = s\<lparr>to_a := l\<rparr>"
  have "both_closed t"
    using s t proxy_ok_step [OF _ proxy_a [OF l]] by (simp add: both_closed_def)
  moreover have "ln_pump l = Finished" "ln_pump (to_a s) \<noteq> Finished"
    using s l closed_lane_ends lane_step_alive [OF l] by (auto simp: both_closed_def)
  ultimately show ?thesis using t by (auto simp: left_over_def ended_pumps_def)
next
  fix e l
  assume s: "both_closed s" and l: "lane_step (closed_a s) (closed_b s) (to_b s) e l" and t: "t = s\<lparr>to_b := l\<rparr>"
  have "both_closed t"
    using s t proxy_ok_step [OF _ proxy_b [OF l]] by (simp add: both_closed_def)
  moreover have "ln_pump l = Finished" "ln_pump (to_b s) \<noteq> Finished"
    using s l closed_lane_ends lane_step_alive [OF l] by (auto simp: both_closed_def)
  ultimately show ?thesis using t by (auto simp: left_over_def ended_pumps_def)
next
  assume s: "both_closed s" and t: "main_turn s = Some t"
  have ph: "main_at s = AwaitSecond \<or> main_at s = Returned"
    using s by (cases "main_at s") (auto simp: both_closed_def proxy_ok_def phase_ok_def)
  then have "t = s\<lparr>main_at := Returned\<rparr>" "main_at s = AwaitSecond"
    using t by (auto simp: main_turn_def split: if_splits)
  moreover have "proxy_ok t" using s proxy_ok_step [OF _ proxy_main [OF t]] by (simp add: both_closed_def)
  ultimately show ?thesis using s by (simp add: both_closed_def left_over_def ended_pumps_def)
qed

lemma both_closed_progress:
  assumes "both_closed s" "main_at s \<noteq> Returned"
  shows "\<exists>e t. proxy_step s e t"
proof -
  have c: "closed_a s" "closed_b s" "main_at s = AwaitSecond"
    using assms by (cases "main_at s"; auto simp: both_closed_def proxy_ok_def phase_ok_def)+
  consider "ln_pump (to_a s) \<noteq> Finished" | "ln_pump (to_b s) \<noteq> Finished" | "ended_pumps s = 2"
    by (cases "ln_pump (to_a s) = Finished"; cases "ln_pump (to_b s) = Finished") (auto simp: ended_pumps_def)
  then show ?thesis
  proof cases
    case 1
    then show ?thesis using closed_lane_moves proxy_a c(1,2) by (metis (full_types))
  next
    case 2
    then show ?thesis using closed_lane_moves proxy_b c(1,2) by (metis (full_types))
  next
    case 3
    then have "main_turn s = Some (s\<lparr>main_at := Returned\<rparr>)" using c(3) by (simp add: main_turn_def)
    then show ?thesis using proxy_main by blast
  qed
qed

interpretation closing_proxy: draining_machine both_closed proxy_step both_closed left_over "\<lambda>s. main_at s = Returned"
  by unfold_locales (use both_closed_step both_closed_progress in blast)+

section \<open>From the flow worker to the pump\<close>

lemma pump_framed_skip:
  assumes "accept (take (udpFrameLimit + 1) b) t (decoder c) = (d, None)"
  shows "pump_framed c (Some (b, t) # ins) = pump_framed (c\<lparr>decoder := d\<rparr>) ins"
proof -
  have "Read (MaxUDPDatagram + 1) c (Some (b, t) # ins) = Read (MaxUDPDatagram + 1) (c\<lparr>decoder := d\<rparr>) ins"
    using assms by (simp add: Let_def)
  then show ?thesis
    by (simp only: pump_framed.simps [of c "Some (b, t) # ins"] pump_framed.simps [of "c\<lparr>decoder := d\<rparr>" ins])
qed

lemma pump_framed_pass:
  assumes "accept (take (udpFrameLimit + 1) b) t (decoder c) = (d, Some p)" "length p \<le> MaxUDPDatagram"
  shows "pump_framed c (Some (b, t) # ins) = p # pump_framed (c\<lparr>decoder := d\<rparr>) ins"
proof -
  have r: "Read (MaxUDPDatagram + 1) c (Some (b, t) # ins) = (c\<lparr>decoder := d\<rparr>, ins, Some (Inr p))"
    using assms by (simp add: Let_def)
  have "\<not> MaxUDPDatagram < length p" using assms(2) by simp
  then show ?thesis
    by (simp only: pump_framed.simps [of c "Some (b, t) # ins"] r prod.case option.case sum.case if_False append_Cons append_Nil)
qed

lemma pump_framed_accepts:
  assumes "\<forall>x \<in> set ins. length (fst x) \<le> udpFrameLimit + 1" "\<forall>p \<in> set (snd (accept_all (decoder c) ins)). length p \<le> MaxUDPDatagram"
  shows "pump_framed c (map Some ins) = snd (accept_all (decoder c) ins)"
  using assms
proof (induction ins arbitrary: c)
  case Nil
  show ?case by (subst pump_framed.simps) simp
next
  case (Cons x ins)
  obtain b t where x: "x = (b, t)" by fastforce
  obtain d out where acc: "accept b t (decoder c) = (d, out)" by fastforce
  have b: "take (udpFrameLimit + 1) b = b" using Cons.prems(1) x by simp
  have outs: "snd (accept_all (decoder c) (x # ins)) = (case out of None \<Rightarrow> [] | Some p \<Rightarrow> [p]) @ snd (accept_all d ins)"
    by (simp add: x acc split: prod.splits)
  have IH: "pump_framed (c\<lparr>decoder := d\<rparr>) (map Some ins) = snd (accept_all d ins)"
    using Cons.IH [of "c\<lparr>decoder := d\<rparr>"] Cons.prems outs by simp
  show ?case
  proof (cases out)
    case None
    with pump_framed_skip acc b show ?thesis unfolding outs x by (simp add: IH)
  next
    case (Some p)
    then have "length p \<le> MaxUDPDatagram" using Cons.prems(2) outs by simp
    with Some acc b have "pump_framed c (map Some (x # ins)) = p # pump_framed (c\<lparr>decoder := d\<rparr>) (map Some ins)"
      using pump_framed_pass [of b t c d p "map Some ins"] by (simp add: x)
    with Some show ?thesis by (simp only: outs IH option.case append_Cons append_Nil)
  qed
qed

lemma accept_all_append:
  "accept_all d (xs @ ys) = (let (d1, o1) = accept_all d xs; (d2, o2) = accept_all d1 ys in (d2, o1 @ o2))"
  by (induction d xs rule: accept_all.induct) (auto simp: Let_def split: prod.splits)

lemma accept_keys:
  assumes "\<And>f. parse_fragment b = Some f \<Longrightarrow> f_id f = fid"
  shows "mkeys (fst (accept b now d)) \<subseteq> insert fid (mkeys d)"
proof -
  have ex: "mkeys (drop_expired now d) \<subseteq> mkeys d" by (auto simp: drop_expired_def)
  have up: "mkeys (AList.update fid v e) = insert fid (mkeys e)" for v e by (simp add: dom_update)
  have del: "mkeys (AList.delete k e) \<subseteq> mkeys e" for k and e :: decoder by (auto simp: AList.delete_eq)
  have op: "mkeys (open_assembly fid n now e) \<subseteq> insert fid (mkeys e)" for n e
    using del by (auto simp: open_assembly_def evict_assembly_def up simp del: set_map)
  have frag: "mkeys (fst (accept_fragment f now e)) \<subseteq> insert fid (mkeys e)" if "f_id f = fid" for f e
    using op [of "f_size f" e] that subset_trans [OF del op]
    by (auto simp: accept_fragment_def Let_def up simp del: set_map split: option.splits)
  show ?thesis
  proof (cases "parse_fragment b")
    case None
    with ex show ?thesis by (auto simp: accept_def)
  next
    case (Some f)
    with frag [OF assms [OF Some], of "drop_expired now d"] ex show ?thesis
      by (auto simp: accept_def Let_def simp del: set_map split: if_splits)
  qed
qed

lemma accept_all_keys:
  assumes "\<forall>x \<in> set ins. \<forall>f. parse_fragment (fst x) = Some f \<longrightarrow> f_id f = fid" "accept_all d ins = (d', outs)"
  shows "mkeys d' \<subseteq> insert fid (mkeys d)"
  using assms
proof (induction ins arbitrary: d outs)
  case (Cons x ins)
  obtain b t where x: "x = (b, t)" by fastforce
  obtain d1 out where acc: "accept b t d = (d1, out)" by fastforce
  have "mkeys d1 \<subseteq> insert fid (mkeys d)" using accept_keys [of b fid t d] Cons.prems(1) acc x by auto
  moreover obtain outs' where "accept_all d1 ins = (d', outs')"
    using Cons.prems(2) x acc by (auto split: prod.splits)
  then have "mkeys d' \<subseteq> insert fid (mkeys d1)" using Cons.IH Cons.prems(1) by simp
  ultimately show ?case using subset_trans [of "mkeys d'" "insert fid (mkeys d1)" "insert fid (mkeys d)"] insert_mono
    by blast
qed auto

text \<open>One datagram at an idle decoder, in any order of its frames.\<close>

lemma accept_one:
  assumes "Write wr c packet = (c1, frames, Inr n)" "mset (map fst ins) = mset frames"
    "\<forall>x \<in> set ins. T \<le> snd x \<and> snd x < T + udpAssemblyLifetime"
  shows "accept_all [] ins = ([], [packet])"
proof -
  note W = Write_frames [OF assms(1)]
  obtain d' where d': "accept_all [] ins = (d', [packet])" "unat (nextid c1) \<notin> mkeys d'"
    using accept_datagram [OF assms(1,2), of "map snd ins" T "[]"] assms(3) by (auto simp: zip_map_fst_snd)
  have "f_id f = unat (nextid c1)" if "x \<in> set ins" "parse_fragment (fst x) = Some f" for x f
  proof -
    have "fst x \<in> set frames" using that(1) mset_eq_setD [OF assms(2)] by force
    then obtain i where "i < frag_count (length packet)" "fst x = frame_of (packet_fragment (unat (nextid c1)) packet i)"
      using W(4) by auto
    then have "f = packet_fragment (unat (nextid c1)) packet i"
      using that(2) fragment_codec.dec_enc [OF packet_fragment_ok [OF unat_64_less W(1)]] by simp
    then show ?thesis by simp
  qed
  then have "mkeys d' \<subseteq> {unat (nextid c1)}" using accept_all_keys [OF _ d'(1)] by auto
  with d'(2) have "d' = []" by (cases d') auto
  with d'(1) show ?thesis by simp
qed

definition arrives :: "bytes list \<Rightarrow> (bytes \<times> gotime) list \<Rightarrow> bool" where
  "arrives frames ins \<longleftrightarrow> mset (map fst ins) = mset frames \<and>
     (\<exists>T. \<forall>x \<in> set ins. T \<le> snd x \<and> snd x < T + udpAssemblyLifetime)"

lemma worker_accepted:
  assumes "flow_worker wr c ps = (c', fss, True)" "list_all2 arrives fss ais"
  shows "accept_all [] (concat ais) = ([], ps) \<and> (\<forall>x \<in> set (concat ais). length (fst x) \<le> udpFrameLimit) \<and>
    (\<forall>p \<in> set ps. length p \<le> MaxUDPDatagram)"
  using assms
proof (induction ps arbitrary: c fss ais)
  case (Cons packet ps)
  obtain c1 frames r where w: "Write wr c packet = (c1, frames, r)" by (metis prod_cases3)
  then obtain n gs where r: "r = Inr n" and rest: "flow_worker wr c1 ps = (c', gs, True)" and fss: "fss = frames # gs"
    using Cons.prems(1) by (cases r) (auto split: if_splits prod.splits)
  obtain ins more where ins: "ais = ins # more" "arrives frames ins" "list_all2 arrives gs more"
    using Cons.prems(2) fss by (auto simp: list_all2_Cons1)
  note W = Write_frames [OF w [unfolded r]]
  have one: "accept_all [] ins = ([], [packet])"
    using ins(2) accept_one [OF w [unfolded r]] by (auto simp: arrives_def)
  have "set (map fst ins) = set frames"
    using ins(2) mset_eq_setD unfolding arrives_def by blast
  then have "\<forall>x \<in> set ins. fst x \<in> set frames" by auto
  then have "\<forall>x \<in> set ins. length (fst x) \<le> udpFrameLimit"
    using W(4) by (force simp: frame_of_def udp_frame_parts)
  with Cons.IH [OF rest ins(3)] one W(1) ins(1) show ?case by (auto simp: accept_all_append)
qed simp

text \<open>The frames of a worker, also of a packet whose write failed: fragments of its packets, each under an identifier of its own.\<close>

lemma write_chunks_frames:
  "write_chunks wr packet fid n is past = (frames, r) \<Longrightarrow>
   set frames \<subseteq> set past \<union> (\<lambda>i. udp_frame (unat fid) n i (slice (i * 1056) (i * 1056 + 1056) packet)) ` set is"
proof (induction "is" arbitrary: past)
  case (Cons i js)
  let ?f = "udp_frame (unat fid) n i (slice (i * 1056) (i * 1056 + 1056) packet)"
  have "frames = past @ [?f] \<or> write_chunks wr packet fid n js (past @ [?f]) = (frames, r)"
    using Cons.prems by (auto simp: Let_def slice_def split: option.splits if_splits)
  then show ?case using Cons.IH by fastforce
qed auto

lemma Write_fragments:
  assumes "Write wr c packet = (c', frames, r)" "b \<in> set frames"
  shows "length packet \<le> 65507 \<and>
    (\<exists>i < frag_count (length packet). b = frame_of (packet_fragment (unat (nextid c + 1)) packet i))"
  using assms write_chunks_frames [of wr packet "nextid c + 1" "length packet" "[0..<frag_count (length packet)]" "[]" frames r]
  by (force simp: Write_def frame_of_def packet_fragment_def Let_def split: if_splits)

lemma worker_frames:
  "flow_worker wr c ps = (c', fss, alive) \<Longrightarrow> b \<in> set (concat fss) \<Longrightarrow>
   \<exists>k < length ps. length (ps ! k) \<le> 65507 \<and> (\<exists>i < frag_count (length (ps ! k)).
     b = frame_of (packet_fragment (unat (nextid c + 1 + of_nat k)) (ps ! k) i))"
proof (induction ps arbitrary: c fss)
  case (Cons packet ps)
  obtain c1 frames r where w: "Write wr c packet = (c1, frames, r)" by (metis prod_cases3)
  consider (here) "b \<in> set frames" | (later) n gs where "r = Inr n" "flow_worker wr c1 ps = (c', gs, alive)" "b \<in> set (concat gs)"
  proof (cases "b \<in> set frames")
    case False
    then obtain n gs where "r = Inr n" "flow_worker wr c1 ps = (c', gs, alive)" "fss = frames # gs"
      using Cons.prems w by (cases r) (auto split: if_splits prod.splits)
    then show thesis using False Cons.prems(2) later by simp
  qed (use here in blast)
  then show ?case
  proof cases
    case here
    then show ?thesis using Write_fragments [OF w] by (intro exI [of _ 0]) simp
  next
    case later
    have id: "nextid c1 = nextid c + 1" using Write_frames(2) [OF w [unfolded later(1)]] by simp
    from Cons.IH [OF later(2,3)] obtain k where k: "k < length ps" "length (ps ! k) \<le> 65507"
      "\<exists>i < frag_count (length (ps ! k)). b = frame_of (packet_fragment (unat (nextid c1 + 1 + of_nat k)) (ps ! k) i)"
      by blast
    have "nextid c1 + 1 + of_nat k = nextid c + 1 + of_nat (Suc k)" by (simp add: id)
    with k show ?thesis by (intro exI [of _ "Suc k"]) simp
  qed
qed simp

lemma worker_ids:
  assumes "unat (a + of_nat k :: 64 word) = unat (a + of_nat l)" "k < 2 ^ 64" "l < 2 ^ 64"
  shows "k = l"
proof -
  have "(of_nat k :: 64 word) = of_nat l" using assms(1) by (metis add_left_cancel word_unat_eq_iff)
  then have "unat (of_nat k :: 64 word) = unat (of_nat l :: 64 word)" by simp
  with assms(2,3) show ?thesis by (simp add: unat_of_nat)
qed

text \<open>What the pump passes on, whatever it is given: whole datagrams of fragments it was given.\<close>

lemma Read_whole:
  "Read cap c ins = (c', rest, r) \<Longrightarrow> dec_ok H (decoder c) \<Longrightarrow> length (decoder c) \<le> 8 \<Longrightarrow>
   \<forall>x. Some x \<in> set ins \<longrightarrow> set_option (parse_fragment (take (udpFrameLimit + 1) (fst x))) \<subseteq> H \<Longrightarrow>
   set rest \<subseteq> set ins \<and> (\<forall>p. r = Some (Inr p) \<longrightarrow> dec_ok H (decoder c') \<and> length (decoder c') \<le> 8 \<and> (\<exists>fid. whole H fid p))"
proof (induction cap c ins rule: Read.induct)
  case (3 cap c frame now ins)
  obtain d out where acc: "accept (take (udpFrameLimit + 1) frame) now (decoder c) = (d, out)" by fastforce
  have "H \<union> set_option (parse_fragment (take (udpFrameLimit + 1) frame)) = H" using 3(5) by force
  then have d: "dec_ok H d" "length d \<le> 8" "\<forall>data. out = Some data \<longrightarrow> (\<exists>fid. whole H fid data)"
    using accept_ok [OF 3(3,4) acc] by simp_all
  show ?case
  proof (cases out)
    case None
    have rd: "Read cap (c\<lparr>decoder := d\<rparr>) ins = (c', rest, r)" using 3(2) acc None by (simp add: Let_def)
    have d': "dec_ok H (decoder (c\<lparr>decoder := d\<rparr>))" "length (decoder (c\<lparr>decoder := d\<rparr>)) \<le> 8" using d by simp_all
    have "\<forall>x. Some x \<in> set ins \<longrightarrow> set_option (parse_fragment (take (udpFrameLimit + 1) (fst x))) \<subseteq> H"
      using 3(5) by (meson list.set_intros(2))
    from 3(1) [OF acc [symmetric] refl refl None rd d' this] have "set rest \<subseteq> set ins \<and>
        (\<forall>p. r = Some (Inr p) \<longrightarrow> dec_ok H (decoder c') \<and> length (decoder c') \<le> 8 \<and> (\<exists>fid. whole H fid p))" .
    then show ?thesis by (simp add: subset_insertI2)
  next
    case (Some packet)
    then show ?thesis using 3(2) acc d by (auto simp: Let_def split: if_splits)
  qed
qed auto

lemma pump_whole:
  "p \<in> set (pump_framed c ins) \<Longrightarrow> dec_ok H (decoder c) \<Longrightarrow> length (decoder c) \<le> 8 \<Longrightarrow>
   \<forall>x. Some x \<in> set ins \<longrightarrow> set_option (parse_fragment (take (udpFrameLimit + 1) (fst x))) \<subseteq> H \<Longrightarrow>
   \<exists>fid. whole H fid p"
proof (induction c ins rule: pump_framed.induct)
  case (1 c ins)
  obtain c1 rest r where rd: "Read (MaxUDPDatagram + 1) c ins = (c1, rest, r)" by (metis prod_cases3)
  then obtain packet where packet: "r = Some (Inr packet)" and p: "p = packet \<or> p \<in> set (pump_framed c1 rest)"
    using 1(2) by (subst (asm) pump_framed.simps) (auto split: option.splits sum.splits if_splits)
  note w = Read_whole [OF rd 1(3-5)]
  show ?case
  proof (cases "p = packet")
    case False
    have c1: "dec_ok H (decoder c1)" "length (decoder c1) \<le> 8" and rest: "set rest \<subseteq> set ins" using w packet by simp_all
    show ?thesis
    proof (rule 1(1) [OF rd [symmetric] refl packet refl _ c1])
      show "p \<in> set (pump_framed c1 rest)" using p False by simp
      show "\<forall>x. Some x \<in> set rest \<longrightarrow> set_option (parse_fragment (take (udpFrameLimit + 1) (fst x))) \<subseteq> H" using 1(5) rest by blast
    qed
  qed (use w packet in blast)
qed

section \<open>Properties\<close>

text \<open>
  C23. A relay passes on what it reads, in order, and leaves nothing behind: in every reachable state the
  datagrams written to each side are those of at most 65507 bytes read from the other side, in order,
  without the last one if its write is outstanding or has failed. When \<open>proxyUDPDatagrams\<close> returns, both
  connections are closed and both pumps have ended.
\<close>

theorem relay_in_order:
  assumes "runs proxy_step proxy_start es s"
  shows "(\<forall>l. l = to_a s \<or> l = to_b s \<longrightarrow>
      (\<exists>last. length last \<le> 1 \<and> ln_written l @ last = filter (\<lambda>p. length p \<le> MaxUDPDatagram) (ln_read l))) \<and>
    (main_at s = Returned \<longrightarrow> closed_a s \<and> closed_b s \<and> ln_pump (to_a s) = Finished \<and> ln_pump (to_b s) = Finished)"
proof -
  have ok: "proxy_ok s" using proxy_machine.run_start_inv [OF assms] by simp
  have sm: "small = (\<lambda>p. length p \<le> MaxUDPDatagram)" by (simp add: fun_eq_iff small_def)
  have lane: "\<exists>last. length last \<le> 1 \<and> ln_written l @ last = filter (\<lambda>p. length p \<le> MaxUDPDatagram) (ln_read l)"
    if "lane_ok l" for l
  proof (cases "ln_pump l")
    case Reading
    with that show ?thesis by (intro exI [of _ "[]"]) (simp add: lane_ok_def sm)
  next
    case (Writing p)
    with that show ?thesis by (intro exI [of _ "[p]"]) (simp add: lane_ok_def sm)
  qed (use that in \<open>simp add: lane_ok_def sm\<close>)
  have "ended_pumps s = 2 \<Longrightarrow> ln_pump (to_a s) = Finished \<and> ln_pump (to_b s) = Finished"
    by (auto simp: ended_pumps_def split: if_splits)
  with ok lane show ?thesis by (auto simp: proxy_ok_def phase_ok_def)
qed

definition short_relay :: "proxy_event list" where
  "short_relay = [IntoA (ReadEnds (Some [7])), IntoA (WriteEnds (Some 1)), IntoB (ReadEnds None), Main, Main, Main,
     IntoA (ReadEnds None), Main]"

definition relay_done :: proxy where
  "relay_done = \<lparr>to_a = \<lparr>ln_pump = Finished, ln_read = [[7]], ln_written = [[7]]\<rparr>,
     to_b = \<lparr>ln_pump = Finished, ln_read = [], ln_written = []\<rparr>, main_at = Returned, closed_a = True, closed_b = True\<rparr>"

lemma short_relay_runs: "runs proxy_step proxy_start short_relay relay_done"
  by (simp add: short_relay_def relay_done_def relay_steps proxy_start_def new_lane_def pump_read_def pump_write_def
      main_turn_def ended_pumps_def)

theorem relay_in_order_witness:
  "closed_a relay_done \<and> closed_b relay_done \<and> ln_written (to_a relay_done) = [[7]]"
  using relay_in_order [OF short_relay_runs] by (simp add: relay_done_def)

text \<open>
  C22. A relay cannot hang or leak a goroutine once one side has ended: the waiting thread is never blocked
  before it has closed both connections, and from then on every run is at most three steps long and only
  a relay that has returned cannot go on.
\<close>

theorem relay_returns:
  assumes "runs proxy_step proxy_start es s" "1 \<le> ended_pumps s"
  shows "(closed_a s \<and> closed_b s \<or> main_turn s \<noteq> None) \<and>
    (closed_a s \<and> closed_b s \<longrightarrow> (\<forall>fs t. runs proxy_step s fs t \<longrightarrow> length fs \<le> 3 \<and>
      (main_at t = Returned \<or> (\<exists>e u. proxy_step t e u))) \<and> (\<exists>fs t. runs proxy_step s fs t \<and> main_at t = Returned))"
proof -
  have ok: "proxy_ok s" using proxy_machine.run_start_inv [OF assms(1)] by simp
  have "closed_a s \<and> closed_b s \<or> main_turn s \<noteq> None"
    using ok assms(2) by (cases "main_at s") (auto simp: proxy_ok_def phase_ok_def main_turn_def)
  moreover have "left_over s \<le> 3" using ended_le_2 [of s] by (auto simp: left_over_def)
  moreover have "both_closed s" if "closed_a s" "closed_b s" using ok that by (simp add: both_closed_def)
  ultimately show ?thesis
    using closing_proxy.run_short closing_proxy.run_not_stuck closing_proxy.run_to_final by (meson add_leD1 order_trans)
qed

theorem relay_returns_witness:
  "\<exists>fs t. runs proxy_step relay_done fs t \<and> main_at t = Returned"
  using relay_returns [OF short_relay_runs] by (simp add: relay_done_def ended_pumps_def)

text \<open>
  C21. A published UDP service receives nothing but what a local application sent. Let the worker of a flow
  write the packets of its queue to a framed tunnel connection, until one write fails or the queue is
  empty, and let the tunnel lose, repeat, reorder and delay the frames as it likes, with reads that fail in
  between. Then every datagram that the pump at the service end passes on is one of these packets, whole
  and unaltered: pieces of different packets are never put together. Identifiers have 64 bits, so this
  holds for as many packets as there are identifiers.
\<close>

theorem pump_passes_only_written:
  assumes worker: "flow_worker wr c ps = (c', fss, alive)" and few: "length ps \<le> 2 ^ 64"
    and tunnel: "\<forall>b t. Some (b, t) \<in> set ins \<longrightarrow> b \<in> set (concat fss)"
  shows "set (pump_framed (FramedUDP seed) ins) \<subseteq> set ps"
proof
  fix p
  assume p: "p \<in> set (pump_framed (FramedUDP seed) ins)"
  define H where "H = {packet_fragment (unat (nextid c + 1 + of_nat k)) (ps ! k) i | k i. k < length ps \<and> i < frag_count (length (ps ! k))}"
  have H: "set_option (parse_fragment (take (udpFrameLimit + 1) b)) \<subseteq> H" if "Some (b, t) \<in> set ins" for b t
  proof -
    have "b \<in> set (concat fss)" using tunnel that by blast
    from worker_frames [OF worker this] obtain k i where k: "k < length ps" "length (ps ! k) \<le> 65507"
      "i < frag_count (length (ps ! k))" "b = frame_of (packet_fragment (unat (nextid c + 1 + of_nat k)) (ps ! k) i)"
      by blast
    then have "length b \<le> udpFrameLimit" by (simp add: frame_of_def udp_frame_parts)
    then have "parse_fragment (take (udpFrameLimit + 1) b) = Some (packet_fragment (unat (nextid c + 1 + of_nat k)) (ps ! k) i)"
      using fragment_codec.dec_enc [OF packet_fragment_ok [OF unat_64_less k(2,3)]] k(4) by simp
    with k(1,3) show ?thesis by (auto simp: H_def)
  qed
  have "dec_ok H (decoder (FramedUDP seed))" "length (decoder (FramedUDP seed)) \<le> 8" by (simp_all add: FramedUDP_def dec_ok_def)
  from pump_whole [OF p this] H obtain fid where w: "whole H fid p" by fastforce
  then obtain k where k: "k < length ps" "fid = unat (nextid c + 1 + of_nat k)"
    using frag_count_pos(1) unfolding whole_def H_def packet_fragment_def by fastforce
  have "f \<in> packet_fragment fid (ps ! k) ` UNIV" if f: "f \<in> H" "f_id f = fid" for f
  proof -
    obtain l i where l: "f = packet_fragment (unat (nextid c + 1 + of_nat l)) (ps ! l) i" "l < length ps" using f(1) by (auto simp: H_def)
    have "l = k" using worker_ids [of "nextid c + 1" l k] l f(2) k few by simp
    with l(1) k(2) show ?thesis by blast
  qed
  then have "whole (packet_fragment fid (ps ! k) ` UNIV) fid p" using w unfolding whole_def by (metis fragment.select_convs(1))
  then have "p = ps ! k" by (rule whole_unique)
  with k(1) show "p \<in> set ps" by simp
qed

text \<open>
  A tunnel that repeats the frame of one packet, loses that of the next and delivers the two frames of the
  third in reverse order.
\<close>

theorem pump_passes_only_written_witness:
  "\<exists>a z x y. fst (snd (flow_worker (\<lambda>_ b. Some (length b)) (FramedUDP (zeros 8)) [[1], [2], zeros 1100])) = [[a], [z], [x, y]] \<and>
     pump_framed (FramedUDP (zeros 8)) [Some (a, 9), Some (a, 9), Some (y, 9), Some (x, 9)] = [[1], [1], zeros 1100] \<and>
     set (pump_framed (FramedUDP (zeros 8)) [Some (a, 9), None, Some (x, 9)]) \<subseteq> {[1], [2], zeros 1100}"
proof -
  let ?wr = "\<lambda>_ b. Some (length b)" and ?c = "FramedUDP (zeros 8)"
  obtain c1 a where a: "Write ?wr ?c [1] = (c1, [a], Inr 1)" by (simp add: Write_def frag_count_eq)
  obtain c2 z where z: "Write ?wr c1 [2] = (c2, [z], Inr 1)" by (simp add: Write_def frag_count_eq)
  obtain c3 x y where x: "Write ?wr c2 (zeros 1100) = (c3, [x, y], Inr 1100)" by (simp add: Write_def frag_count_eq upt_rec)
  have w: "flow_worker ?wr ?c [[1], [2], zeros 1100] = (c3, [[a], [z], [x, y]], True)" by (simp add: a z x)
  have one: "accept_all [] [(a, 9)] = ([], [[1]])" "accept_all [] [(y, 9), (x, 9)] = ([], [zeros 1100])"
    using accept_one [OF a, of "[(a, 9)]" 9] accept_one [OF x, of "[(y, 9), (x, 9)]" 9]
    by (simp_all add: udpAssemblyLifetime_def second_def)
  have "accept_all [] ([(a, 9)] @ [(y, 9), (x, 9)]) = ([], [[1], zeros 1100])"
    by (subst accept_all_append) (simp only: one Let_def prod.case append_Cons append_Nil)
  then have "accept_all [] ([(a, 9)] @ [(a, 9), (y, 9), (x, 9)]) = ([], [[1], [1], zeros 1100])"
    by (subst accept_all_append) (simp only: one Let_def prod.case append_Cons append_Nil)
  then have acc: "accept_all (decoder ?c) [(a, 9), (a, 9), (y, 9), (x, 9)] = ([], [[1], [1], zeros 1100])"
    by (simp add: FramedUDP_def)
  have "\<forall>b \<in> {a, x, y}. length b \<le> udpFrameLimit"
    using Write_frames(4) [OF a] Write_frames(4) [OF x]
    by (auto simp: frame_of_def udp_frame_parts frag_count_eq upt_rec)
  then have "pump_framed ?c (map Some [(a, 9), (a, 9), (y, 9), (x, 9)]) = [[1], [1], zeros 1100]"
    using pump_framed_accepts [of "[(a, 9), (a, 9), (y, 9), (x, 9)]" ?c] acc by simp
  moreover have "set (pump_framed ?c [Some (a, 9), None, Some (x, 9)]) \<subseteq> set [[1], [2], zeros 1100]"
    by (rule pump_passes_only_written [OF w]) auto
  ultimately show ?thesis using w by (intro exI [of _ a] exI [of _ z] exI [of _ x] exI [of _ y]) simp
qed

text \<open>
  Where nothing is lost or repeated and the frames of a packet arrive, in any order, within two seconds
  and before those of the next one, the service receives exactly the packets, in order.
\<close>

lemma worker_to_pump:
  assumes "flow_worker wr c ps = (c', fss, True)" "list_all2 arrives fss ais"
  shows "pump_framed (FramedUDP seed) (map Some (concat ais)) = ps"
proof -
  note acc = worker_accepted [OF assms]
  have "pump_framed (FramedUDP seed) (map Some (concat ais)) = snd (accept_all (decoder (FramedUDP seed)) (concat ais))"
    using acc by (intro pump_framed_accepts) (fastforce simp: FramedUDP_def)+
  with acc show ?thesis by (simp add: FramedUDP_def)
qed

end
