(* ===== verification/Providers.thy ===== *)
theory Providers
  imports Handshake File_System Socks
begin

text \<open>
  The key providers behind \<open>src/internal/crypto/provider\<close>: software keys (\<open>software/software.go\<close>), the pipe
  protocol of the Secure Enclave helper (\<open>se/se.go\<close>) and the identity that reloads a failed helper
  (\<open>se/identity.go\<close>).

  ML-DSA and ML-KEM are parameters. A helper process is the function from the requests it has received
  to what it then writes; no value means that the write to it failed. \<open>ctx\<close> says whether the context is
  done at each of the checks an operation makes, in order. Every operation on an enclave identity
  returns the helpers it started and stopped.
\<close>

section \<open>Software keys\<close>

record mldsa =
  new_private :: "bytes \<Rightarrow> bytes option"
  public_of :: "bytes \<Rightarrow> bytes"
  sign_with :: "bytes \<Rightarrow> string \<Rightarrow> bytes \<Rightarrow> bytes option"

datatype provider_error =
    CtxErr | Destroyed | KeyError | HelperClosed | RequestTooLarge | PipeBroken | HelperUnavailable | BadResponseSize
  | HelperReported bytes | LabelTooLong | HelperOpen | KeyChanged | IdentityClosed

record software =
  sw_key :: "bytes option"

definition sw_Generate :: "bytes option \<Rightarrow> software \<times> bool" where
  "sw_Generate drawn = (\<lparr>sw_key = drawn\<rparr>, drawn \<noteq> None)"

definition sw_Load :: "mldsa \<Rightarrow> bytes \<Rightarrow> provider_error + software" where
  "sw_Load M raw = (case new_private M raw of None \<Rightarrow> Inl KeyError | Some k \<Rightarrow> Inr \<lparr>sw_key = Some k\<rparr>)"

definition sw_Destroy :: "software \<Rightarrow> software" where
  "sw_Destroy i = i\<lparr>sw_key := None\<rparr>"

definition sw_PublicKey :: "mldsa \<Rightarrow> bool \<Rightarrow> software \<Rightarrow> provider_error + bytes" where
  "sw_PublicKey M ctx i =
     (if ctx then Inl CtxErr
      else case sw_key i of None \<Rightarrow> Inl Destroyed | Some k \<Rightarrow> Inr (public_of M k))"

definition sw_Sign :: "mldsa \<Rightarrow> bool \<Rightarrow> string \<Rightarrow> bytes \<Rightarrow> software \<Rightarrow> provider_error + bytes" where
  "sw_Sign M ctx label msg i =
     (if ctx then Inl CtxErr
      else case sw_key i of None \<Rightarrow> Inl Destroyed
      | Some k \<Rightarrow> (case sign_with M k label msg of None \<Rightarrow> Inl KeyError | Some s \<Rightarrow> Inr s))"

text \<open>Key encapsulation: the decapsulation function of the key, while there is one, and its public part.\<close>

record sw_kem =
  sk_key :: "(bytes \<Rightarrow> bytes option) option"
  sk_public :: bytes

definition sw_NewKEM :: "bool \<Rightarrow> ((bytes \<Rightarrow> bytes option) \<times> bytes) option \<Rightarrow> provider_error + sw_kem" where
  "sw_NewKEM ctx drawn =
     (if ctx then Inl CtxErr
      else case drawn of None \<Rightarrow> Inl KeyError | Some (k, pub) \<Rightarrow> Inr \<lparr>sk_key = Some k, sk_public = pub\<rparr>)"

definition sw_kem_PublicKey :: "bool \<Rightarrow> sw_kem \<Rightarrow> provider_error + bytes" where
  "sw_kem_PublicKey ctx k =
     (case sk_key k of None \<Rightarrow> Inl Destroyed | Some d \<Rightarrow> if ctx then Inl CtxErr else Inr (sk_public k))"

definition sw_Decapsulate :: "bool \<Rightarrow> bytes \<Rightarrow> sw_kem \<Rightarrow> provider_error + bytes" where
  "sw_Decapsulate ctx ct k =
     (if ctx then Inl CtxErr
      else case sk_key k of None \<Rightarrow> Inl Destroyed
      | Some d \<Rightarrow> (case d ct of None \<Rightarrow> Inl KeyError | Some ss \<Rightarrow> Inr ss))"

definition sw_kem_Destroy :: "sw_kem \<Rightarrow> sw_kem" where
  "sw_kem_Destroy k = k\<lparr>sk_key := None\<rparr>"

section \<open>The helper executable\<close>

text \<open>The environment is not consulted for root; what is found must be absolute.\<close>

definition helperPath :: "nat \<Rightarrow> (string \<Rightarrow> string) \<Rightarrow> string option \<Rightarrow> string option" where
  "helperPath euid getenv sibling =
     (let named = (if euid = 0 then []
            else if getenv ''QCAT_ENCLAVE_HELPER'' = [] then getenv ''QCAT_SE_HELPER'' else getenv ''QCAT_ENCLAVE_HELPER'');
          found = (if named = [] then sibling else Some named) in
      case found of None \<Rightarrow> None
      | Some p \<Rightarrow> if p \<noteq> [] \<and> hd p = CHR ''/'' then Some p else None)"

datatype helper_trust = TrustError fserror | NotExecutable | Trusted

definition trustedHelper :: "fs \<Rightarrow> path \<Rightarrow> helper_trust" where
  "trustedHelper f p =
     (case Path f p False of Some e \<Rightarrow> TrustError e
      | None \<Rightarrow>
        (case Stat (fs_nodes f) p of None \<Rightarrow> TrustError (stat_error (fs_nodes f) p)
         | Some n \<Rightarrow>
           if n_perm n AND 73 = 0 then NotExecutable
           else (case Ancestors f p of Some e \<Rightarrow> TrustError e | None \<Rightarrow> Trusted)))"

section \<open>Calls\<close>

record helper =
  h_closed :: bool
  h_sent :: "bytes list"
  h_out :: bytes
  h_proc :: "bytes list \<Rightarrow> bytes option"

definition h_start :: "(bytes list \<Rightarrow> bytes option) \<Rightarrow> helper" where
  "h_start proc = \<lparr>h_closed = False, h_sent = [], h_out = [], h_proc = proc\<rparr>"

text \<open>Starting the process: the two pipes and the process itself can fail.\<close>

record launch =
  la_stdin :: bool
  la_stdout :: bool
  la_start :: bool
  la_proc :: "bytes list \<Rightarrow> bytes option"

definition se_start :: "launch \<Rightarrow> provider_error + helper" where
  "se_start l =
     (if \<not> la_stdin l then Inl HelperOpen
      else if \<not> la_stdout l then Inl HelperOpen
      else if \<not> la_start l then Inl HelperOpen
      else Inr (h_start (la_proc l)))"

text \<open>\<open>locate\<close> splits a path into its components.\<close>

definition se_Open ::
  "fs \<Rightarrow> (string \<Rightarrow> string) \<Rightarrow> string option \<Rightarrow> (string \<Rightarrow> path) \<Rightarrow> (string \<Rightarrow> launch) \<Rightarrow> provider_error + helper" where
  "se_Open f getenv sibling locate run =
     (case helperPath (fs_euid f) getenv sibling of None \<Rightarrow> Inl HelperOpen
      | Some p \<Rightarrow> if trustedHelper f (locate p) = Trusted then se_start (run p) else Inl HelperOpen)"

definition request :: "byte \<Rightarrow> bytes \<Rightarrow> bytes" where
  "request op payload = be_put 4 (length payload + 1) @ op # payload"

definition read_reply :: "bytes \<Rightarrow> (provider_error + bytes) \<times> bytes" where
  "read_reply avail =
     (case ReadFull 4 avail of None \<Rightarrow> (Inl HelperUnavailable, [])
      | Some (hdr, rest) \<Rightarrow>
        (let n = be_get hdr in
         if n < 1 \<or> n > 32768 then (Inl BadResponseSize, rest)
         else case ReadFull n rest of None \<Rightarrow> (Inl HelperUnavailable, [])
         | Some (reply, rest) \<Rightarrow>
           if reply ! 0 \<noteq> 0 then (Inl (HelperReported (tl reply)), rest) else (Inr (tl reply), rest)))"

definition h_call :: "bool \<Rightarrow> byte \<Rightarrow> bytes \<Rightarrow> helper \<Rightarrow> (provider_error + bytes) \<times> helper" where
  "h_call ctx op payload h =
     (if h_closed h then (Inl HelperClosed, h)
      else if ctx then (Inl CtxErr, h)
      else if length payload > 32767 then (Inl RequestTooLarge, h)
      else
        (let sent = h_sent h @ [request op payload] in
         case h_proc h sent of None \<Rightarrow> (Inl PipeBroken, h\<lparr>h_sent := sent\<rparr>)
         | Some b \<Rightarrow> (let (r, out) = read_reply (h_out h @ b) in (r, h\<lparr>h_sent := sent, h_out := out\<rparr>))))"

definition h_Close :: "helper \<Rightarrow> helper" where
  "h_Close h = h\<lparr>h_closed := True\<rparr>"

definition h_GenerateIdentity :: "bool \<Rightarrow> helper \<Rightarrow> (provider_error + bytes) \<times> helper" where
  "h_GenerateIdentity ctx = h_call ctx 1 []"

definition h_LoadIdentity :: "bool \<Rightarrow> bytes \<Rightarrow> helper \<Rightarrow> provider_error option \<times> helper" where
  "h_LoadIdentity ctx ref h =
     (case h_call ctx 2 ref h of (Inl e, g) \<Rightarrow> (Some e, g) | (Inr _, g) \<Rightarrow> (None, g))"

definition h_PublicKey :: "bool \<Rightarrow> helper \<Rightarrow> (provider_error + bytes) \<times> helper" where
  "h_PublicKey ctx = h_call ctx 3 []"

definition sign_payload :: "string \<Rightarrow> bytes \<Rightarrow> bytes" where
  "sign_payload label msg = of_nat (length label) # bytes_of label @ msg"

definition h_Sign :: "bool \<Rightarrow> string \<Rightarrow> bytes \<Rightarrow> helper \<Rightarrow> (provider_error + bytes) \<times> helper" where
  "h_Sign ctx label msg h =
     (if length label > 255 then (Inl LabelTooLong, h) else h_call ctx 4 (sign_payload label msg) h)"

definition h_Capabilities :: "bool \<Rightarrow> helper \<Rightarrow> (provider_error + bytes) \<times> helper" where
  "h_Capabilities ctx = h_call ctx 9 []"

text \<open>An ephemeral key is a helper of its own.\<close>

definition se_NewKEM :: "bool \<Rightarrow> helper option \<Rightarrow> (provider_error + helper) \<times> helper option" where
  "se_NewKEM ctx opened =
     (case opened of None \<Rightarrow> (Inl HelperOpen, None)
      | Some h \<Rightarrow>
        (case h_call ctx 5 [] h of (Inl e, g) \<Rightarrow> (Inl e, Some (h_Close g)) | (Inr _, g) \<Rightarrow> (Inr g, Some g)))"

definition se_kem_PublicKey :: "bool \<Rightarrow> helper \<Rightarrow> (provider_error + bytes) \<times> helper" where
  "se_kem_PublicKey ctx = h_call ctx 6 []"

definition se_Decapsulate :: "bool \<Rightarrow> bytes \<Rightarrow> helper \<Rightarrow> (provider_error + bytes) \<times> helper" where
  "se_Decapsulate ctx ct = h_call ctx 7 ct"

section \<open>The enclave identity\<close>

record enclave =
  en_helper :: "helper option"
  en_ref :: bytes
  en_public :: bytes
  en_closed :: bool

datatype hevent = Started | Ended

text \<open>\<open>load\<close> starts a helper, if one can be started, and keeps it only if it yields the pinned key.\<close>

definition en_load ::
  "(nat \<Rightarrow> bool) \<Rightarrow> helper option \<Rightarrow> enclave \<Rightarrow> provider_error option \<times> enclave \<times> hevent list" where
  "en_load ctx opened i =
     (if ctx 0 then (Some CtxErr, i, [])
      else case opened of None \<Rightarrow> (Some HelperOpen, i, [])
      | Some h \<Rightarrow>
        (case h_LoadIdentity (ctx 1) (en_ref i) h of
           (Some e, _) \<Rightarrow> (Some e, i, [Started, Ended])
         | (None, h1) \<Rightarrow>
           (case h_PublicKey (ctx 2) h1 of
              (Inl e, _) \<Rightarrow> (Some e, i, [Started, Ended])
            | (Inr pub, h2) \<Rightarrow>
              if en_public i \<noteq> [] \<and> en_public i \<noteq> pub then (Some KeyChanged, i, [Started, Ended])
              else (None, i\<lparr>en_public := pub, en_helper := Some h2\<rparr>, [Started]))))"

definition en_Close :: "enclave \<Rightarrow> enclave \<times> hevent list" where
  "en_Close i =
     (i\<lparr>en_closed := True, en_helper := None, en_ref := []\<rparr>, case en_helper i of None \<Rightarrow> [] | Some _ \<Rightarrow> [Ended])"

definition openIdentity :: "(nat \<Rightarrow> bool) \<Rightarrow> helper option \<Rightarrow> bytes \<Rightarrow> (provider_error + enclave) \<times> hevent list" where
  "openIdentity ctx opened ref =
     (case en_load ctx opened \<lparr>en_helper = None, en_ref = ref, en_public = [], en_closed = False\<rparr> of
        (Some e, i, evs) \<Rightarrow> (Inl e, evs @ snd (en_Close i))
      | (None, i, evs) \<Rightarrow> (Inr i, evs))"

definition en_PublicKey :: "bool \<Rightarrow> enclave \<Rightarrow> provider_error + bytes" where
  "en_PublicKey ctx i =
     (if en_closed i then Inl IdentityClosed else if ctx then Inl CtxErr else Inr (en_public i))"

text \<open>A helper found dead is dropped before use; one whose call failed is never used again.\<close>

definition drop_dead :: "bool \<Rightarrow> enclave \<Rightarrow> enclave \<times> hevent list" where
  "drop_dead exited i =
     (if en_helper i \<noteq> None \<and> exited then (i\<lparr>en_helper := None\<rparr>, [Ended]) else (i, []))"

definition ensure_helper ::
  "(nat \<Rightarrow> bool) \<Rightarrow> helper option \<Rightarrow> enclave \<Rightarrow> provider_error option \<times> enclave \<times> hevent list" where
  "ensure_helper ctx opened i = (if en_helper i = None then en_load ctx opened i else (None, i, []))"

definition sign_now :: "bool \<Rightarrow> string \<Rightarrow> bytes \<Rightarrow> enclave \<Rightarrow> (provider_error + bytes) \<times> enclave \<times> hevent list" where
  "sign_now ctx label msg i =
     (case en_helper i of None \<Rightarrow> (Inl HelperOpen, i, [])
      | Some h \<Rightarrow>
        (case h_Sign ctx label msg h of
           (Inl e, _) \<Rightarrow> (Inl e, i\<lparr>en_helper := None\<rparr>, [Ended])
         | (Inr s, g) \<Rightarrow> (Inr s, i\<lparr>en_helper := Some g\<rparr>, [])))"

definition en_Sign ::
  "(nat \<Rightarrow> bool) \<Rightarrow> bool \<Rightarrow> helper option \<Rightarrow> string \<Rightarrow> bytes \<Rightarrow> enclave \<Rightarrow> (provider_error + bytes) \<times> enclave \<times> hevent list" where
  "en_Sign ctx exited opened label msg i =
     (if en_closed i then (Inl IdentityClosed, i, [])
      else if ctx 0 then (Inl CtxErr, i, [])
      else
        (case drop_dead exited i of (i1, log1) \<Rightarrow>
           (case ensure_helper (\<lambda>n. ctx (Suc n)) opened i1 of
              (Some e, i2, log2) \<Rightarrow> (Inl e, i2, log1 @ log2)
            | (None, i2, log2) \<Rightarrow>
              (case sign_now (ctx 4) label msg i2 of (r, i3, log3) \<Rightarrow> (r, i3, log1 @ log2 @ log3)))))"

section \<open>The interface of an identity\<close>

text \<open>
  What the protocol relies on: signing does not change the public key, and after closing neither the
  key nor a signature is available any more.
\<close>

text \<open>
  What is started is an absolute path to a plain executable that nobody but its trusted owner can change,
  in directories of which the same holds; for root the environment has no say in which.
\<close>

lemma se_Open_trusted:
  assumes "se_Open f getenv sibling locate run = Inr h"
  obtains p n where "helperPath (fs_euid f) getenv sibling = Some p" "hd p = CHR ''/''" "Lstat (fs_nodes f) (locate p) = Some n"
    "n_kind n = Regular" "Owner (fs_euid f) n" "\<not> loose n" "Ancestors f (locate p) = None" "h = h_start (la_proc (run p))"
proof -
  obtain p where p: "helperPath (fs_euid f) getenv sibling = Some p" "trustedHelper f (locate p) = Trusted" "se_start (run p) = Inr h"
    using assms by (auto simp: se_Open_def split: option.splits if_splits)
  have "Path f (locate p) False = None" "Ancestors f (locate p) = None"
    using p(2) by (auto simp: trustedHelper_def split: option.splits if_splits)
  moreover have "hd p = CHR ''/''" using p(1) by (auto simp: helperPath_def Let_def split: option.splits if_splits)
  moreover have "h = h_start (la_proc (run p))" using p(3) by (simp add: se_start_def split: if_splits)
  ultimately show thesis using p(1) that by (auto simp: Path_None)
qed

lemma se_Open_root: "fs_euid f = 0 \<Longrightarrow> se_Open f getenv sibling locate run = se_Open f getenv' sibling locate run"
  by (simp add: se_Open_def helperPath_def)

locale identity_provider =
  fixes public :: "'s \<Rightarrow> bytes option"
    and sign :: "'i \<Rightarrow> string \<Rightarrow> bytes \<Rightarrow> 's \<Rightarrow> bytes option \<times> 's"
    and close :: "'s \<Rightarrow> 's"
    and invar :: "'s \<Rightarrow> bool"
  assumes sign_invar: "invar s \<Longrightarrow> invar (snd (sign i l m s))"
    and close_invar: "invar s \<Longrightarrow> invar (close s)"
    and sign_public: "invar s \<Longrightarrow> public (snd (sign i l m s)) = public s"
    and closed_public: "public (close s) = None"
    and closed_sign: "invar s \<Longrightarrow> public s = None \<Longrightarrow> fst (sign i l m s) = None"
begin

definition signings :: "('i \<times> string \<times> bytes) list \<Rightarrow> 's \<Rightarrow> 's" where
  "signings ops s = fold (\<lambda>(i, l, m) s. snd (sign i l m s)) ops s"

lemma signings_keep: "invar s \<Longrightarrow> invar (signings ops s) \<and> public (signings ops s) = public s"
  unfolding signings_def by (induction ops arbitrary: s) (auto simp: sign_invar sign_public)

lemma closed_forever: "invar s \<Longrightarrow> fst (sign i l m (signings ops (close s))) = None"
  using signings_keep [OF close_invar] closed_public closed_sign by metis

end

definition sum_option :: "'e + 'a \<Rightarrow> 'a option" where
  "sum_option r = (case r of Inl _ \<Rightarrow> None | Inr x \<Rightarrow> Some x)"

interpretation software_identity: identity_provider
  "\<lambda>i. map_option (public_of M) (sw_key i)" "\<lambda>ctx l m i. (sum_option (sw_Sign M ctx l m i), i)" sw_Destroy "\<lambda>_. True" for M
  by unfold_locales (auto simp: sw_Destroy_def sw_Sign_def sum_option_def)

section \<open>Lemmas\<close>

text \<open>
  A helper in service: it was given the reference, reported the key, and every call since has succeeded,
  so its pipe is in step.
\<close>

inductive served :: "bytes \<Rightarrow> bytes \<Rightarrow> helper \<Rightarrow> bool" for ref pub where
  served_load: "h_call c1 2 ref h0 = (Inr x, h1) \<Longrightarrow> h_call c2 3 [] h1 = (Inr pub, h2) \<Longrightarrow> served ref pub h2"
| served_sign: "served ref pub h \<Longrightarrow> h_Sign c label msg h = (Inr sig, g) \<Longrightarrow> served ref pub g"

definition en_ok :: "enclave \<Rightarrow> bool" where
  "en_ok i \<longleftrightarrow> (\<forall>h. en_helper i = Some h \<longrightarrow> served (en_ref i) (en_public i) h) \<and>
     (en_closed i \<longrightarrow> en_helper i = None \<and> en_ref i = [])"

definition running :: "enclave \<Rightarrow> nat" where
  "running i = (case en_helper i of None \<Rightarrow> 0 | Some _ \<Rightarrow> 1)"

definition started :: "hevent list \<Rightarrow> nat" where "started evs = count_list evs Started"
definition ended :: "hevent list \<Rightarrow> nat" where "ended evs = count_list evs Ended"

lemma count_events [simp]:
  "started [] = 0" "started (Started # l) = Suc (started l)" "started (Ended # l) = started l"
  "ended [] = 0" "ended (Ended # l) = Suc (ended l)" "ended (Started # l) = ended l"
  "started (l @ k) = started l + started k" "ended (l @ k) = ended l + ended k"
  by (simp_all add: started_def ended_def)

lemma en_load_cases:
  assumes "en_load ctx opened i = (r, i', evs)"
  obtains (failed) e where "r = Some e" "i' = i" "started evs = ended evs"
  | (loaded) h pub where "r = None" "i' = i\<lparr>en_public := pub, en_helper := Some h\<rparr>" "evs = [Started]"
      "served (en_ref i) pub h" "en_public i = [] \<or> pub = en_public i"
proof (cases "ctx 0 \<or> opened = None")
  case True
  then show thesis using assms failed by (cases "ctx 0") (auto simp: en_load_def)
next
  case False
  then obtain h0 where h0: "opened = Some h0" "\<not> ctx 0" by auto
  obtain r1 h1 where c1: "h_call (ctx 1) 2 (en_ref i) h0 = (r1, h1)" by fastforce
  obtain r2 h2 where c2: "h_call (ctx 2) 3 [] h1 = (r2, h2)" by fastforce
  show thesis
  proof (cases r1)
    case (Inl e)
    then show thesis using assms h0 c1 failed by (auto simp: en_load_def h_LoadIdentity_def)
  next
    case r1: (Inr x)
    show thesis
    proof (cases r2)
      case (Inl e)
      then show thesis using assms h0 c1 c2 r1 failed by (auto simp: en_load_def h_LoadIdentity_def h_PublicKey_def)
    next
      case (Inr pub)
      have "served (en_ref i) pub h2" using served_load c1 c2 r1 Inr by blast
      then show thesis using assms h0 c1 c2 r1 Inr failed loaded
        by (auto simp: en_load_def h_LoadIdentity_def h_PublicKey_def split: if_splits)
    qed
  qed
qed

definition step_ok :: "enclave \<Rightarrow> enclave \<Rightarrow> hevent list \<Rightarrow> bool" where
  "step_ok i i' evs \<longleftrightarrow> en_ok i' \<and> en_public i' = en_public i \<and> en_closed i' = en_closed i \<and> en_ref i' = en_ref i \<and>
     running i' + ended evs = running i + started evs"

lemma step_ok_trans: "step_ok i j l \<Longrightarrow> step_ok j k m \<Longrightarrow> step_ok i k (l @ m)"
  by (auto simp: step_ok_def)

lemma drop_dead_ok: "en_ok i \<Longrightarrow> drop_dead exited i = (j, evs) \<Longrightarrow> step_ok i j evs"
  by (auto simp: drop_dead_def step_ok_def en_ok_def running_def split: if_splits option.splits)

lemma ensure_helper_ok:
  assumes "en_ok i" "en_public i \<noteq> []" "\<not> en_closed i" "ensure_helper ctx opened i = (r, j, evs)"
  shows "step_ok i j evs" "r = None \<Longrightarrow> en_helper j \<noteq> None"
proof -
  have "step_ok i j evs \<and> (r = None \<longrightarrow> en_helper j \<noteq> None)"
  proof (cases "en_helper i = None")
    case True
    then have "en_load ctx opened i = (r, j, evs)" using assms(4) by (simp add: ensure_helper_def)
    then show ?thesis
    proof (cases rule: en_load_cases)
      case loaded
      then show ?thesis using assms(1-3) True by (auto simp: step_ok_def en_ok_def running_def)
    qed (use assms True in \<open>auto simp: step_ok_def\<close>)
  qed (use assms in \<open>auto simp: ensure_helper_def step_ok_def\<close>)
  then show "step_ok i j evs" "r = None \<Longrightarrow> en_helper j \<noteq> None" by auto
qed

lemma sign_now_ok:
  assumes "en_ok i" "\<not> en_closed i" "sign_now ctx label msg i = (r, j, evs)"
  shows "step_ok i j evs \<and> (\<forall>s. r = Inr s \<longrightarrow> (\<exists>h g. served (en_ref i) (en_public i) h \<and> h_Sign ctx label msg h = (Inr s, g) \<and> en_helper j = Some g)) \<and>
    (\<forall>e. r = Inl e \<longrightarrow> en_helper j = None)"
proof (cases "en_helper i")
  case None
  then show ?thesis using assms by (auto simp: sign_now_def step_ok_def)
next
  case (Some h)
  then have h: "served (en_ref i) (en_public i) h" using assms(1) by (simp add: en_ok_def)
  obtain r' g where c: "h_Sign ctx label msg h = (r', g)" by fastforce
  show ?thesis
  proof (cases r')
    case (Inl e)
    then show ?thesis using assms Some c by (auto simp: sign_now_def step_ok_def en_ok_def running_def)
  next
    case (Inr s)
    then have "served (en_ref i) (en_public i) g" using served_sign [OF h] c by blast
    then show ?thesis using assms Some c Inr h by (auto simp: sign_now_def step_ok_def en_ok_def running_def)
  qed
qed

text \<open>What signing guarantees of an identity that is in order.\<close>

lemma en_Sign_ok:
  assumes "en_ok i" "en_public i \<noteq> []" "en_Sign ctx exited opened label msg i = (r, j, evs)"
  shows "step_ok i j evs \<and>
    (\<forall>s. r = Inr s \<longrightarrow> \<not> en_closed i \<and>
       (\<exists>h g. served (en_ref i) (en_public i) h \<and> h_Sign (ctx 4) label msg h = (Inr s, g) \<and> en_helper j = Some g))"
proof (cases "en_closed i \<or> ctx 0")
  case True
  then show ?thesis using assms by (auto simp: en_Sign_def step_ok_def split: if_splits)
next
  case False
  obtain i1 l1 where d: "drop_dead exited i = (i1, l1)" by fastforce
  obtain r2 i2 l2 where e: "ensure_helper (\<lambda>n. ctx (Suc n)) opened i1 = (r2, i2, l2)" by (metis prod_cases3)
  have s1: "step_ok i i1 l1" by (rule drop_dead_ok [OF assms(1) d])
  then have "en_ok i1" "en_public i1 \<noteq> []" "\<not> en_closed i1" using assms(2) False by (auto simp: step_ok_def)
  note s2 = ensure_helper_ok [OF this e]
  have s12: "step_ok i i2 (l1 @ l2)" by (rule step_ok_trans [OF s1 s2(1)])
  show ?thesis
  proof (cases r2)
    case (Some x)
    then show ?thesis using assms(3) False d e s12 by (auto simp: en_Sign_def)
  next
    case None
    obtain r3 i3 l3 where g: "sign_now (ctx 4) label msg i2 = (r3, i3, l3)" by (metis prod_cases3)
    have res: "r = r3" "j = i3" "evs = l1 @ l2 @ l3" using assms(3) False d e None g by (auto simp: en_Sign_def)
    have ok2: "en_ok i2" "\<not> en_closed i2" "en_ref i2 = en_ref i" "en_public i2 = en_public i"
      using s12 False by (auto simp: step_ok_def)
    note s3 = sign_now_ok [OF ok2(1,2) g]
    have "step_ok i j evs" using step_ok_trans [OF s12] s3 res by simp
    with s3 res ok2 False show ?thesis by simp
  qed
qed

lemma en_Close_ok: "en_ok i \<Longrightarrow> en_ok (fst (en_Close i))"
  by (simp add: en_Close_def en_ok_def)

definition en_usable :: "enclave \<Rightarrow> bool" where
  "en_usable i \<longleftrightarrow> en_ok i \<and> en_public i \<noteq> []"

interpretation enclave_identity: identity_provider
  "\<lambda>i. if en_closed i then None else Some (en_public i)"
  "\<lambda>(ctx, exited, opened) l m i. (case en_Sign ctx exited opened l m i of (r, j, evs) \<Rightarrow> (sum_option r, j))"
  "\<lambda>i. fst (en_Close i)" en_usable
proof unfold_locales
  fix s :: enclave and x :: "(nat \<Rightarrow> bool) \<times> bool \<times> helper option" and l m
  assume s: "en_usable s"
  obtain ctx exited opened where x: "x = (ctx, exited, opened)" by (metis prod_cases3)
  obtain r j evs where g: "en_Sign ctx exited opened l m s = (r, j, evs)" by (metis prod_cases3)
  have "step_ok s j evs" using en_Sign_ok [OF _ _ g] s by (simp add: en_usable_def)
  then have j: "en_usable j" "en_public j = en_public s" "en_closed j = en_closed s"
    using s by (auto simp: step_ok_def en_usable_def)
  let ?sign = "(case x of (ctx, exited, opened) \<Rightarrow> \<lambda>l m i. case en_Sign ctx exited opened l m i of (r, j, evs) \<Rightarrow> (sum_option r, j)) l m s"
  show "en_usable (snd ?sign)" using j x g by simp
  show "(if en_closed (snd ?sign) then None else Some (en_public (snd ?sign))) = (if en_closed s then None else Some (en_public s))"
    using j x g by simp
  show "fst ?sign = None" if "(if en_closed s then None else Some (en_public s)) = None"
    using that x by (auto simp: en_Sign_def sum_option_def split: if_splits)
qed (auto simp: en_usable_def en_Close_def en_ok_def)

text \<open>A use of the identity: the inputs of a call of \<open>Sign\<close> and its result.\<close>

record sign_op =
  so_ctx :: "nat \<Rightarrow> bool"
  so_exited :: bool
  so_opened :: "helper option"
  so_label :: string
  so_msg :: bytes
  so_result :: "provider_error + bytes"

inductive en_step :: "enclave \<times> hevent list \<Rightarrow> sign_op \<Rightarrow> enclave \<times> hevent list \<Rightarrow> bool" where
  en_step: "en_Sign (so_ctx p) (so_exited p) (so_opened p) (so_label p) (so_msg p) i = (so_result p, j, evs) \<Longrightarrow>
    en_step (i, past) p (j, past @ evs)"

inductive_cases en_stepE: "en_step s p t"

definition vouched :: "bytes \<Rightarrow> bytes \<Rightarrow> sign_op \<Rightarrow> bool" where
  "vouched ref pub p \<longleftrightarrow> (\<forall>s. so_result p = Inr s \<longrightarrow>
     (\<exists>h g c. served ref pub h \<and> h_Sign c (so_label p) (so_msg p) h = (Inr s, g)))"

definition en_inv :: "bytes \<Rightarrow> bytes \<Rightarrow> enclave \<times> hevent list \<Rightarrow> bool" where
  "en_inv ref pub = (\<lambda>(i, evs). en_ok i \<and> en_public i = pub \<and> \<not> en_closed i \<and> en_ref i = ref \<and> started evs = ended evs + running i)"

lemma en_step_inv:
  assumes "pub \<noteq> []" "en_inv ref pub s" "en_step s p t"
  shows "en_inv ref pub t \<and> vouched ref pub p"
  using assms(3)
proof (rule en_stepE)
  fix i j evs past
  assume u: "s = (i, past)" "t = (j, past @ evs)"
    "en_Sign (so_ctx p) (so_exited p) (so_opened p) (so_label p) (so_msg p) i = (so_result p, j, evs)"
  have i: "en_ok i" "en_public i = pub" "\<not> en_closed i" "en_ref i = ref" "started past = ended past + running i"
    using assms(2) u by (auto simp: en_inv_def)
  note s = en_Sign_ok [OF i(1) _ u(3)]
  show "en_inv ref pub t \<and> vouched ref pub p"
    using s i assms(1) u(2) by (auto simp: step_ok_def en_inv_def vouched_def) blast
qed

interpretation enclave_machine: invariant_machine
  "\<lambda>s. pub \<noteq> [] \<and> en_inv ref pub s" en_step "\<lambda>s. pub \<noteq> [] \<and> en_inv ref pub s" for ref pub
  by unfold_locales (use en_step_inv in blast)+

lemma en_runs_vouched:
  "runs en_step s ps t \<Longrightarrow> pub \<noteq> [] \<Longrightarrow> en_inv ref pub s \<Longrightarrow> \<forall>p \<in> set ps. vouched ref pub p"
  by (induction rule: runs.induct) (use en_step_inv in fastforce)+

lemma openIdentity_inv:
  assumes "openIdentity ctx opened ref = (Inr i, evs)"
  shows "en_inv ref (en_public i) (i, evs)"
proof -
  obtain r j l where l: "en_load ctx opened \<lparr>en_helper = None, en_ref = ref, en_public = [], en_closed = False\<rparr> = (r, j, l)"
    by (metis prod_cases3)
  then have "r = None" "j = i" "l = evs" using assms by (auto simp: openIdentity_def split: option.splits)
  with l show ?thesis by (cases rule: en_load_cases) (auto simp: en_inv_def en_ok_def running_def)
qed

text \<open>The framing of the pipe: a reply in one frame is read as it was written, and nothing after it.\<close>

lemma read_reply_frame:
  assumes "length p \<le> 32767"
  shows "read_reply (be_put 4 (length p + 1) @ 0 # p @ rest) = (Inr p, rest)"
proof -
  have "be_get (be_put 4 (length p + 1)) = length p + 1" using assms by (simp add: be_get_be_put)
  then show ?thesis using assms by (simp add: read_reply_def ReadFull_def Let_def)
qed

text \<open>The software key refines the KEM the handshake uses.\<close>

definition abs_kem :: "sw_kem \<Rightarrow> kem" where
  "abs_kem k = \<lparr>kem_public = (case sk_key k of None \<Rightarrow> None | Some _ \<Rightarrow> Some (sk_public k)),
     kem_secret = (case sk_key k of None \<Rightarrow> (\<lambda>_. None) | Some d \<Rightarrow> d), kem_destroyed = (sk_key k = None)\<rparr>"

lemma sw_kem_refines:
  "Decapsulate (abs_kem k) ct = sum_option (sw_Decapsulate False ct k)"
  "kem_public (abs_kem k) = sum_option (sw_kem_PublicKey False k)"
  "Decapsulate (Destroy (abs_kem k)) ct = sum_option (sw_Decapsulate False ct (sw_kem_Destroy k))"
  by (simp_all add: abs_kem_def Decapsulate_def Destroy_def sw_Decapsulate_def sw_kem_PublicKey_def sw_kem_Destroy_def
      sum_option_def split: option.splits)

section \<open>Properties\<close>

text \<open>
  C18. The key of an enclave identity is pinned and its helpers are managed. Start from a freshly opened
  identity whose first helper reported a key that is not empty (an empty one is taken for no key at all,
  and the next load sets it), and let it sign any number of times, with helpers dying, failing, lying or being replaced as
  they like: the public key stays the one of the first load; every signature handed out comes from a
  helper that was given the reference, reported exactly that key and has never failed a call; exactly
  one helper process runs while the identity holds one, and none otherwise; after \<open>Close\<close> none runs.
\<close>

theorem enclave_key_pinned:
  assumes "openIdentity ctx opened ref = (Inr i0, evs0)" "en_public i0 \<noteq> []" "runs en_step (i0, evs0) ps (i, evs)"
  shows "en_PublicKey False i = Inr (en_public i0) \<and> (\<forall>p \<in> set ps. vouched ref (en_public i0) p) \<and>
    started evs = ended evs + running i \<and>
    started (evs @ snd (en_Close i)) = ended (evs @ snd (en_Close i)) \<and> running (fst (en_Close i)) = 0"
proof -
  have start: "en_inv ref (en_public i0) (i0, evs0)" by (rule openIdentity_inv [OF assms(1)])
  have "en_inv ref (en_public i0) (i, evs)"
    using enclave_machine.run_inv [OF assms(3)] start assms(2) by blast
  then have "en_PublicKey False i = Inr (en_public i0)" "started evs = ended evs + running i"
    by (auto simp: en_inv_def en_PublicKey_def)
  with en_runs_vouched [OF assms(3,2) start] show ?thesis
    by (auto simp: en_Close_def running_def split: option.splits)
qed

text \<open>A helper that answers every request with success and one byte.\<close>

definition answering :: "byte \<Rightarrow> helper" where
  "answering k = h_start (\<lambda>_. Some [0, 0, 0, 2, 0, k])"

lemma answering_call:
  assumes "\<not> h_closed h" "h_out h = []" "h_proc h = (\<lambda>_. Some [0, 0, 0, 2, 0, k])" "length payload \<le> 32767"
  shows "h_call False op payload h = (Inr [k], h\<lparr>h_sent := h_sent h @ [request op payload]\<rparr>)"
  using assms by (simp add: h_call_def read_reply_def ReadFull_def be_get_def Let_def)

lemmas answering_defs = h_LoadIdentity_def h_PublicKey_def h_Sign_def sign_payload_def answering_call answering_def h_start_def

definition demo_sign :: "bool \<Rightarrow> helper option \<Rightarrow> provider_error + bytes \<Rightarrow> sign_op" where
  "demo_sign exited opened result = \<lparr>so_ctx = (\<lambda>_. False), so_exited = exited, so_opened = opened, so_label = ''l'', so_msg = [1], so_result = result\<rparr>"

text \<open>The helper signs and dies, its successor is a faithful one, dies too, and is followed by one with another key.\<close>

theorem enclave_key_pinned_witness:
  "\<exists>i0 evs0 i evs. openIdentity (\<lambda>_. False) (Some (answering 7)) [1] = (Inr i0, evs0) \<and>
     runs en_step (i0, evs0) [demo_sign False None (Inr [7]), demo_sign True (Some (answering 7)) (Inr [7]),
       demo_sign True (Some (answering 8)) (Inl KeyChanged)] (i, evs) \<and>
     started evs = 3 \<and> running i = 0 \<and> started evs = ended evs + running i \<and> en_PublicKey False i = Inr [7]"
proof -
  define h where "h sent = (answering 7)\<lparr>h_sent := sent\<rparr>" for sent
  define e where "e helper = \<lparr>en_helper = helper, en_ref = [1], en_public = [7], en_closed = False\<rparr>" for helper
  let ?load = "[request 2 [1], request 3 []]" and ?sign = "request 4 (sign_payload ''l'' [1])"
  let ?ops = "[demo_sign False None (Inr [7]), demo_sign True (Some (answering 7)) (Inr [7]), demo_sign True (Some (answering 8)) (Inl KeyChanged)]"
  have op: "openIdentity (\<lambda>_. False) (Some (answering 7)) [1] = (Inr (e (Some (h ?load))), [Started])"
    by (simp add: openIdentity_def en_load_def e_def h_def answering_defs)
  have signed: "en_Sign (\<lambda>_. False) False None ''l'' [1] (e (Some (h ?load))) = (Inr [7], e (Some (h (?load @ [?sign]))), [])"
    "en_Sign (\<lambda>_. False) True (Some (answering 7)) ''l'' [1] (e (Some (h (?load @ [?sign])))) =
      (Inr [7], e (Some (h (?load @ [?sign]))), [Ended, Started])"
    "en_Sign (\<lambda>_. False) True (Some (answering 8)) ''l'' [1] (e (Some (h (?load @ [?sign])))) =
      (Inl KeyChanged, e None, [Ended, Started, Ended])"
    by (simp_all add: en_Sign_def drop_dead_def ensure_helper_def en_load_def sign_now_def e_def h_def answering_defs)
  have step: "en_step (i, past) (demo_sign exited opened r) (j, past @ evs)"
    if "en_Sign (\<lambda>_. False) exited opened ''l'' [1] i = (r, j, evs)" for exited opened r i j evs past
    by (rule en_step) (simp add: demo_sign_def that)
  have run: "runs en_step (e (Some (h ?load)), [Started]) ?ops (e None, (([Started] @ []) @ [Ended, Started]) @ [Ended, Started, Ended])"
    by (rule runs_cons [of en_step, OF step [OF signed(1), of "[Started]"] runs_cons [of en_step,
        OF step [OF signed(2), of "[Started] @ []"] runs_cons [of en_step, OF step [OF signed(3), of "([Started] @ []) @ [Ended, Started]"]
          runs_nil [of en_step]]]])
  have pub: "en_public (e (Some (h ?load))) = [7]" by (simp add: e_def)
  show ?thesis
    using enclave_key_pinned [OF op _ run] op run pub
    by (intro exI [of _ "e (Some (h ?load))"] exI [of _ "[Started]"] exI [of _ "e None"]
        exI [of _ "(([Started] @ []) @ [Ended, Started]) @ [Ended, Started, Ended]"])
      (simp add: started_def ended_def running_def e_def)
qed

end
