(* ===== verification/Build_Version.thy ===== *)
theory Build_Version
  imports Prelude
begin

text \<open>
  Build identification (\<open>src/internal/version/version.go\<close>): \<open>Current\<close>, \<open>Short\<close> and \<open>String\<close>.

  What the linker and the toolchain left in the binary is an input. \<open>stamp\<close> parses a commit time and gives
  its text in UTC, or nothing for a text that is no time or the zero time.
\<close>

section \<open>Builds\<close>

record build =
  bd_version :: string
  bd_revision :: string
  bd_time :: "string option"
  bd_dirty :: bool
  bd_go :: string
  bd_platform :: string

definition devel :: string where "devel = ''devel''"

record build_info =
  bi_settings :: "(string \<times> string) list"
  bi_main :: string

definition apply_setting :: "(string \<Rightarrow> string option) \<Rightarrow> string \<times> string \<Rightarrow> build \<Rightarrow> build" where
  "apply_setting stamp kv b =
     (if fst kv = ''vcs.revision'' then b\<lparr>bd_revision := snd kv\<rparr>
      else if fst kv = ''vcs.time'' then b\<lparr>bd_time := stamp (snd kv)\<rparr>
      else if fst kv = ''vcs.modified'' then b\<lparr>bd_dirty := (snd kv = ''true'')\<rparr>
      else b)"

definition Current :: "(string \<Rightarrow> string option) \<Rightarrow> string \<Rightarrow> string \<Rightarrow> string \<Rightarrow> build_info option \<Rightarrow> build" where
  "Current stamp version go platform info =
     (let b0 = \<lparr>bd_version = version, bd_revision = [], bd_time = None, bd_dirty = False, bd_go = go, bd_platform = platform\<rparr>;
          b = (case info of None \<Rightarrow> b0 | Some i \<Rightarrow> fold (apply_setting stamp) (bi_settings i) b0) in
      if bd_version b \<noteq> [] then b
      else case info of None \<Rightarrow> b\<lparr>bd_version := devel\<rparr>
      | Some i \<Rightarrow>
        if bd_revision b = [] \<and> bi_main i \<noteq> [] \<and> bi_main i \<noteq> ''(devel)'' then b\<lparr>bd_version := bi_main i\<rparr>
        else b\<lparr>bd_version := devel\<rparr>)"

definition Short :: "build \<Rightarrow> string" where
  "Short b =
     bd_version b @
     (if bd_version b = devel \<and> bd_revision b \<noteq> [] then '' '' @ take 12 (bd_revision b) else []) @
     (if bd_dirty b then '' (modified)'' else [])"

definition build_String :: "build \<Rightarrow> string" where
  "build_String b =
     ''qcat '' @ Short b @ [CHR 0x0A] @
     (if bd_revision b \<noteq> [] then ''commit    '' @ bd_revision b @ [CHR 0x0A] else []) @
     (case bd_time b of None \<Rightarrow> [] | Some t \<Rightarrow> ''committed '' @ t @ [CHR 0x0A]) @
     ''go        '' @ bd_go b @ '' '' @ bd_platform b @ [CHR 0x0A]"

section \<open>Lemmas\<close>

lemma settings_keep_version: "bd_version (fold (apply_setting stamp) kvs b) = bd_version b"
  by (induction kvs arbitrary: b) (simp_all add: apply_setting_def)

lemma settings_revision:
  "bd_revision (fold (apply_setting stamp) kvs b) =
   (case filter (\<lambda>kv. fst kv = ''vcs.revision'') (rev kvs) of [] \<Rightarrow> bd_revision b | kv # _ \<Rightarrow> snd kv)"
proof (induction kvs rule: rev_induct)
  case (snoc kv kvs)
  then show ?case by (auto simp: apply_setting_def)
qed simp

text \<open>
  A build from a checkout never passes for a release: unless a release version was linked in, a build
  that carries a revision reports \<open>devel\<close> and its short form names the commit.
\<close>

lemma checkout_is_devel:
  assumes "bd_revision (Current stamp [] go platform info) \<noteq> []"
  shows "bd_version (Current stamp [] go platform info) = devel \<and>
    (\<exists>rest. Short (Current stamp [] go platform info) =
       devel @ '' '' @ take 12 (bd_revision (Current stamp [] go platform info)) @ rest)"
  using assms by (auto simp: Current_def Let_def settings_keep_version Short_def devel_def split: option.splits if_splits)

lemma linked_version: "version \<noteq> [] \<Longrightarrow> bd_version (Current stamp version go platform info) = version"
  by (simp add: Current_def Let_def settings_keep_version split: option.splits)

lemma version_known: "bd_version (Current stamp version go platform info) \<noteq> []"
  by (simp add: Current_def Let_def devel_def split: option.splits)

end
