(* ===== verification/Spec2Isabelle.thy ===== *)
theory Spec2Isabelle
  imports Connect Mosh_Command Udp_Relay Providers Build_Version
begin

text \<open>
  QuantumCat (\<open>qcat\<close>) connects two machines that were paired out of band. This development models its Go
  code under \<open>src/cmd/qcat\<close> and \<open>src/internal\<close>, and the authenticated admission that it added to its copy of
  Tailcat (\<open>src/third_party/tailcat\<close>), and proves the properties that make it correct. Every definition
  keeps the name of the function, method or type it models where Isabelle allows it.

  \<^bold>\<open>The program and how its parts interact.\<close> A server (\<open>serve\<close>) and a client (\<open>forward\<close>, \<open>socks\<close>, \<open>connect\<close>, \<open>up\<close>,
  \<open>mosh\<close>) each hold a long-lived signature key, in software or behind a Secure Enclave helper. The
  configuration store holds the own identity and one descriptor per paired peer, read only through checks of
  ownership, permissions and links. The server reloads the descriptors every few seconds into the authorized
  set. Its transport passes bootstrap packets to the handshake: a client hello with a blinded peer tag, a
  server hello with a KEM ciphertext, a client finish and an acknowledgement; success installs a peer with a
  fresh pre-shared key for a lease of an hour, which the client renews. A worker of the transport installs, renews and
  evicts peers, asks once a second which of them are still valid, and answers the WireGuard device what it may
  configure. Through the tunnel the server publishes
  TCP services and a SOCKS proxy with allowed targets, and framed UDP services; alternatively both ends route
  an OS tunnel device. Running commands answer on control sockets, over which \<open>status\<close> and \<open>down\<close> reach them.

  \<^bold>\<open>Theories.\<close>
  \<^item> \<open>Prelude\<close>: bytes, slices, big-endian numbers, Go maps as association lists, times, and the interfaces.
  \<^item> \<open>Wire\<close> (\<open>internal/protocol/wire.go\<close>): frames, identifiers, tags, signature check, transcript. Frames have
    exactly one encoding and transcripts determine their fields.
  \<^item> \<open>Identifier\<close> (\<open>PeerID.String\<close>, \<open>ParseID\<close>): the base32 text form, injective and read back.
  \<^item> \<open>Rate_Limit\<close>, \<open>Handshake\<close> (\<open>internal/protocol/handshake.go\<close>): token buckets, client and server state and
    all their operations. \<open>Handshake_Safety\<close> has the server as an event machine with its invariant,
    \<open>Handshake_History\<close> what a run leaves behind, \<open>Handshake_Honest\<close> a handshake of two honest ends message by
    message, \<open>Handshake_Props\<close> the properties: authenticity, confirmation, one session per transcript, one
    installation per source, no replay, bounded tables, retransmission, completion of honest handshakes.
  \<^item> \<open>Renew\<close> (\<open>internal/transport/renew.go\<close>): the renewal loop; a renewal is always due in time.
  \<^item> \<open>Transport\<close> (\<open>internal/transport/transport.go\<close>): both bootstrap callbacks; a key is returned only after
    the acknowledgement that belongs to it, and the KEM does not outlive the callback.
  \<^item> \<open>Admission\<close> (\<open>third_party/tailcat/quantumcat.go\<close> and the authenticated parts of \<open>tailcat.go\<close>): the server's
    inbox, its worker, installation, renewal, eviction, expiry, disconnection, closing, the network map and
    the peer configurations, as an event machine. \<open>Admission_Safety\<close> has its invariants, \<open>Admission_History\<close> what its
    log says about the handshake behind every peer, \<open>Admission_Props\<close> the properties: tables of one piece, only
    authenticated peers in the network, installation done or undone, sessions that end only for a reason,
    no transcript left installing, routes requested in step with the connected peers, a fair inbox.
  \<^item> \<open>Client_Backend\<close> (the same files): start, renewal, refresh, probe and closing of the client; WireGuard has no peer
    before the server is authenticated. \<open>Connect\<close> joins both ends: an honest client gets into the network.
  \<^item> \<open>File_System\<close> (\<open>internal/trust/path.go\<close>), \<open>Config_Store\<close> (\<open>internal/config\<close>): a file system with links, owners
    and modes, the trust checks, and every operation of the store: what it reads is trusted, also against
    a concurrent change of the path; what it writes can be read back; what it removes stays removed.
  \<^item> \<open>Providers\<close> (\<open>internal/crypto/provider\<close>): software keys, the helper's executable, pipe protocol and the
    identity that restarts it; a public key once reported stays pinned.
  \<^item> \<open>Go_Strings\<close>, \<open>Socks\<close> (\<open>internal/proxy/socks.go\<close>): host, port and address texts, both ends of the CONNECT
    negotiation, which agree on the target.
  \<^item> \<open>Udp_Frame\<close>, \<open>Udp_Services\<close>, \<open>Udp_Relay\<close> (\<open>internal/proxy/udp_frame.go\<close>, \<open>udp.go\<close>, \<open>cmd/qcat/udp.go\<close>):
    fragments and reassembly, command-line forms, the flow table with its workers and readers, and the
    relay of a service as a machine of three threads: round trips, order, no crossing, bounds, shutdown, and
    nothing delivered that was not sent whatever the tunnel does to the frames.
  \<^item> \<open>Serve_Command\<close>, \<open>Client_Command\<close>, \<open>Mosh\<close>, \<open>Mosh_Command\<close> (\<open>cmd/qcat\<close>): services and published ports, start,
    the reload loop as a refinement of a specification of what is authorized, the client commands, quoting
    of the remote command, confinement of the session key, release of everything acquired.
  \<^item> \<open>Control\<close> (\<open>internal/control\<close>), \<open>Tunnel\<close> (\<open>internal/tunnel\<close>), \<open>Build_Version\<close> (\<open>internal/version\<close>): control
    sockets, OS routes whose commands may fail or be killed half done, build identification.
  \<^item> This theory: what spans components, from a descriptor in the store to the configuration of a peer in
    the WireGuard device and back to the end of its session after revocation.

  \<^bold>\<open>Interfaces.\<close> The locales of \<open>Prelude\<close> and \<open>Providers\<close> state what one part relies on of another; each is
  interpreted on the definitions that provide it. \<open>codec\<close> and \<open>canonical_codec\<close>: bootstrap frames and UDP
  fragments. \<open>bounded_table\<close>: the rate-limit tables and the table of incomplete datagrams. \<open>invariant_machine\<close>: the
  handshake server, the admission of peers (three times: its tables, the origin of what they hold, and the
  composition of both with reports and routes), the renewal loop, the flow table, the relay, the route table,
  the enclave identity.
  \<open>draining_machine\<close>: a relay whose connections are closed. \<open>identity_provider\<close>: software and enclave identities.

  \<^bold>\<open>Modelling.\<close> State is passed explicitly; goroutines are event machines whose events are the operations at
  which they synchronise, so a theorem about all runs is one about all interleavings. Errors are values, every
  early return is a branch. What is done under one lock is one step: a completion of an installation holds
  \<open>peerLifecycleMu\<close> throughout. What the transport asks of the engine, the relay and the tunnel is a log; whether the tunnel grants the
  addition or the removal of a route is an input, as are the outcomes of the commands that change routes. A
  closure is the record of what it captured, applied to what it reads when it is called. Go maps are association lists in any order. Pointers that are compared are
  allocation numbers. Integers are unbounded where the code cannot reach their bounds and words where it
  can (datagram identifiers, the \<open>seen\<close> set, time stamps, permission bits). Floating point rounding in the
  token buckets is a parameter. Cryptographic functions, JSON, Tailcat's endpoint format, how system calls and
  processes end, and clock readings are parameters or inputs; what is used of them are named hypotheses
  (\<open>crypto_ok\<close>, \<open>ieee\<close>, \<open>ctl_json_ok\<close> and the premises of theorems), each met by an example.

  \<^bold>\<open>Fuel and bounds.\<close> Resolving a path follows at most 255 links, the limit of \<open>filepath.EvalSymlinks\<close>; then it fails,
  as there. Parsing an IPv6 address takes at most eight turns, one per group of 16 bits. All other
  recursion is structural or has a termination proof; loops that serve until cancelled are functions of the
  list of events they meet.

  \<^bold>\<open>Not modelled.\<close> The rest of Tailcat and WireGuard under \<open>src/third_party\<close> (vendored: address format, relays, netstack,
  endpoint advertisement, and the admission without authentication, which QuantumCat never enables), the
  Swift helper program, the \<open>flag\<close> package and the usage text, deadlines on sockets and \<open>context.AfterFunc\<close> hooks
  (they only make calls fail, which the inputs cover), copying of bytes between two TCP connections, logging,
  \<open>main\<close> and \<open>lifecycle.go\<close> (signals and exit status), permission errors of path lookups (every directory of the
  file system can be searched), \<open>DefaultDir\<close> (environment variables).
\<close>

section \<open>From the store to the tunnel\<close>

lemma Lookup_Some: "Lookup (Some auths) pid = key \<Longrightarrow> key \<noteq> [] \<Longrightarrow> map_of auths pid = Some key"
  by (simp add: Lookup_def lookup_list_map_of split: option.splits)

text \<open>
  C1. Only paired peers are in the network. Let a server run with the authorizations of its reload loop,
  after at least three reloads. If its WireGuard device is given a configuration for a source, then its
  pre-shared key is that of a session which the handshake handed out for this source to a peer whose
  identity is the hash of a key, and this key is the one of a valid descriptor that a trusted file of the
  configuration store held at one of the last three reloads.
\<close>

theorem configured_peer_is_paired:
  assumes run: "runs (backend_step C fl lt) (new_backend (new_server spub ks auth) tunnel hook) es b"
    and cfg: "peerConfig (now, Some (sg_authorized t)) k b = Some (ips, psk)" "bk_phase b \<noteq> Closed"
    and loop: "serve_loop C J parse_addr msg dir (map Reload fss) \<lparr>sg_reload = no_failures, sg_authorized = initial, sg_log = []\<rparr> = Inr t"
    and three: "3 \<le> length fss"
  shows "\<exists>f \<in> set (drop (length fss - 3) fss). \<exists>d es1 oc pkt t1 es2 s s' out ses. trusted_descriptor C J parse_addr dir f d \<and>
    calls (bk_log b) = es1 @ EvHandle oc k pkt t1 # es2 \<and> runs (server_step C fl) (new_server spub ks auth) es1 s \<and>
    Handle C fl oc k pkt t1 s = (s', out, Some ses) \<and> PSK ses = psk \<and> Peer ses = ID C (d_public d)"
proof -
  have inv: "peers_inv b" "backed_inv C fl (new_server spub ks auth) b"
    using run_serving_inv [OF run] by (simp_all add: serving_inv_def backend_inv_def)
  obtain p where p: "map_of (peerValid b) k = Some p" "valid_at (now, Some (sg_authorized t)) p"
    "psk = (case map_of (peerPSKs b) k of None \<Rightarrow> zeros 32 | Some psk \<Rightarrow> psk)"
    using cfg(1) by (auto simp: peerConfig_def split: option.splits if_splits)
  then have psk: "psk = ap_psk p" using row_present [OF inv(1) p(1)] cfg(2) by (metis option.simps(5))
  have "map_of (sg_authorized t) (ap_identity p) = Some (ap_pinned p)"
    using p(2) Lookup_Some by (auto simp: valid_at_def Valid_def)
  from serve_loop_trusted [OF loop this three] obtain f d where f: "f \<in> set (drop (length fss - 3) fss)"
    "trusted_descriptor C J parse_addr dir f d" "ap_identity p = ID C (d_public d)"
    by metis
  have "backed C fl (new_server spub ks auth) (calls (bk_log b)) k p" using inv(2) p(1) by (simp add: backed_inv_def)
  then show ?thesis
    unfolding backed_def using f psk by (elim exE conjE, intro bexI [OF _ f(1)] exI conjI) (auto simp: made_from_def)
qed

text \<open>
  C2. Revocation ends running sessions, and a tick ends no others before their lease is over. After three
  reloads none of which found the pinned key of a session in a trusted descriptor, the next tick removes
  the session: it is in no table any more and has no configuration, and the tunnel device, if there is one,
  is asked to remove its route (the tick does not look at how that ends). And a session whose key was found
  by the latest reload, under its identity, is not touched by a tick before its lease ends.
\<close>

theorem revocation_ends_sessions:
  assumes run: "runs (backend_step C fl lt) (new_backend (new_server spub ks auth) tunnel hook) es b"
    and peer: "map_of (peerValid b) k = Some p" and view: "view k = (now, Some (sg_authorized t))"
    and loop: "serve_loop C J parse_addr msg dir (map Reload fss) \<lparr>sg_reload = no_failures, sg_authorized = initial, sg_log = []\<rparr> = Inr t"
    and three: "3 \<le> length fss"
  shows "((\<forall>f \<in> set (drop (length fss - 3) fss). \<forall>d. trusted_descriptor C J parse_addr dir f d \<longrightarrow> d_public d \<noteq> ap_pinned p) \<longrightarrow>
      row (worker_tick clock view ok b) k = (None, None, None, None, None) \<and> (\<forall>r. peerConfig r k (worker_tick clock view ok b) = None) \<and>
      (tunnelPeer b \<longrightarrow> last_asked (bk_log (worker_tick clock view ok b)) k = Some (False, ok k))) \<and>
    (\<forall>ds d. Peers C J parse_addr dir (last fss) = Inr ds \<longrightarrow> d \<in> set ds \<longrightarrow> d_public d = ap_pinned p \<longrightarrow>
      ap_identity p = ID C (d_public d) \<longrightarrow> (\<forall>e \<in> set ds. ID C (d_public e) = ID C (d_public d) \<longrightarrow> d_public e = d_public d) \<longrightarrow>
      ap_pinned p \<noteq> [] \<longrightarrow> now < ap_expires p \<longrightarrow> row (worker_tick clock view ok b) k = row b k)"
proof (intro conjI impI allI)
  have inv: "backend_inv b" using run_serving_inv [OF run] by (simp add: serving_inv_def)
  note tick = tick_session [OF inv peer, where view = view and now = clock and ok = ok, unfolded view]
  have trusted: "\<exists>f \<in> set (drop (length fss - 3) fss). \<exists>d. trusted_descriptor C J parse_addr dir f d \<and> d_public d = ap_pinned p"
    if "valid_at (now, Some (sg_authorized t)) p"
  proof -
    have "map_of (sg_authorized t) (ap_identity p) = Some (ap_pinned p)"
      using that Lookup_Some by (auto simp: valid_at_def Valid_def)
    from serve_loop_trusted [OF loop this three] show ?thesis by blast
  qed
  {
    assume gone: "\<forall>f \<in> set (drop (length fss - 3) fss). \<forall>d. trusted_descriptor C J parse_addr dir f d \<longrightarrow> d_public d \<noteq> ap_pinned p"
    then have "\<not> valid_at (now, Some (sg_authorized t)) p" using trusted by blast
    note off = tick(2,3) [OF this]
    show "row (worker_tick clock view ok b) k = (None, None, None, None, None)"
      "peerConfig r k (worker_tick clock view ok b) = None" for r
      using off(1) no_row_no_config by simp_all
    show "last_asked (bk_log (worker_tick clock view ok b)) k = Some (False, ok k)" if "tunnelPeer b" using that by (rule off(2))
  next
    fix ds d
    assume d: "Peers C J parse_addr dir (last fss) = Inr ds" "d \<in> set ds" "d_public d = ap_pinned p"
      "ap_identity p = ID C (d_public d)" "\<forall>e \<in> set ds. ID C (d_public e) = ID C (d_public d) \<longrightarrow> d_public e = d_public d"
      and live: "ap_pinned p \<noteq> []" "now < ap_expires p"
    obtain gs f where gs: "fss = gs @ [f]" using three by (cases fss rule: rev_cases) auto
    have "sg_authorized t = authorize C ds"
      using serve_loop_reloads [of "\<lparr>sg_reload = no_failures, sg_authorized = initial, sg_log = []\<rparr>" C J parse_addr msg dir fss] loop d(1)
      by (auto simp: gs)
    then have "valid_at (now, Some (sg_authorized t)) p"
      using authorize_complete [OF d(2,5)] d(3,4) live by (simp add: valid_at_def Valid_def Lookup_def lookup_list_map_of)
    then show "row (worker_tick clock view ok b) k = row b k" by (rule tick(1))
  }
qed

text \<open>Three reloads of a store with one trusted descriptor.\<close>

lemma paired_loop:
  assumes "dec_peer J [1] = Some d" "Validate C (\<lambda>_. None) d = None"
  obtains t where "serve_loop C J (\<lambda>_. None) (\<lambda>_. []) [''q''] (map Reload (replicate 3 disk_paired))
      \<lparr>sg_reload = no_failures, sg_authorized = [], sg_log = []\<rparr> = Inr t"
    "sg_authorized t = [(ID C (d_public d), d_public d)]"
proof -
  let ?s = "\<lparr>sg_reload = no_failures, sg_authorized = [], sg_log = []\<rparr>"
  obtain t where t: "serve_loop C J (\<lambda>_. None) (\<lambda>_. []) [''q''] (map Reload (replicate 3 disk_paired)) ?s = Inr t"
    "sg_authorized t = auth_spec C [] (map (Peers C J (\<lambda>_. None) [''q'']) (replicate 3 disk_paired))"
    using serve_loop_reloads [of ?s C J "\<lambda>_. None" "\<lambda>_. []" "[''q'']" "replicate 3 disk_paired"] by auto
  have "sg_authorized t = [(ID C (d_public d), d_public d)]"
    using t(2) disk_paired_peers [OF assms] by (simp add: auth_spec_def trailing_failures_def numeral_3_eq_3 authorize_def)
  with t(1) show thesis by (rule that)
qed

definition demo_descriptor :: descriptor where
  "demo_descriptor = \<lparr>d_version = 1, d_name = ''alice'', d_peerid = String (ID demo (h_pub demo_peer)), d_public = h_pub demo_peer, d_endpoint = []\<rparr>"

definition demo_json :: json where
  "demo_json = alice_json\<lparr>dec_peer := (\<lambda>_. Some demo_descriptor)\<rparr>"

lemma demo_valid: "Validate demo (\<lambda>_. None) demo_descriptor = None"
proof -
  have "length (h_pub demo_peer) = MLDSA87PublicKeySize" by (simp add: demo_peer_def MLDSA87PublicKeySize_def)
  then show ?thesis by (simp add: Validate_def demo_descriptor_def PeerVersion_def CheckName_def alnum_def Let_def)
qed

lemma demo_loop:
  obtains t where "serve_loop demo demo_json (\<lambda>_. None) (\<lambda>_. []) [''q''] (map Reload (replicate 3 disk_paired))
      \<lparr>sg_reload = no_failures, sg_authorized = [], sg_log = []\<rparr> = Inr t" "Some (sg_authorized t) = snd demo_reading"
  by (rule paired_loop [of demo_json demo_descriptor demo])
    (use that in \<open>simp_all add: demo_json_def demo_valid demo_reading_def, simp add: demo_descriptor_def\<close>)

theorem configured_peer_is_paired_witness:
  "\<exists>b ips psk d. runs (backend_step demo fixed_point SessionLifetime) (new_backend demo_start False False) demo_events b \<and>
     peerConfig demo_reading demo_source b = Some (ips, psk) \<and> trusted_descriptor demo demo_json (\<lambda>_. None) [''q''] disk_paired d"
proof -
  obtain b p where b: "runs (backend_step demo fixed_point SessionLifetime) (new_backend demo_start False False) demo_events b"
    "row_of demo_chance demo_source p b" "valid_at demo_reading p" "bk_phase b = Running"
    by (rule demo_connected [of False])
  obtain ips where cfg: "peerConfig demo_reading demo_source b = Some (ips, ap_psk p)" using demo_config [OF b(2,3)] by blast
  obtain t where t: "serve_loop demo demo_json (\<lambda>_. None) (\<lambda>_. []) [''q''] (map Reload (replicate 3 disk_paired))
      \<lparr>sg_reload = no_failures, sg_authorized = [], sg_log = []\<rparr> = Inr t" "Some (sg_authorized t) = snd demo_reading"
    by (rule demo_loop)
  have "peerConfig (fst demo_reading, Some (sg_authorized t)) demo_source b = Some (ips, ap_psk p)" using cfg t(2) by simp
  from configured_peer_is_paired [OF b(1) [unfolded demo_start_def] this _ t(1)] b(4)
  have "\<exists>d. trusted_descriptor demo demo_json (\<lambda>_. None) [''q''] disk_paired d" by auto
  with b(1) cfg show ?thesis by blast
qed

text \<open>Three reloads of a store from which the only peer was removed.\<close>

lemma disk_untrusted: "\<not> trusted_descriptor C J parse_addr [''q''] disk d"
  by (auto simp: trusted_descriptor_def peer_path_def disk_def tree_defs)

lemma demo_revoked_loop:
  obtains t where "serve_loop demo demo_json (\<lambda>_. None) (\<lambda>_. []) [''q''] (map Reload (replicate 3 disk))
      \<lparr>sg_reload = no_failures, sg_authorized = the (snd demo_reading), sg_log = []\<rparr> = Inr t" "sg_authorized t = []"
proof -
  let ?s = "\<lparr>sg_reload = no_failures, sg_authorized = the (snd demo_reading), sg_log = []\<rparr>"
  obtain t where t: "serve_loop demo demo_json (\<lambda>_. None) (\<lambda>_. []) [''q''] (map Reload (replicate 3 disk)) ?s = Inr t"
    "sg_authorized t = auth_spec demo (the (snd demo_reading)) (map (Peers demo demo_json (\<lambda>_. None) [''q'']) (replicate 3 disk))"
    using serve_loop_reloads [of ?s demo demo_json "\<lambda>_. None" "\<lambda>_. []" "[''q'']" "replicate 3 disk"] by auto
  have "sg_authorized t = []"
    using t(2) by (simp add: disk_peers auth_spec_def trailing_failures_def numeral_3_eq_3 authorize_def)
  with t(1) show thesis by (rule that)
qed

text \<open>
  A connected session with a tunnel: a tick keeps it while its peer is paired, and three reloads after
  the peer was removed a tick ends it, also when the removal of the route fails.
\<close>

theorem revocation_ends_sessions_witness:
  "\<exists>b. runs (backend_step demo fixed_point SessionLifetime) (new_backend demo_start True False) demo_events b \<and>
     row b demo_source \<noteq> (None, None, None, None, None) \<and>
     row (worker_tick 0 (\<lambda>_. demo_reading) (\<lambda>_. False) b) demo_source = row b demo_source \<and>
     row (worker_tick 0 (\<lambda>_. (4 * second, Some [])) (\<lambda>_. False) b) demo_source = (None, None, None, None, None) \<and>
     last_asked (bk_log (worker_tick 0 (\<lambda>_. (4 * second, Some [])) (\<lambda>_. False) b)) demo_source = Some (False, False)"
proof -
  obtain b p where b: "runs (backend_step demo fixed_point SessionLifetime) (new_backend demo_start True False) demo_events b"
    "row_of demo_chance demo_source p b" "valid_at demo_reading p" "tunnelPeer b = True"
    by (rule demo_connected [of True])
  have p: "map_of (peerValid b) demo_source = Some p" using b(2) by (simp add: row_of_def)
  obtain t where t: "serve_loop demo demo_json (\<lambda>_. None) (\<lambda>_. []) [''q''] (map Reload (replicate 3 disk_paired))
      \<lparr>sg_reload = no_failures, sg_authorized = [], sg_log = []\<rparr> = Inr t" "Some (sg_authorized t) = snd demo_reading"
    by (rule demo_loop)
  have view: "(\<lambda>_. demo_reading) demo_source = (fst demo_reading, Some (sg_authorized t))" using t(2) by simp
  have "Peers demo demo_json (\<lambda>_. None) [''q''] (last (replicate 3 disk_paired)) = Inr [demo_descriptor]"
    using disk_paired_peers [of demo_json demo_descriptor demo] by (simp add: demo_json_def demo_valid)
  moreover have "ap_identity p = ID demo (h_pub demo_peer)" "ap_pinned p = h_pub demo_peer" "ap_pinned p \<noteq> []" "fst demo_reading < ap_expires p"
    using b(3) by (auto simp: valid_at_def Valid_def demo_reading_def Lookup_def split: if_splits)
  ultimately have kept: "row (worker_tick 0 (\<lambda>_. demo_reading) (\<lambda>_. False) b) demo_source = row b demo_source"
    using revocation_ends_sessions [OF b(1) [unfolded demo_start_def] p view t(1), THEN conjunct2, rule_format, of "[demo_descriptor]" demo_descriptor]
    by (simp add: demo_descriptor_def)
  obtain u where u: "serve_loop demo demo_json (\<lambda>_. None) (\<lambda>_. []) [''q''] (map Reload (replicate 3 disk))
      \<lparr>sg_reload = no_failures, sg_authorized = the (snd demo_reading), sg_log = []\<rparr> = Inr u" "sg_authorized u = []"
    by (rule demo_revoked_loop)
  have gone: "(\<lambda>_. (4 * second, Some [])) demo_source = (4 * second, Some (sg_authorized u))" using u(2) by simp
  have "row (worker_tick 0 (\<lambda>_. (4 * second, Some [])) (\<lambda>_. False) b) demo_source = (None, None, None, None, None)"
    "last_asked (bk_log (worker_tick 0 (\<lambda>_. (4 * second, Some [])) (\<lambda>_. False) b)) demo_source = Some (False, False)"
    using revocation_ends_sessions [OF b(1) [unfolded demo_start_def] p gone u(1), THEN conjunct1, of 0 "\<lambda>_. False"] disk_untrusted b(4)
    by simp_all
  moreover have "row b demo_source \<noteq> (None, None, None, None, None)" using p by (simp add: row_def)
  ultimately show ?thesis using b(1) kept by blast
qed

end
